(* ===== verification/Prelude.thy ===== *)
theory Prelude
  imports Main "HOL-Library.Word"
begin

text \<open>
  Shared vocabulary of the development: the machine integer types of the simulator, its
  abnormal endings as values, the result monad that threads them, and the generic facts on
  lists, folds and circular buffers that the component theories use. Nothing here models a
  function of the source.
\<close>

section \<open>Types\<close>

text \<open>\<open>uint32_t\<close> and \<open>int32_t\<close> are both 32-bit words; \<open>sint\<close> reads the signed value.\<close>

type_synonym u32 = "32 word"
type_synonym i32 = "32 word"

text \<open>
  The simulator is built without \<open>NDEBUG\<close>, so a failing \<open>assert\<close> aborts the process. Every
  assertion of the modelled code is one constructor; \<open>Out_of_bounds\<close> stands for the undefined
  behaviour of an unchecked \<open>vector::operator[]\<close>, \<open>Bad_number\<close> for an uncaught exception of
  \<open>std::stoi\<close>, \<open>std::stoul\<close> or \<open>std::string::substr\<close>.
\<close>

datatype sim_error =
    Assert_reg_index
  | Assert_rob_size
  | Assert_rob_tag
  | Assert_rob_in_flight
  | Assert_rob_head_ready
  | Assert_rob_nonempty
  | Assert_rs_pop
  | Assert_bs_depth
  | Assert_bs_output
  | Assert_lsb_size
  | Assert_lsb_load
  | Assert_lsb_store
  | Assert_iq_capacity
  | Assert_iq_dispatch
  | Out_of_bounds
  | Bad_number

type_synonym 'a res = "sim_error + 'a"

section \<open>The result monad\<close>

definition res_bind :: "'a res \<Rightarrow> ('a \<Rightarrow> 'b res) \<Rightarrow> 'b res" where
  "res_bind m f = (case m of Inl e \<Rightarrow> Inl e | Inr a \<Rightarrow> f a)"

definition res_assert :: "bool \<Rightarrow> sim_error \<Rightarrow> unit res" where
  "res_assert b e = (if b then Inr () else Inl e)"

fun res_fold :: "('a \<Rightarrow> 's \<Rightarrow> 's res) \<Rightarrow> 'a list \<Rightarrow> 's \<Rightarrow> 's res" where
  "res_fold f [] s = Inr s"
| "res_fold f (x # xs) s = res_bind (f x s) (res_fold f xs)"

definition returns :: "'a res \<Rightarrow> ('a \<Rightarrow> bool) \<Rightarrow> bool" where
  "returns m P = (case m of Inl e \<Rightarrow> False | Inr a \<Rightarrow> P a)"

named_theorems res_simps \<open>evaluation of the result monad\<close>
named_theorems opdefs \<open>definitions of the operations of the components\<close>

lemma res_bind_Inr [simp, res_simps]: "res_bind (Inr a) f = f a"
  by (simp add: res_bind_def)

lemma res_bind_Inl [simp, res_simps]: "res_bind (Inl e) f = Inl e"
  by (simp add: res_bind_def)

lemma res_assert_True [simp, res_simps]: "res_assert True e = Inr ()"
  by (simp add: res_assert_def)

lemma res_assert_False [simp, res_simps]: "res_assert False e = Inl e"
  by (simp add: res_assert_def)

lemma res_bind_eq_Inr [simp]:
  "res_bind m f = Inr b \<longleftrightarrow> (\<exists>a. m = Inr a \<and> f a = Inr b)"
  by (cases m) auto

lemma Inr_eq_res_bind [simp]:
  "Inr b = res_bind m f \<longleftrightarrow> (\<exists>a. m = Inr a \<and> f a = Inr b)"
  by (cases m) auto

lemma res_assert_eq_Inr [simp]: "res_assert b e = Inr u \<longleftrightarrow> b"
  by (simp add: res_assert_def)

lemma res_assert_eq_Inl [simp]: "res_assert b e = Inl e' \<longleftrightarrow> \<not> b \<and> e' = e"
  by (auto simp add: res_assert_def)

lemma returns_Inr [simp]: "returns (Inr a) P = P a"
  by (simp add: returns_def)

lemma returns_Inl [simp]: "\<not> returns (Inl e) P"
  by (simp add: returns_def)

lemma returns_iff: "returns m P \<longleftrightarrow> (\<exists>a. m = Inr a \<and> P a)"
  by (cases m) auto

lemma returnsE:
  assumes "returns m P"
  obtains a where "m = Inr a" and "P a"
  using assms by (auto simp: returns_iff)

lemma returns_mono: "returns m P \<Longrightarrow> (\<And>a. P a \<Longrightarrow> Q a) \<Longrightarrow> returns m Q"
  by (cases m) auto

lemma returns_bind: "returns (res_bind m f) Q \<longleftrightarrow> returns m (\<lambda>a. returns (f a) Q)"
  by (cases m) auto

lemma returns_bindI:
  "returns m P \<Longrightarrow> (\<And>a. P a \<Longrightarrow> returns (f a) Q) \<Longrightarrow> returns (res_bind m f) Q"
  by (cases m) auto

text \<open>The loop rule: an invariant that every iteration returns with is returned by the loop.\<close>

lemma returns_res_fold:
  assumes "I s" and "\<And>x s. x \<in> set xs \<Longrightarrow> I s \<Longrightarrow> returns (f x s) I"
  shows "returns (res_fold f xs s) I"
  using assms
proof (induction xs arbitrary: s)
  case Nil
  then show ?case by simp
next
  case (Cons x xs)
  have "returns (f x s) I"
    using Cons.prems by simp
  then show ?case
    using Cons by (auto intro!: returns_bindI)
qed

end
