(* ===== verification/Instruction.thy ===== *)
theory Instruction
  imports Prelude
begin

text \<open>
  \<open>config.h\<close>, \<open>instruction.h\<close>, \<open>instruction.cpp\<close>: the tunable constants, the opcodes, the
  decoded instruction that flows through the pipeline, and the tables (latency, pipelining,
  name, class) every unit consults. The constructors of \<open>opcode\<close> are the source's with the
  prefix \<open>Op_\<close>, since \<open>AND\<close>, \<open>OR\<close> and \<open>XOR\<close> are word operators of the library.
\<close>

section \<open>Configuration (config.h)\<close>

definition LAT_INT_ALU :: int where "LAT_INT_ALU = 1"
definition LAT_INT_LS :: int where "LAT_INT_LS = 2"
definition LAT_BRANCH :: int where "LAT_BRANCH = 1"
definition LAT_FP_ADDSUB :: int where "LAT_FP_ADDSUB = 2"
definition LAT_FP_MUL :: int where "LAT_FP_MUL = 4"
definition LAT_FP_DIV :: int where "LAT_FP_DIV = 8"
definition LAT_FP_LS :: int where "LAT_FP_LS = 2"
definition LAT_FP_CVT :: int where "LAT_FP_CVT = 2"
definition LAT_MISC :: int where "LAT_MISC = 1"

definition PIPE_INT_ALU :: bool where "PIPE_INT_ALU = True"
definition PIPE_INT_LS :: bool where "PIPE_INT_LS = False"
definition PIPE_BRANCH :: bool where "PIPE_BRANCH = False"
definition PIPE_FP_ADDSUB :: bool where "PIPE_FP_ADDSUB = True"
definition PIPE_FP_MUL :: bool where "PIPE_FP_MUL = True"
definition PIPE_FP_DIV :: bool where "PIPE_FP_DIV = False"
definition PIPE_FP_LS :: bool where "PIPE_FP_LS = False"
definition PIPE_FP_CVT :: bool where "PIPE_FP_CVT = True"

definition IQ_CAPACITY :: int where "IQ_CAPACITY = 8"
definition IQ_FETCH_WIDTH :: nat where "IQ_FETCH_WIDTH = 1"
definition ROB_SIZE :: int where "ROB_SIZE = 16"
definition RS_ALU_SIZE :: nat where "RS_ALU_SIZE = 6"
definition RS_BRANCH_SIZE :: nat where "RS_BRANCH_SIZE = 2"
definition RS_FP_ADDSUB_SIZE :: nat where "RS_FP_ADDSUB_SIZE = 3"
definition RS_FP_MUL_SIZE :: nat where "RS_FP_MUL_SIZE = 2"
definition RS_FP_DIV_SIZE :: nat where "RS_FP_DIV_SIZE = 2"
definition RS_FP_CVT_SIZE :: nat where "RS_FP_CVT_SIZE = 2"
definition LSB_SIZE :: int where "LSB_SIZE = 8"

definition NUM_INT_REGS :: nat where "NUM_INT_REGS = 32"
definition NUM_FP_REGS :: nat where "NUM_FP_REGS = 32"
definition MEM_SIZE :: nat where "MEM_SIZE = 1024"

lemmas latency_defs =
  LAT_INT_ALU_def LAT_INT_LS_def LAT_BRANCH_def LAT_FP_ADDSUB_def LAT_FP_MUL_def
  LAT_FP_DIV_def LAT_FP_LS_def LAT_FP_CVT_def LAT_MISC_def

lemmas pipe_defs =
  PIPE_INT_ALU_def PIPE_INT_LS_def PIPE_BRANCH_def PIPE_FP_ADDSUB_def PIPE_FP_MUL_def
  PIPE_FP_DIV_def PIPE_FP_LS_def PIPE_FP_CVT_def

lemmas size_defs =
  IQ_CAPACITY_def IQ_FETCH_WIDTH_def ROB_SIZE_def RS_ALU_SIZE_def RS_BRANCH_SIZE_def
  RS_FP_ADDSUB_SIZE_def RS_FP_MUL_SIZE_def RS_FP_DIV_SIZE_def RS_FP_CVT_SIZE_def LSB_SIZE_def
  MEM_SIZE_def

lemmas reg_count_defs [simp] = NUM_INT_REGS_def NUM_FP_REGS_def

section \<open>Opcodes and decoded instructions (instruction.h)\<close>

datatype opcode =
    Op_ADD | Op_SUB | Op_AND | Op_OR | Op_XOR | Op_SLL | Op_SRL | Op_SRA
  | Op_ADDI | Op_ANDI | Op_ORI | Op_XORI | Op_SLLI | Op_SRLI
  | Op_LUI
  | Op_LW | Op_SW
  | Op_BEQ | Op_BNE | Op_BLT | Op_BGE
  | Op_JAL | Op_JALR
  | Op_FADD_S | Op_FSUB_S | Op_FMUL_S | Op_FDIV_S
  | Op_FLW | Op_FSW
  | Op_FCVT_W_S | Op_FCVT_S_W
  | Op_NOP | Op_HALT

record instruction =
  in_op :: opcode
  in_rd :: int
  in_rs1 :: int
  in_rs2 :: int
  in_imm :: i32
  in_rd_fp :: bool
  in_rs1_fp :: bool
  in_rs2_fp :: bool
  in_pc :: u32

text \<open>The default member initialisers of \<open>struct Instruction\<close>.\<close>

definition default_instruction :: instruction where
  "default_instruction = \<lparr>in_op = Op_NOP, in_rd = -1, in_rs1 = -1, in_rs2 = -1, in_imm = 0,
     in_rd_fp = False, in_rs1_fp = False, in_rs2_fp = False, in_pc = 0\<rparr>"

definition is_branch :: "opcode \<Rightarrow> bool" where
  "is_branch op \<longleftrightarrow> op = Op_BEQ \<or> op = Op_BNE \<or> op = Op_BLT \<or> op = Op_BGE"

definition is_jump :: "opcode \<Rightarrow> bool" where
  "is_jump op \<longleftrightarrow> op = Op_JAL \<or> op = Op_JALR"

definition is_load :: "opcode \<Rightarrow> bool" where
  "is_load op \<longleftrightarrow> op = Op_LW \<or> op = Op_FLW"

definition is_store :: "opcode \<Rightarrow> bool" where
  "is_store op \<longleftrightarrow> op = Op_SW \<or> op = Op_FSW"

definition is_fp_op :: "opcode \<Rightarrow> bool" where
  "is_fp_op op \<longleftrightarrow> op = Op_FADD_S \<or> op = Op_FSUB_S \<or> op = Op_FMUL_S \<or> op = Op_FDIV_S \<or>
     op = Op_FLW \<or> op = Op_FSW \<or> op = Op_FCVT_W_S \<or> op = Op_FCVT_S_W"

section \<open>Tables (instruction.cpp)\<close>

definition latency_of :: "opcode \<Rightarrow> int" where
  "latency_of op = (case op of
     Op_ADD \<Rightarrow> LAT_INT_ALU | Op_SUB \<Rightarrow> LAT_INT_ALU | Op_AND \<Rightarrow> LAT_INT_ALU
   | Op_OR \<Rightarrow> LAT_INT_ALU | Op_XOR \<Rightarrow> LAT_INT_ALU | Op_SLL \<Rightarrow> LAT_INT_ALU
   | Op_SRL \<Rightarrow> LAT_INT_ALU | Op_SRA \<Rightarrow> LAT_INT_ALU | Op_ADDI \<Rightarrow> LAT_INT_ALU
   | Op_LUI \<Rightarrow> LAT_INT_ALU | Op_ANDI \<Rightarrow> LAT_INT_ALU | Op_ORI \<Rightarrow> LAT_INT_ALU
   | Op_XORI \<Rightarrow> LAT_INT_ALU | Op_SLLI \<Rightarrow> LAT_INT_ALU | Op_SRLI \<Rightarrow> LAT_INT_ALU
   | Op_LW \<Rightarrow> LAT_INT_LS | Op_SW \<Rightarrow> LAT_INT_LS
   | Op_BEQ \<Rightarrow> LAT_BRANCH | Op_BNE \<Rightarrow> LAT_BRANCH | Op_BLT \<Rightarrow> LAT_BRANCH
   | Op_BGE \<Rightarrow> LAT_BRANCH | Op_JAL \<Rightarrow> LAT_BRANCH | Op_JALR \<Rightarrow> LAT_BRANCH
   | Op_FADD_S \<Rightarrow> LAT_FP_ADDSUB | Op_FSUB_S \<Rightarrow> LAT_FP_ADDSUB
   | Op_FMUL_S \<Rightarrow> LAT_FP_MUL | Op_FDIV_S \<Rightarrow> LAT_FP_DIV
   | Op_FLW \<Rightarrow> LAT_FP_LS | Op_FSW \<Rightarrow> LAT_FP_LS
   | Op_FCVT_W_S \<Rightarrow> LAT_FP_CVT | Op_FCVT_S_W \<Rightarrow> LAT_FP_CVT
   | _ \<Rightarrow> LAT_MISC)"

definition is_pipelined :: "opcode \<Rightarrow> bool" where
  "is_pipelined op = (case op of
     Op_FADD_S \<Rightarrow> PIPE_FP_ADDSUB | Op_FSUB_S \<Rightarrow> PIPE_FP_ADDSUB
   | Op_FMUL_S \<Rightarrow> PIPE_FP_MUL | Op_FDIV_S \<Rightarrow> PIPE_FP_DIV
   | Op_FLW \<Rightarrow> PIPE_FP_LS | Op_FSW \<Rightarrow> PIPE_FP_LS
   | Op_FCVT_W_S \<Rightarrow> PIPE_FP_CVT | Op_FCVT_S_W \<Rightarrow> PIPE_FP_CVT
   | Op_LW \<Rightarrow> PIPE_INT_LS | Op_SW \<Rightarrow> PIPE_INT_LS
   | Op_BEQ \<Rightarrow> PIPE_BRANCH | Op_BNE \<Rightarrow> PIPE_BRANCH | Op_BLT \<Rightarrow> PIPE_BRANCH
   | Op_BGE \<Rightarrow> PIPE_BRANCH | Op_JAL \<Rightarrow> PIPE_BRANCH | Op_JALR \<Rightarrow> PIPE_BRANCH
   | _ \<Rightarrow> PIPE_INT_ALU)"

definition opcode_name :: "opcode \<Rightarrow> string" where
  "opcode_name op = (case op of
     Op_ADD \<Rightarrow> ''ADD'' | Op_SUB \<Rightarrow> ''SUB'' | Op_AND \<Rightarrow> ''AND'' | Op_OR \<Rightarrow> ''OR''
   | Op_XOR \<Rightarrow> ''XOR'' | Op_SLL \<Rightarrow> ''SLL'' | Op_SRL \<Rightarrow> ''SRL'' | Op_SRA \<Rightarrow> ''SRA''
   | Op_ADDI \<Rightarrow> ''ADDI'' | Op_LUI \<Rightarrow> ''LUI'' | Op_ANDI \<Rightarrow> ''ANDI'' | Op_ORI \<Rightarrow> ''ORI''
   | Op_XORI \<Rightarrow> ''XORI'' | Op_SLLI \<Rightarrow> ''SLLI'' | Op_SRLI \<Rightarrow> ''SRLI''
   | Op_LW \<Rightarrow> ''LW'' | Op_SW \<Rightarrow> ''SW''
   | Op_BEQ \<Rightarrow> ''BEQ'' | Op_BNE \<Rightarrow> ''BNE'' | Op_BLT \<Rightarrow> ''BLT'' | Op_BGE \<Rightarrow> ''BGE''
   | Op_FADD_S \<Rightarrow> ''FADD.S'' | Op_FSUB_S \<Rightarrow> ''FSUB.S'' | Op_FMUL_S \<Rightarrow> ''FMUL.S''
   | Op_FDIV_S \<Rightarrow> ''FDIV.S'' | Op_FLW \<Rightarrow> ''FLW'' | Op_FSW \<Rightarrow> ''FSW''
   | Op_FCVT_W_S \<Rightarrow> ''FCVT.W.S'' | Op_FCVT_S_W \<Rightarrow> ''FCVT.S.W''
   | Op_JAL \<Rightarrow> ''JAL'' | Op_JALR \<Rightarrow> ''JALR''
   | Op_NOP \<Rightarrow> ''NOP'' | Op_HALT \<Rightarrow> ''HALT'')"

section \<open>Facts\<close>

lemmas class_defs = is_branch_def is_jump_def is_load_def is_store_def

lemma latency_positive: "1 \<le> latency_of op"
  by (cases op) (simp_all add: latency_of_def latency_defs)

lemma latency_mem: "is_load op \<or> is_store op \<Longrightarrow> latency_of op = 2"
  by (auto simp: is_load_def is_store_def latency_of_def latency_defs)

lemma load_not_store: "is_load op \<Longrightarrow> \<not> is_store op"
  by (auto simp: class_defs)

lemma control_not_mem: "is_branch op \<or> is_jump op \<Longrightarrow> \<not> is_load op \<and> \<not> is_store op"
  by (auto simp: class_defs)

lemma branch_not_jump: "is_branch op \<Longrightarrow> \<not> is_jump op"
  by (auto simp: class_defs)

text \<open>The printed names identify the opcodes, so a trace can be read back.\<close>

lemma opcode_name_inject: "opcode_name a = opcode_name b \<longleftrightarrow> a = b"
  by (cases a; cases b) (simp_all add: opcode_name_def)

end
