(* ===== verification/Float32.thy ===== *)
theory Float32
  imports Prelude Instruction
begin

text \<open>
  \<open>utils.h\<close> and what the source uses of C++'s \<open>float\<close>. A \<open>float\<close> object is its binary32
  representation, so \<open>memcpy\<close> to and from \<open>uint32_t\<close> is the constructor and the selector of
  \<open>float32\<close>. The arithmetic is IEEE 754 binary32 with rounding to nearest, ties to even, and
  gradual underflow, defined on exact integers: an operand is \<open>mantissa * 2 ^ scale\<close>, the
  operation is carried out exactly (division with a sticky bit) and the exact result is rounded
  once. What the language leaves open is a parameter, the record \<open>fp_env\<close>: the bits of a NaN
  result, and the value of a conversion to \<open>int32_t\<close> whose source is a NaN or out of range.
\<close>

section \<open>Representation (utils.h)\<close>

datatype float32 = Float32 (float_bits: u32)

definition bits_to_float :: "u32 \<Rightarrow> float32" where
  "bits_to_float b = Float32 b"

definition float_to_bits :: "float32 \<Rightarrow> u32" where
  "float_to_bits f = float_bits f"

lemma float_to_bits_to_float [simp]: "bits_to_float (float_to_bits f) = f"
  by (simp add: bits_to_float_def float_to_bits_def)

lemma bits_to_float_to_bits [simp]: "float_to_bits (bits_to_float b) = b"
  by (simp add: bits_to_float_def float_to_bits_def)

section \<open>Language arithmetic\<close>

record fp_env =
  fe_nan :: "opcode \<Rightarrow> float32 \<Rightarrow> float32 \<Rightarrow> float32"
  fe_cvt_invalid :: "float32 \<Rightarrow> i32"

definition f_sign :: "float32 \<Rightarrow> bool" where
  "f_sign f = (2 ^ 31 \<le> uint (float_bits f))"

definition f_exp :: "float32 \<Rightarrow> int" where
  "f_exp f = (uint (float_bits f) div 2 ^ 23) mod 256"

definition f_frac :: "float32 \<Rightarrow> int" where
  "f_frac f = uint (float_bits f) mod 2 ^ 23"

definition f_is_nan :: "float32 \<Rightarrow> bool" where
  "f_is_nan f \<longleftrightarrow> f_exp f = 255 \<and> f_frac f \<noteq> 0"

definition f_is_inf :: "float32 \<Rightarrow> bool" where
  "f_is_inf f \<longleftrightarrow> f_exp f = 255 \<and> f_frac f = 0"

definition f_is_zero :: "float32 \<Rightarrow> bool" where
  "f_is_zero f \<longleftrightarrow> f_exp f = 0 \<and> f_frac f = 0"

definition f_mant :: "float32 \<Rightarrow> int" where
  "f_mant f = (if f_exp f = 0 then f_frac f else f_frac f + 2 ^ 23)"

definition f_scale :: "float32 \<Rightarrow> int" where
  "f_scale f = (if f_exp f = 0 then -149 else f_exp f - 150)"

definition f_pack :: "bool \<Rightarrow> int \<Rightarrow> float32" where
  "f_pack s m = Float32 (of_int ((if s then 2 ^ 31 else 0) + m))"

definition f_inf :: "bool \<Rightarrow> float32" where
  "f_inf s = f_pack s (255 * 2 ^ 23)"

text \<open>The number of binary digits of a positive integer, and \<open>n / 2 ^ sh\<close> rounded to the
  nearest integer, ties to the even one.\<close>

function bit_len :: "int \<Rightarrow> int" where
  "bit_len n = (if n \<le> 0 then 0 else 1 + bit_len (n div 2))"
  by pat_completeness auto
termination
  by (relation "measure nat") auto

declare bit_len.simps [simp del]

definition shift_round :: "int \<Rightarrow> nat \<Rightarrow> int" where
  "shift_round n sh = (let q = n div 2 ^ sh; r = 2 * (n mod 2 ^ sh) in
     if 2 ^ sh < r \<or> (r = 2 ^ sh \<and> odd q) then q + 1 else q)"

text \<open>The float nearest to \<open>(-1) ^ s * m * 2 ^ e\<close>, for \<open>m \<ge> 0\<close>.\<close>

definition f_round :: "bool \<Rightarrow> int \<Rightarrow> int \<Rightarrow> float32" where
  "f_round s m e =
     (if m = 0 then f_pack s 0
      else let e' = max (e + bit_len m - 24) (-149);
               q = (if e' \<le> e then m * 2 ^ nat (e - e') else shift_round m (nat (e' - e)))
           in f_pack s (min ((e' + 149) * 2 ^ 23 + q) (255 * 2 ^ 23)))"

definition f_signed_mant :: "float32 \<Rightarrow> int" where
  "f_signed_mant f = (if f_sign f then - f_mant f else f_mant f)"

text \<open>Addition; for a subtraction \<open>b\<close> is the negated second operand and \<open>b0\<close> the original.\<close>

definition f_add :: "fp_env \<Rightarrow> opcode \<Rightarrow> float32 \<Rightarrow> float32 \<Rightarrow> float32 \<Rightarrow> float32" where
  "f_add fe op a b b0 =
     (if f_is_nan a \<or> f_is_nan b then fe_nan fe op a b0
      else if f_is_inf a then
        (if f_is_inf b \<and> f_sign a \<noteq> f_sign b then fe_nan fe op a b0 else a)
      else if f_is_inf b then b
      else let e = min (f_scale a) (f_scale b);
               v = f_signed_mant a * 2 ^ nat (f_scale a - e)
                 + f_signed_mant b * 2 ^ nat (f_scale b - e)
           in if v = 0 then f_pack (f_sign a \<and> f_sign b) 0
              else f_round (v < 0) \<bar>v\<bar> e)"

definition f_neg :: "float32 \<Rightarrow> float32" where
  "f_neg f = Float32 (float_bits f + 2 ^ 31)"

definition float_add :: "fp_env \<Rightarrow> float32 \<Rightarrow> float32 \<Rightarrow> float32" where
  "float_add fe a b = f_add fe Op_FADD_S a b b"

definition float_sub :: "fp_env \<Rightarrow> float32 \<Rightarrow> float32 \<Rightarrow> float32" where
  "float_sub fe a b = f_add fe Op_FSUB_S a (f_neg b) b"

definition float_mul :: "fp_env \<Rightarrow> float32 \<Rightarrow> float32 \<Rightarrow> float32" where
  "float_mul fe a b = (let s = (f_sign a \<noteq> f_sign b) in
     if f_is_nan a \<or> f_is_nan b then fe_nan fe Op_FMUL_S a b
     else if f_is_inf a \<or> f_is_inf b then
       (if f_is_zero a \<or> f_is_zero b then fe_nan fe Op_FMUL_S a b else f_inf s)
     else f_round s (f_mant a * f_mant b) (f_scale a + f_scale b))"

text \<open>
  The quotient is computed to 50 binary places and its remainder kept as a sticky last bit, so
  that a single rounding of the 27 or more significant bits is the correct one.
\<close>

definition float_div :: "fp_env \<Rightarrow> float32 \<Rightarrow> float32 \<Rightarrow> float32" where
  "float_div fe a b = (let s = (f_sign a \<noteq> f_sign b) in
     if f_is_nan a \<or> f_is_nan b then fe_nan fe Op_FDIV_S a b
     else if f_is_inf a then (if f_is_inf b then fe_nan fe Op_FDIV_S a b else f_inf s)
     else if f_is_inf b then f_pack s 0
     else if f_is_zero b then (if f_is_zero a then fe_nan fe Op_FDIV_S a b else f_inf s)
     else let n = f_mant a * 2 ^ 50; q = n div f_mant b; r = n mod f_mant b
          in f_round s (2 * q + (if r = 0 then 0 else 1)) (f_scale a - f_scale b - 51))"

definition float_of_int32 :: "i32 \<Rightarrow> float32" where
  "float_of_int32 i = f_round (sint i < 0) \<bar>sint i\<bar> 0"

text \<open>Conversion to \<open>int32_t\<close> truncates towards zero.\<close>

definition f_trunc :: "float32 \<Rightarrow> int" where
  "f_trunc f = (let m = (if 0 \<le> f_scale f then f_mant f * 2 ^ nat (f_scale f)
                         else f_mant f div 2 ^ nat (- f_scale f))
                in if f_sign f then - m else m)"

definition int32_of_float :: "fp_env \<Rightarrow> float32 \<Rightarrow> i32" where
  "int32_of_float fe f =
     (if f_exp f = 255 \<or> f_trunc f < - (2 ^ 31) \<or> 2 ^ 31 \<le> f_trunc f then fe_cvt_invalid fe f
      else of_int (f_trunc f))"

lemmas float_defs =
  f_sign_def f_exp_def f_frac_def f_is_nan_def f_is_inf_def f_is_zero_def f_mant_def f_scale_def
  f_pack_def f_inf_def f_round_def f_signed_mant_def f_add_def f_neg_def float_add_def
  float_sub_def float_mul_def float_div_def float_of_int32_def f_trunc_def int32_of_float_def

text \<open>One choice of what the language leaves open, the one of an x86 processor: the default NaN,
  and the integer indefinite value for a conversion out of range.\<close>

definition x86_env :: fp_env where
  "x86_env = \<lparr>fe_nan = (\<lambda>_ _ _. Float32 0xFFC00000), fe_cvt_invalid = (\<lambda>_. 0x80000000)\<rparr>"

end
