(* ===== verification/Regfile.thy ===== *)
theory Regfile
  imports Float32
begin

text \<open>
  \<open>regfile.h\<close>, \<open>regfile.cpp\<close>: the architectural register file, two banks of 32 registers that
  hold committed state only. The assertions on the index are the error branches.
\<close>

section \<open>State and operations\<close>

record regfile =
  int_regs :: "i32 list"
  fp_regs :: "float32 list"

definition init_regfile :: regfile where
  "init_regfile = \<lparr>int_regs = replicate NUM_INT_REGS 0,
                   fp_regs = replicate NUM_FP_REGS (Float32 0)\<rparr>"

definition read_int :: "int \<Rightarrow> regfile \<Rightarrow> i32 res" where
  "read_int idx rf = res_bind (res_assert (0 \<le> idx \<and> idx < int NUM_INT_REGS) Assert_reg_index)
     (\<lambda>_. Inr (int_regs rf ! nat idx))"

definition write_int :: "int \<Rightarrow> i32 \<Rightarrow> regfile \<Rightarrow> regfile res" where
  "write_int idx val rf =
     res_bind (res_assert (0 \<le> idx \<and> idx < int NUM_INT_REGS) Assert_reg_index)
     (\<lambda>_. if idx = 0 then Inr rf
          else Inr (rf\<lparr>int_regs := (int_regs rf)[nat idx := val]\<rparr>))"

definition read_fp :: "int \<Rightarrow> regfile \<Rightarrow> float32 res" where
  "read_fp idx rf = res_bind (res_assert (0 \<le> idx \<and> idx < int NUM_FP_REGS) Assert_reg_index)
     (\<lambda>_. Inr (fp_regs rf ! nat idx))"

definition write_fp :: "int \<Rightarrow> float32 \<Rightarrow> regfile \<Rightarrow> regfile res" where
  "write_fp idx val rf =
     res_bind (res_assert (0 \<le> idx \<and> idx < int NUM_FP_REGS) Assert_reg_index)
     (\<lambda>_. Inr (rf\<lparr>fp_regs := (fp_regs rf)[nat idx := val]\<rparr>))"

lemmas regfile_ops [opdefs] = read_int_def write_int_def read_fp_def write_fp_def

section \<open>Well-formedness\<close>

text \<open>Both banks have their 32 registers, and \<open>x0\<close> holds zero.\<close>

definition regfile_wf :: "regfile \<Rightarrow> bool" where
  "regfile_wf rf \<longleftrightarrow> length (int_regs rf) = NUM_INT_REGS \<and> length (fp_regs rf) = NUM_FP_REGS \<and>
     int_regs rf ! 0 = 0"

lemma init_regfile_wf: "regfile_wf init_regfile"
  by (simp add: regfile_wf_def init_regfile_def)

lemma write_int_wf: "regfile_wf rf \<Longrightarrow> write_int r v rf = Inr rf' \<Longrightarrow> regfile_wf rf'"
  by (auto simp: regfile_wf_def write_int_def split: if_splits)

lemma write_fp_wf: "regfile_wf rf \<Longrightarrow> write_fp r v rf = Inr rf' \<Longrightarrow> regfile_wf rf'"
  by (auto simp: regfile_wf_def write_fp_def)

section \<open>Reading after writing\<close>

lemma read_int_write_int:
  assumes "regfile_wf rf" and "write_int r v rf = Inr rf'" and "0 \<le> q" and "q < 32"
  shows "read_int q rf' = (if q = r \<and> r \<noteq> 0 then Inr v else read_int q rf)"
  using assms by (auto simp: regfile_ops regfile_wf_def nth_list_update split: if_splits)

lemma read_fp_write_fp:
  assumes "regfile_wf rf" and "write_fp r v rf = Inr rf'" and "0 \<le> q" and "q < 32"
  shows "read_fp q rf' = (if q = r then Inr v else read_fp q rf)"
  using assms by (auto simp: regfile_ops regfile_wf_def nth_list_update)

lemma banks_independent:
  "write_int r v rf = Inr rf' \<Longrightarrow> fp_regs rf' = fp_regs rf"
  "write_fp r w rf = Inr rf' \<Longrightarrow> int_regs rf' = int_regs rf"
  by (auto simp: regfile_ops split: if_splits)

lemma read_x0: "regfile_wf rf \<Longrightarrow> read_int 0 rf = Inr 0"
  by (simp add: read_int_def regfile_wf_def)

section \<open>Properties\<close>

text \<open>Writing an integer register in range returns a well-formed file in which reading gives
  the value written, except that \<open>x0\<close> keeps reading as zero; every other register and the
  floating-point bank are as before.\<close>

theorem regfile_write_read:
  assumes "regfile_wf rf" and "0 \<le> r" and "r < 32" and "0 \<le> q" and "q < 32"
  shows "returns (write_int r v rf) (\<lambda>rf'. regfile_wf rf' \<and> read_int 0 rf' = Inr 0 \<and>
     read_int q rf' = (if q = r \<and> r \<noteq> 0 then Inr v else read_int q rf) \<and>
     read_fp q rf' = read_fp q rf)"
proof -
  obtain rf' where w: "write_int r v rf = Inr rf'"
    using assms by (cases "write_int r v rf") (auto simp: write_int_def split: if_splits)
  note wf = write_int_wf [OF assms(1) w]
  show ?thesis
    using w wf read_x0 [OF wf] read_int_write_int [OF assms(1) w assms(4,5)]
      banks_independent(1) [OF w]
    by (simp add: read_fp_def)
qed

theorem regfile_write_read_witness:
  "regfile_wf init_regfile \<and> returns (write_int 5 7 init_regfile) (\<lambda>rf'. regfile_wf rf' \<and>
     read_int 0 rf' = Inr 0 \<and> read_int 5 rf' = Inr 7 \<and> read_fp 5 rf' = read_fp 5 init_regfile)"
  using regfile_write_read [of init_regfile 5 5 7] init_regfile_wf by simp

end
