(* ===== verification/Rat.thy ===== *)
theory Rat
  imports Instruction
begin

text \<open>
  \<open>register_remapping_table.h\<close>, \<open>register_remapping_table.cpp\<close>: the register renaming table.
  Two tables of 32 entries say, for each architectural register, whether a committed value is
  in the register file or which reorder buffer slot will produce it. The locale
  \<open>rename_table\<close> is the contract the dispatch and commit stages rely on.
\<close>

section \<open>State and operations\<close>

record rat_entry =
  rat_valid :: bool
  rat_rob_tag :: int

definition empty_rat_entry :: rat_entry where
  "empty_rat_entry = \<lparr>rat_valid = False, rat_rob_tag = -1\<rparr>"

record rat =
  int_rat :: "rat_entry list"
  fp_rat :: "rat_entry list"

definition rat_flush :: "rat \<Rightarrow> rat" where
  "rat_flush t = t\<lparr>int_rat := replicate NUM_INT_REGS empty_rat_entry,
                   fp_rat := replicate NUM_FP_REGS empty_rat_entry\<rparr>"

definition init_rat :: rat where
  "init_rat = rat_flush \<lparr>int_rat = [], fp_rat = []\<rparr>"

definition rat_index_ok :: "int \<Rightarrow> bool \<Rightarrow> bool" where
  "rat_index_ok reg fp \<longleftrightarrow> 0 \<le> reg \<and> reg < int (if fp then NUM_FP_REGS else NUM_INT_REGS)"

definition rat_lookup :: "int \<Rightarrow> bool \<Rightarrow> rat \<Rightarrow> rat_entry res" where
  "rat_lookup reg fp t = res_bind (res_assert (rat_index_ok reg fp) Assert_reg_index)
     (\<lambda>_. Inr (if fp then fp_rat t ! nat reg else int_rat t ! nat reg))"

definition rat_set :: "int \<Rightarrow> bool \<Rightarrow> rat_entry \<Rightarrow> rat \<Rightarrow> rat" where
  "rat_set reg fp e t = (if fp then t\<lparr>fp_rat := (fp_rat t)[nat reg := e]\<rparr>
                         else t\<lparr>int_rat := (int_rat t)[nat reg := e]\<rparr>)"

definition rat_map :: "int \<Rightarrow> bool \<Rightarrow> int \<Rightarrow> rat \<Rightarrow> rat res" where
  "rat_map reg fp tag t = res_bind (res_assert (rat_index_ok reg fp) Assert_reg_index)
     (\<lambda>_. if \<not> fp \<and> reg = 0 then Inr t
          else Inr (rat_set reg fp \<lparr>rat_valid = True, rat_rob_tag = tag\<rparr> t))"

definition rat_commit :: "int \<Rightarrow> bool \<Rightarrow> int \<Rightarrow> rat \<Rightarrow> rat res" where
  "rat_commit reg fp tag t = res_bind (rat_lookup reg fp t)
     (\<lambda>e. if rat_valid e \<and> rat_rob_tag e = tag then Inr (rat_set reg fp empty_rat_entry t)
          else Inr t)"

lemmas rat_ops [opdefs] = rat_lookup_def rat_map_def rat_commit_def rat_set_def rat_index_ok_def

section \<open>Well-formedness\<close>

definition rat_wf :: "rat \<Rightarrow> bool" where
  "rat_wf t \<longleftrightarrow> length (int_rat t) = NUM_INT_REGS \<and> length (fp_rat t) = NUM_FP_REGS \<and>
     \<not> rat_valid (int_rat t ! 0)"

lemma init_rat_wf: "rat_wf init_rat"
  by (simp add: rat_wf_def init_rat_def rat_flush_def empty_rat_entry_def)

lemma rat_flush_wf: "rat_wf (rat_flush t)"
  by (simp add: rat_wf_def rat_flush_def empty_rat_entry_def)

lemma rat_map_wf: "rat_wf t \<Longrightarrow> rat_map r fp tag t = Inr t' \<Longrightarrow> rat_wf t'"
  by (auto simp: rat_wf_def rat_ops split: if_splits)

lemma rat_commit_wf: "rat_wf t \<Longrightarrow> rat_commit r fp tag t = Inr t' \<Longrightarrow> rat_wf t'"
  by (auto simp: rat_wf_def rat_ops empty_rat_entry_def nth_list_update split: if_splits)

section \<open>The table as a partial map\<close>

text \<open>The producer a register waits for; \<open>None\<close> where the register file holds the value.\<close>

definition rat_producer :: "rat \<Rightarrow> int \<Rightarrow> bool \<Rightarrow> int option" where
  "rat_producer t reg fp = (case rat_lookup reg fp t of Inl _ \<Rightarrow> None
     | Inr e \<Rightarrow> if rat_valid e then Some (rat_rob_tag e) else None)"

lemma rat_lookup_producer:
  assumes "rat_index_ok reg fp"
  obtains e where "rat_lookup reg fp t = Inr e"
    and "rat_producer t reg fp = (if rat_valid e then Some (rat_rob_tag e) else None)"
  using assms by (auto simp: rat_lookup_def rat_producer_def)

section \<open>The contract\<close>

text \<open>
  What dispatch and commit rely on: mapping a register redirects that register only, and never
  \<open>x0\<close>; committing releases a mapping only if it is still the committing producer's; a flush
  forgets every producer.
\<close>

locale rename_table =
  fixes wf :: "'t \<Rightarrow> bool"
    and ok :: "'r \<Rightarrow> bool"
    and fixed :: "'r \<Rightarrow> bool"
    and producer :: "'t \<Rightarrow> 'r \<Rightarrow> 'g option"
    and assign :: "'r \<Rightarrow> 'g \<Rightarrow> 't \<Rightarrow> 't res"
    and release :: "'r \<Rightarrow> 'g \<Rightarrow> 't \<Rightarrow> 't res"
    and reset :: "'t \<Rightarrow> 't"
  assumes assign_returns: "wf t \<Longrightarrow> ok r \<Longrightarrow> \<exists>t'. assign r g t = Inr t' \<and> wf t' \<and>
            (\<forall>q. ok q \<longrightarrow> producer t' q = (if q = r \<and> \<not> fixed r then Some g else producer t q))"
    and release_returns: "wf t \<Longrightarrow> ok r \<Longrightarrow> \<exists>t'. release r g t = Inr t' \<and> wf t' \<and>
            (\<forall>q. ok q \<longrightarrow> producer t' q
               = (if q = r \<and> producer t r = Some g then None else producer t q))"
    and reset_clears: "wf t \<Longrightarrow> wf (reset t) \<and> (\<forall>q. ok q \<longrightarrow> producer (reset t) q = None)"
begin

text \<open>A younger mapping survives the commit of an older producer of the same register.\<close>

lemma younger_mapping_survives:
  assumes "wf t" and "ok r" and "\<not> fixed r" and "g \<noteq> g'"
  shows "returns (res_bind (assign r g t) (\<lambda>t1. res_bind (assign r g' t1) (release r g)))
           (\<lambda>t'. wf t' \<and> producer t' r = Some g')"
proof -
  obtain t1 where t1: "assign r g t = Inr t1" "wf t1"
    using assign_returns [OF assms(1,2)] by blast
  obtain t2 where t2: "assign r g' t1 = Inr t2" "wf t2" "producer t2 r = Some g'"
    using assign_returns [OF t1(2) assms(2), of g'] assms(2,3) by auto
  obtain t3 where "release r g t2 = Inr t3" "wf t3" "producer t3 r = Some g'"
    using release_returns [OF t2(2) assms(2), of g] t2(3) assms(2,4) by auto
  then show ?thesis
    using t1 t2 by simp
qed

text \<open>Mapping and committing one producer restores a table where the register was free.\<close>

lemma assign_release:
  assumes "wf t" and "ok r" and "producer t r = None"
  shows "returns (res_bind (assign r g t) (release r g))
           (\<lambda>t'. wf t' \<and> (\<forall>q. ok q \<longrightarrow> producer t' q = producer t q))"
proof -
  obtain t1 where t1: "assign r g t = Inr t1" "wf t1"
      "\<And>q. ok q \<Longrightarrow> producer t1 q = (if q = r \<and> \<not> fixed r then Some g else producer t q)"
    using assign_returns [OF assms(1,2)] by blast
  obtain t2 where "release r g t1 = Inr t2" "wf t2"
      "\<And>q. ok q \<Longrightarrow> producer t2 q = (if q = r \<and> producer t1 r = Some g then None else producer t1 q)"
    using release_returns [OF t1(2) assms(2), of g] by blast
  with t1 assms show ?thesis by auto
qed

end

text \<open>The interface's view of the model: a register is a pair of index and bank.\<close>

definition rat_reg_ok :: "int \<times> bool \<Rightarrow> bool" where
  "rat_reg_ok r \<longleftrightarrow> rat_index_ok (fst r) (snd r)"

definition rat_reg_fixed :: "int \<times> bool \<Rightarrow> bool" where
  "rat_reg_fixed r \<longleftrightarrow> fst r = 0 \<and> \<not> snd r"

lemma rat_producer_map:
  assumes "rat_wf t" and "rat_index_ok r fp"
  shows "\<exists>t'. rat_map r fp g t = Inr t' \<and> rat_wf t' \<and>
     (\<forall>q b. rat_index_ok q b \<longrightarrow> rat_producer t' q b
        = (if q = r \<and> b = fp \<and> \<not> (r = 0 \<and> \<not> fp) then Some g else rat_producer t q b))"
proof -
  obtain t' where t': "rat_map r fp g t = Inr t'"
    using assms by (cases "rat_map r fp g t") (auto simp: rat_map_def split: if_splits)
  have "rat_producer t' q b = (if q = r \<and> b = fp \<and> \<not> (r = 0 \<and> \<not> fp) then Some g
      else rat_producer t q b)" if "rat_index_ok q b" for q b
    using that assms t'
    by (auto simp: rat_wf_def rat_ops rat_producer_def nth_list_update split: if_splits)
  with t' rat_map_wf [OF assms(1) t'] show ?thesis by blast
qed

lemma rat_producer_commit:
  assumes "rat_wf t" and "rat_index_ok r fp"
  shows "\<exists>t'. rat_commit r fp g t = Inr t' \<and> rat_wf t' \<and>
     (\<forall>q b. rat_index_ok q b \<longrightarrow> rat_producer t' q b
        = (if q = r \<and> b = fp \<and> rat_producer t r fp = Some g then None else rat_producer t q b))"
proof -
  obtain t' where t': "rat_commit r fp g t = Inr t'"
    using assms
    by (cases "rat_commit r fp g t") (auto simp: rat_commit_def rat_lookup_def split: if_splits)
  have "rat_producer t' q b = (if q = r \<and> b = fp \<and> rat_producer t r fp = Some g then None
      else rat_producer t q b)" if "rat_index_ok q b" for q b
    using that assms t'
    by (auto simp: rat_wf_def rat_ops rat_producer_def nth_list_update empty_rat_entry_def
        split: if_splits)
  with t' rat_commit_wf [OF assms(1) t'] show ?thesis by blast
qed

lemma rat_producer_flush: "rat_producer (rat_flush t) q b = None"
  by (auto simp: rat_producer_def rat_lookup_def rat_index_ok_def rat_flush_def
      empty_rat_entry_def res_assert_def split: if_splits)

interpretation rat_table: rename_table rat_wf rat_reg_ok rat_reg_fixed
  "\<lambda>t r. rat_producer t (fst r) (snd r)" "\<lambda>r. rat_map (fst r) (snd r)"
  "\<lambda>r. rat_commit (fst r) (snd r)" rat_flush
proof (unfold_locales, goal_cases)
  case (1 t r g)
  then show ?case
    using rat_producer_map [of t "fst r" "snd r" g]
    by (auto simp: rat_reg_ok_def rat_reg_fixed_def prod_eq_iff)
next
  case (2 t r g)
  then show ?case
    using rat_producer_commit [of t "fst r" "snd r" g]
    by (auto simp: rat_reg_ok_def prod_eq_iff)
next
  case (3 t)
  then show ?case
    by (simp add: rat_flush_wf rat_producer_flush)
qed

section \<open>Properties\<close>

text \<open>A register renamed twice keeps its younger producer when the older one commits, so a
  later instruction never reads a stale value from the register file.\<close>

theorem rat_younger_producer_survives:
  assumes "rat_wf t" and "rat_index_ok r fp" and "r \<noteq> 0 \<or> fp" and "g \<noteq> g'"
  shows "returns (res_bind (rat_map r fp g t) (\<lambda>t1. res_bind (rat_map r fp g' t1)
           (rat_commit r fp g))) (\<lambda>t'. rat_wf t' \<and> rat_producer t' r fp = Some g')"
  using rat_table.younger_mapping_survives [of t "(r, fp)" g g'] assms
  by (simp add: rat_reg_ok_def rat_reg_fixed_def)

theorem rat_younger_producer_survives_witness:
  "returns (res_bind (rat_map 5 False 0 init_rat) (\<lambda>t1. res_bind (rat_map 5 False 1 t1)
     (rat_commit 5 False 0))) (\<lambda>t'. rat_wf t' \<and> rat_producer t' 5 False = Some 1)"
  using rat_younger_producer_survives [of init_rat 5 False 0 1] init_rat_wf
  by (simp add: rat_index_ok_def)

text \<open>Renaming a free register and committing that producer restores every entry of the table:
  the renaming round trip leaves no trace.\<close>

theorem rat_map_commit_roundtrip:
  assumes "rat_wf t" and "rat_index_ok r fp" and "rat_producer t r fp = None"
  shows "returns (res_bind (rat_map r fp g t) (rat_commit r fp g))
           (\<lambda>t'. rat_wf t' \<and> (\<forall>q b. rat_index_ok q b \<longrightarrow> rat_producer t' q b = rat_producer t q b))"
  using rat_table.assign_release [of t "(r, fp)" g] assms
  by (simp add: rat_reg_ok_def)

theorem rat_map_commit_roundtrip_witness:
  "returns (res_bind (rat_map 9 True 3 init_rat) (rat_commit 9 True 3))
     (\<lambda>t'. rat_wf t' \<and> (\<forall>q b. rat_index_ok q b \<longrightarrow> rat_producer t' q b = rat_producer init_rat q b))"
proof (rule rat_map_commit_roundtrip)
  show "rat_producer init_rat 9 True = None"
    by (simp add: init_rat_def rat_producer_flush)
qed (simp_all add: init_rat_wf rat_index_ok_def)

end
