(* ===== verification/Ring.thy ===== *)
theory Ring
  imports Prelude
begin

text \<open>
  Circular buffers. The reorder buffer and the load/store buffer of the source share one layout:
  an array, a head index and an occupancy count, with every index taken modulo the size. This
  theory states once how the array operations act on the list of the occupied slots in order of
  age (\<open>ring_list\<close>), and gives the contract of such a buffer as a locale: entries leave in the
  order they entered, whatever in-place updates happen in between. The two components interpret
  the locale on their own operations.
\<close>

section \<open>The occupied slots, oldest first\<close>

definition ring_list :: "'e list \<Rightarrow> nat \<Rightarrow> nat \<Rightarrow> 'e list" where
  "ring_list es h n = map (\<lambda>i. es ! ((h + i) mod length es)) [0..<n]"

lemma length_ring_list [simp]: "length (ring_list es h n) = n"
  by (simp add: ring_list_def)

lemma nth_ring_list [simp]: "i < n \<Longrightarrow> ring_list es h n ! i = es ! ((h + i) mod length es)"
  by (simp add: ring_list_def)

lemma ring_list_0 [simp]: "ring_list es h 0 = []"
  by (simp add: ring_list_def)

lemma ring_list_eq_Nil [simp]: "ring_list es h n = [] \<longleftrightarrow> n = 0"
  by (simp add: ring_list_def)

text \<open>Distances below the size give distinct slots.\<close>

lemma ring_index_inject:
  fixes h i j n :: nat
  assumes "i < n" and "j < n"
  shows "(h + i) mod n = (h + j) mod n \<longleftrightarrow> i = j"
proof
  assume eq: "(h + i) mod n = (h + j) mod n"
  show "i = j"
  proof (rule ccontr)
    assume "i \<noteq> j"
    then consider "i < j" | "j < i" by linarith
    then show False
    proof cases
      case 1
      with eq have "n dvd (h + j) - (h + i)"
        by (metis mod_eq_dvd_iff_nat add_le_cancel_left less_or_eq_imp_le)
      with 1 assms show False
        by (auto dest: dvd_imp_le)
    next
      case 2
      with eq have "n dvd (h + i) - (h + j)"
        by (metis mod_eq_dvd_iff_nat add_le_cancel_left less_or_eq_imp_le)
      with 2 assms show False
        by (auto dest: dvd_imp_le)
    qed
  qed
qed simp

lemma ring_list_update:
  assumes "k < n" and "n \<le> length es"
  shows "ring_list (es[(h + k) mod length es := x]) h n = (ring_list es h n)[k := x]"
proof (rule nth_equalityI)
  show "length (ring_list (es[(h + k) mod length es := x]) h n)
      = length ((ring_list es h n)[k := x])"
    by simp
next
  fix i assume "i < length (ring_list (es[(h + k) mod length es := x]) h n)"
  then have i: "i < n" by simp
  have "es \<noteq> []" using assms by auto
  then show "ring_list (es[(h + k) mod length es := x]) h n ! i = (ring_list es h n)[k := x] ! i"
    using i assms ring_index_inject [of i "length es" k h]
    by (auto simp: nth_list_update)
qed

lemma ring_list_push:
  assumes "n < length es"
  shows "ring_list (es[(h + n) mod length es := x]) h (Suc n) = ring_list es h n @ [x]"
proof -
  have "ring_list (es[(h + n) mod length es := x]) h (Suc n) = (ring_list es h (Suc n))[n := x]"
    using assms by (intro ring_list_update) auto
  also have "\<dots> = ring_list es h n @ [x]"
    by (simp add: ring_list_def list_update_append)
  finally show ?thesis .
qed

lemma ring_list_Suc:
  assumes "es \<noteq> []" and "h < length es"
  shows "ring_list es h (Suc n) = es ! h # ring_list es (Suc h mod length es) n"
proof -
  have "map (\<lambda>i. es ! ((h + i) mod length es)) (map Suc [0..<n])
      = ring_list es (Suc h mod length es) n"
    by (simp add: ring_list_def mod_simps)
  moreover have "[0..<Suc n] = 0 # map Suc [0..<n]"
    by (simp add: upt_conv_Cons map_Suc_upt)
  ultimately show ?thesis
    using assms by (simp add: ring_list_def del: upt_Suc)
qed

lemma ring_list_pop:
  assumes "h < length es" and "n < length es"
  shows "ring_list (es[h := x]) (Suc h mod length es) n = ring_list es (Suc h mod length es) n"
proof (rule nth_equalityI)
  fix i assume "i < length (ring_list (es[h := x]) (Suc h mod length es) n)"
  then have i: "i < n" by simp
  have "(h + Suc i) mod length es \<noteq> (h + 0) mod length es"
    using i assms by (subst ring_index_inject) auto
  then show "ring_list (es[h := x]) (Suc h mod length es) n ! i
      = ring_list es (Suc h mod length es) n ! i"
    using i assms by (simp add: mod_simps nth_list_update)
qed simp

text \<open>An update in place keeps whatever does not depend on what it changes.\<close>

lemma map_ring_list_update:
  assumes "g x = g (es ! p)"
  shows "map g (ring_list (es[p := x]) h n) = map g (ring_list es h n)"
proof -
  have "g (es[p := x] ! q) = g (es ! q)" for q
  proof (cases "p < length es")
    case True
    then show ?thesis using assms by (simp add: nth_list_update)
  next
    case False
    then show ?thesis by (simp add: list_update_beyond)
  qed
  then show ?thesis by (simp add: ring_list_def)
qed

section \<open>Loops over the occupied slots\<close>

text \<open>
  \<open>for (i = 0; i < count; ++i) entries[phys(i)] = f(entries[phys(i)])\<close> maps \<open>f\<close> over the
  occupied slots, and leaves the size and the head alone.
\<close>

definition ring_map :: "('e \<Rightarrow> 'e) \<Rightarrow> nat \<Rightarrow> nat \<Rightarrow> 'e list \<Rightarrow> 'e list" where
  "ring_map f h n es =
     fold (\<lambda>i xs. xs[(h + i) mod length es := f (xs ! ((h + i) mod length es))]) [0..<n] es"

lemma length_fold_update:
  "(\<And>i xs. length (g i xs) = length xs) \<Longrightarrow> length (fold g is xs) = length xs"
  by (induction "is" arbitrary: xs) simp_all

lemma length_ring_map [simp]: "length (ring_map f h n es) = length es"
  by (simp add: ring_map_def length_fold_update)

lemma ring_map_Suc:
  "ring_map f h (Suc n) es = (let xs = ring_map f h n es; p = (h + n) mod length es
     in xs[p := f (xs ! p)])"
  by (simp add: ring_map_def Let_def)

lemma ring_list_ring_map_aux:
  assumes "m \<le> n" and "n \<le> length es"
  shows "ring_list (ring_map f h m es) h n
       = map f (take m (ring_list es h n)) @ drop m (ring_list es h n)"
  using assms(1)
proof (induction m)
  case 0
  then show ?case by (simp add: ring_map_def)
next
  case (Suc m)
  let ?L = "ring_list es h n" and ?es = "ring_map f h m es"
  have m: "m < n" and n: "n \<le> length ?es" using Suc.prems assms by auto
  have p: "?es ! ((h + m) mod length es) = ring_list ?es h n ! m"
    using m by simp
  have at: "ring_list ?es h n ! m = ?L ! m"
    using Suc m by (simp add: nth_append)
  have "ring_list (ring_map f h (Suc m) es) h n = (ring_list ?es h n)[m := f (?L ! m)]"
    using ring_list_update [OF m n, of h "f (?L ! m)"] p at
    by (simp add: ring_map_Suc Let_def)
  also have "\<dots> = (map f (take m ?L) @ drop m ?L)[m := f (?L ! m)]"
    using Suc m by simp
  also have "drop m ?L = ?L ! m # drop (Suc m) ?L"
    using m by (simp only: Cons_nth_drop_Suc length_ring_list)
  also have "(map f (take m ?L) @ ?L ! m # drop (Suc m) ?L)[m := f (?L ! m)]
      = map f (take (Suc m) ?L) @ drop (Suc m) ?L"
    using m by (simp add: list_update_append take_Suc_conv_app_nth)
  finally show ?case .
qed

lemma ring_list_ring_map [simp]:
  assumes "n \<le> length es"
  shows "ring_list (ring_map f h n es) h n = map f (ring_list es h n)"
  using ring_list_ring_map_aux [OF order_refl assms] by simp

section \<open>The contract of a first-in first-out buffer\<close>

text \<open>
  A history of a buffer: insertions (ignored when the buffer is full, as its callers do),
  removals, and in-place updates. The run collects the keys of the accepted insertions and the
  removed entries, in order.
\<close>

datatype ('i, 'u) fifo_event = Enq 'i | Deq | Upd 'u

fun fifo_run ::
    "('q \<Rightarrow> bool) \<Rightarrow> ('i \<Rightarrow> 'q \<Rightarrow> 'q res) \<Rightarrow> ('q \<Rightarrow> ('e \<times> 'q) res) \<Rightarrow> ('u \<Rightarrow> 'q \<Rightarrow> 'q res)
     \<Rightarrow> ('i, 'u) fifo_event list \<Rightarrow> 'q \<Rightarrow> ('i list \<times> 'e list \<times> 'q) res" where
  "fifo_run is_full enq deq upd [] q = Inr ([], [], q)"
| "fifo_run is_full enq deq upd (Enq x # evs) q =
     (if is_full q then fifo_run is_full enq deq upd evs q
      else res_bind (enq x q) (\<lambda>q'.
        res_bind (fifo_run is_full enq deq upd evs q') (\<lambda>(ins, outs, q'').
          Inr (x # ins, outs, q''))))"
| "fifo_run is_full enq deq upd (Deq # evs) q =
     res_bind (deq q) (\<lambda>(e, q').
       res_bind (fifo_run is_full enq deq upd evs q') (\<lambda>(ins, outs, q'').
         Inr (ins, e # outs, q'')))"
| "fifo_run is_full enq deq upd (Upd u # evs) q =
     res_bind (upd u q) (\<lambda>q'. fifo_run is_full enq deq upd evs q')"

locale fifo_buffer =
  fixes wf :: "'q \<Rightarrow> bool"
    and contents :: "'q \<Rightarrow> 'e list"
    and capacity :: "'q \<Rightarrow> nat"
    and is_full :: "'q \<Rightarrow> bool"
    and is_empty :: "'q \<Rightarrow> bool"
    and clear :: "'q \<Rightarrow> 'q"
  assumes contents_bound: "wf q \<Longrightarrow> length (contents q) \<le> capacity q"
    and full_iff: "wf q \<Longrightarrow> is_full q \<longleftrightarrow> length (contents q) = capacity q"
    and empty_iff: "wf q \<Longrightarrow> is_empty q \<longleftrightarrow> contents q = []"
    and clear_wf: "wf q \<Longrightarrow> wf (clear q)"
    and clear_contents: "wf q \<Longrightarrow> contents (clear q) = []"
    and clear_capacity: "wf q \<Longrightarrow> capacity (clear q) = capacity q"

locale fifo_queue = fifo_buffer +
  fixes enq :: "'i \<Rightarrow> 'a \<Rightarrow> 'a res"
    and deq :: "'a \<Rightarrow> ('b \<times> 'a) res"
    and upd :: "'u \<Rightarrow> 'a \<Rightarrow> 'a res"
    and ikey :: "'i \<Rightarrow> 'k"
    and key :: "'b \<Rightarrow> 'k"
  assumes enq_keeps: "wf q \<Longrightarrow> \<not> is_full q \<Longrightarrow> enq x q = Inr q' \<Longrightarrow>
            wf q' \<and> capacity q' = capacity q \<and>
            (\<exists>e. contents q' = contents q @ [e] \<and> key e = ikey x)"
    and deq_keeps: "wf q \<Longrightarrow> deq q = Inr (e, q') \<Longrightarrow>
            wf q' \<and> capacity q' = capacity q \<and> contents q = e # contents q'"
    and upd_keeps: "wf q \<Longrightarrow> upd u q = Inr q' \<Longrightarrow>
            wf q' \<and> capacity q' = capacity q \<and> map key (contents q') = map key (contents q)"
begin

text \<open>Whatever the history, the well-formedness and the capacity stay, and the keys that left,
  followed by those still inside, are the keys that were inside followed by those that entered.\<close>

lemma run_in_order:
  assumes "wf q" and "fifo_run is_full enq deq upd evs q = Inr (ins, outs, q')"
  shows "wf q' \<and> capacity q' = capacity q \<and>
         map key (contents q) @ map ikey ins = map key outs @ map key (contents q')"
  using assms
proof (induction evs arbitrary: q ins outs)
  case Nil
  then show ?case by auto
next
  case (Cons ev evs)
  show ?case
  proof (cases ev)
    case (Enq x)
    show ?thesis
    proof (cases "is_full q")
      case True
      with Cons Enq show ?thesis by simp
    next
      case False
      with Cons.prems Enq obtain q1 ins1 where 1: "enq x q = Inr q1"
        and run: "fifo_run is_full enq deq upd evs q1 = Inr (ins1, outs, q')"
        and "ins = x # ins1"
        by auto
      with False Cons.prems(1) Cons.IH [OF _ run] enq_keeps [OF _ _ 1] show ?thesis
        by fastforce
    qed
  next
    case Deq
    with Cons.prems obtain e q1 outs1 where 1: "deq q = Inr (e, q1)"
      and run: "fifo_run is_full enq deq upd evs q1 = Inr (ins, outs1, q')"
      and "outs = e # outs1"
      by auto
    with Cons.prems(1) Cons.IH [OF _ run] deq_keeps [OF _ 1] show ?thesis
      by fastforce
  next
    case (Upd u)
    with Cons.prems obtain q1 where 1: "upd u q = Inr q1"
      and run: "fifo_run is_full enq deq upd evs q1 = Inr (ins, outs, q')"
      by auto
    with Cons.prems(1) Cons.IH [OF _ run] upd_keeps [OF _ 1] show ?thesis
      by fastforce
  qed
qed

text \<open>From the empty buffer: first in, first out.\<close>

lemma run_from_empty:
  assumes "wf q" and "is_empty q"
    and "fifo_run is_full enq deq upd evs q = Inr (ins, outs, q')"
  shows "map key outs = take (length outs) (map ikey ins)"
  using run_in_order [OF assms(1,3)] assms(1,2) empty_iff [OF assms(1)]
  by (metis append_Nil append_eq_conv_conj length_map list.map_disc_iff)

lemma run_occupancy:
  assumes "wf q" and "is_empty q"
    and "fifo_run is_full enq deq upd evs q = Inr (ins, outs, q')"
  shows "length ins \<le> length outs + capacity q"
  using run_in_order [OF assms(1,3)] contents_bound [of q'] assms(1,2) empty_iff [OF assms(1)]
  by (metis (no_types, lifting) add_left_mono append_Nil length_append length_map list.map_disc_iff)

end

end
