(* ===== verification/Rob.thy ===== *)
theory Rob
  imports Instruction Ring
begin

text \<open>
  \<open>reorder_buffer.h\<close>, \<open>reorder_buffer.cpp\<close>: the circular reorder buffer. Its abstract view is
  the list of live entries in program order (\<open>rob_list\<close>); the tag of an entry is its array
  index. The interpretation of \<open>fifo_queue\<close> at the end shows that entries retire in the order
  they were allocated.
\<close>

section \<open>State and operations\<close>

datatype rob_state = ROB_IDLE | ROB_IN_FLIGHT | ROB_DONE

record rob_entry =
  r_state :: rob_state
  r_op :: opcode
  r_rd :: int
  r_rd_fp :: bool
  r_result :: u32
  r_pc :: u32

definition empty_rob_entry :: rob_entry where
  "empty_rob_entry = \<lparr>r_state = ROB_IDLE, r_op = Op_NOP, r_rd = -1, r_rd_fp = False,
     r_result = 0, r_pc = 0\<rparr>"

record rob =
  rob_size :: nat
  rob_head :: nat
  rob_tail :: nat
  rob_count :: nat
  rob_entries :: "rob_entry list"

definition new_rob :: "int \<Rightarrow> rob res" where
  "new_rob sz = res_bind (res_assert (1 \<le> sz) Assert_rob_size)
     (\<lambda>_. Inr \<lparr>rob_size = nat sz, rob_head = 0, rob_tail = 0, rob_count = 0,
               rob_entries = replicate (nat sz) empty_rob_entry\<rparr>)"

definition rob_full :: "rob \<Rightarrow> bool" where
  "rob_full b \<longleftrightarrow> rob_count b = rob_size b"

definition rob_empty :: "rob \<Rightarrow> bool" where
  "rob_empty b \<longleftrightarrow> rob_count b = 0"

definition rob_allocate :: "instruction \<Rightarrow> rob \<Rightarrow> int \<times> rob" where
  "rob_allocate instr b =
     (if rob_full b then (-1, b)
      else let tag = rob_tail b;
               e = \<lparr>r_state = ROB_IN_FLIGHT, r_op = in_op instr, r_rd = in_rd instr,
                    r_rd_fp = in_rd_fp instr, r_result = 0, r_pc = in_pc instr\<rparr>
           in (int tag, b\<lparr>rob_entries := (rob_entries b)[tag := e],
                          rob_tail := (rob_tail b + 1) mod rob_size b,
                          rob_count := rob_count b + 1\<rparr>))"

definition rob_peek :: "int \<Rightarrow> rob \<Rightarrow> rob_entry res" where
  "rob_peek tag b = res_bind (res_assert (0 \<le> tag \<and> tag < int (rob_size b)) Assert_rob_tag)
     (\<lambda>_. Inr (rob_entries b ! nat tag))"

definition rob_write_result :: "int \<Rightarrow> u32 \<Rightarrow> rob \<Rightarrow> rob res" where
  "rob_write_result tag result b =
     res_bind (res_assert (0 \<le> tag \<and> tag < int (rob_size b)) Assert_rob_tag) (\<lambda>_.
     res_bind (res_assert (r_state (rob_entries b ! nat tag) = ROB_IN_FLIGHT) Assert_rob_in_flight)
     (\<lambda>_. Inr (b\<lparr>rob_entries := (rob_entries b)[nat tag :=
            (rob_entries b ! nat tag)\<lparr>r_result := result, r_state := ROB_DONE\<rparr>]\<rparr>)))"

definition rob_head_ready :: "rob \<Rightarrow> bool" where
  "rob_head_ready b \<longleftrightarrow> \<not> rob_empty b \<and> r_state (rob_entries b ! rob_head b) = ROB_DONE"

definition rob_commit :: "rob \<Rightarrow> (rob_entry \<times> rob) res" where
  "rob_commit b = res_bind (res_assert (rob_head_ready b) Assert_rob_head_ready)
     (\<lambda>_. Inr (rob_entries b ! rob_head b,
               b\<lparr>rob_entries := (rob_entries b)[rob_head b := empty_rob_entry],
                 rob_head := (rob_head b + 1) mod rob_size b,
                 rob_count := rob_count b - 1\<rparr>))"

definition rob_head_tag :: "rob \<Rightarrow> int res" where
  "rob_head_tag b = res_bind (res_assert (\<not> rob_empty b) Assert_rob_nonempty)
     (\<lambda>_. Inr (int (rob_head b)))"

definition rob_flush :: "rob \<Rightarrow> rob" where
  "rob_flush b = b\<lparr>rob_entries := replicate (rob_size b) empty_rob_entry,
                   rob_head := 0, rob_tail := 0, rob_count := 0\<rparr>"

lemmas rob_ops [opdefs] = rob_full_def rob_empty_def rob_allocate_def rob_peek_def
  rob_write_result_def rob_head_ready_def rob_commit_def rob_head_tag_def rob_flush_def

section \<open>Well-formedness and the abstract view\<close>

definition rob_wf :: "rob \<Rightarrow> bool" where
  "rob_wf b \<longleftrightarrow> 0 < rob_size b \<and> length (rob_entries b) = rob_size b \<and>
     rob_head b < rob_size b \<and> rob_count b \<le> rob_size b \<and>
     rob_tail b = (rob_head b + rob_count b) mod rob_size b"

definition rob_list :: "rob \<Rightarrow> rob_entry list" where
  "rob_list b = ring_list (rob_entries b) (rob_head b) (rob_count b)"

text \<open>The tag of the \<open>k\<close>-th oldest entry.\<close>

definition rob_tag_of :: "rob \<Rightarrow> nat \<Rightarrow> int" where
  "rob_tag_of b k = int ((rob_head b + k) mod rob_size b)"

lemma new_rob_wf: "new_rob n = Inr b \<Longrightarrow> rob_wf b \<and> rob_list b = [] \<and> rob_size b = nat n"
  by (auto simp: new_rob_def rob_wf_def rob_list_def)

lemma length_rob_list [simp]: "length (rob_list b) = rob_count b"
  by (simp add: rob_list_def)

lemma rob_tag_of_bounds:
  "rob_wf b \<Longrightarrow> 0 \<le> rob_tag_of b k \<and> rob_tag_of b k < int (rob_size b)"
  by (auto simp: rob_wf_def rob_tag_of_def)

lemma rob_tag_of_inject:
  "rob_wf b \<Longrightarrow> i < rob_size b \<Longrightarrow> j < rob_size b \<Longrightarrow> rob_tag_of b i = rob_tag_of b j \<longleftrightarrow> i = j"
  by (simp add: rob_tag_of_def rob_wf_def ring_index_inject)

lemma rob_entry_at:
  "rob_wf b \<Longrightarrow> k < rob_count b \<Longrightarrow> rob_entries b ! nat (rob_tag_of b k) = rob_list b ! k"
  by (simp add: rob_wf_def rob_tag_of_def rob_list_def nat_int)

lemma rob_peek_tag_of:
  "rob_wf b \<Longrightarrow> k < rob_count b \<Longrightarrow> rob_peek (rob_tag_of b k) b = Inr (rob_list b ! k)"
  by (simp add: rob_peek_def rob_tag_of_bounds rob_entry_at)

subsection \<open>Allocation\<close>

text \<open>The entry an instruction starts with.\<close>

definition fresh_rob_entry :: "instruction \<Rightarrow> rob_entry" where
  "fresh_rob_entry i = \<lparr>r_state = ROB_IN_FLIGHT, r_op = in_op i, r_rd = in_rd i,
     r_rd_fp = in_rd_fp i, r_result = 0, r_pc = in_pc i\<rparr>"

lemma rob_allocate_full: "rob_full b \<Longrightarrow> rob_allocate i b = (-1, b)"
  by (simp add: rob_allocate_def)

lemma rob_allocate_not_full:
  assumes "rob_wf b" and "\<not> rob_full b"
  obtains b' where "rob_allocate i b = (rob_tag_of b (rob_count b), b')" and "rob_wf b'"
    and "rob_list b' = rob_list b @ [fresh_rob_entry i]" and "rob_size b' = rob_size b"
    and "rob_head b' = rob_head b" and "rob_count b' = Suc (rob_count b)"
proof
  let ?b = "snd (rob_allocate i b)"
  have c: "rob_count b < length (rob_entries b)"
    using assms by (simp add: rob_wf_def rob_full_def)
  have t: "rob_tail b = (rob_head b + rob_count b) mod length (rob_entries b)"
    using assms by (simp add: rob_wf_def)
  show "rob_allocate i b = (rob_tag_of b (rob_count b), ?b)"
    using assms by (simp add: rob_allocate_def Let_def rob_tag_of_def rob_wf_def)
  show "rob_wf ?b"
    using assms by (auto simp: rob_allocate_def Let_def rob_wf_def rob_full_def mod_simps)
  show "rob_list ?b = rob_list b @ [fresh_rob_entry i]"
    using ring_list_push [OF c, of "rob_head b" "fresh_rob_entry i"] t assms
    by (simp add: rob_allocate_def Let_def rob_list_def fresh_rob_entry_def)
qed (use assms in \<open>simp_all add: rob_allocate_def Let_def\<close>)

subsection \<open>Writing a result\<close>

definition complete_entry :: "u32 \<Rightarrow> rob_entry \<Rightarrow> rob_entry" where
  "complete_entry v e = e\<lparr>r_result := v, r_state := ROB_DONE\<rparr>"

lemma rob_write_result_tag_of:
  assumes "rob_wf b" and "k < rob_count b" and "r_state (rob_list b ! k) = ROB_IN_FLIGHT"
  obtains b' where "rob_write_result (rob_tag_of b k) v b = Inr b'" and "rob_wf b'"
    and "rob_list b' = (rob_list b)[k := complete_entry v (rob_list b ! k)]"
    and "rob_size b' = rob_size b" and "rob_head b' = rob_head b" and "rob_count b' = rob_count b"
proof
  let ?e = "complete_entry v (rob_list b ! k)"
  let ?b = "b\<lparr>rob_entries := (rob_entries b)[nat (rob_tag_of b k) := ?e]\<rparr>"
  show "rob_write_result (rob_tag_of b k) v b = Inr ?b"
    using assms by (simp add: rob_write_result_def rob_tag_of_bounds rob_entry_at complete_entry_def)
  show "rob_wf ?b" using assms by (simp add: rob_wf_def)
  show "rob_list ?b = (rob_list b)[k := ?e]"
    using assms ring_list_update [of k "rob_count b" "rob_entries b" "rob_head b" ?e]
    by (simp add: rob_list_def rob_tag_of_def rob_wf_def nat_int)
qed simp_all

subsection \<open>Commit\<close>

lemma rob_head_ready_iff:
  assumes "rob_wf b"
  shows "rob_head_ready b \<longleftrightarrow> (\<exists>e es. rob_list b = e # es \<and> r_state e = ROB_DONE)"
proof (cases "rob_count b")
  case 0
  then show ?thesis
    by (simp add: rob_head_ready_def rob_empty_def rob_list_def)
next
  case (Suc n)
  moreover have "rob_entries b \<noteq> []" using assms by (auto simp: rob_wf_def)
  ultimately have "rob_list b = rob_entries b ! rob_head b
      # ring_list (rob_entries b) (Suc (rob_head b) mod length (rob_entries b)) n"
    using assms ring_list_Suc [of "rob_entries b" "rob_head b" n]
    by (simp add: rob_list_def rob_wf_def)
  then show ?thesis using Suc by (auto simp: rob_head_ready_def rob_empty_def)
qed

lemma rob_commit_ready:
  assumes "rob_wf b" and "rob_list b = e # es" and "r_state e = ROB_DONE"
  obtains b' where "rob_commit b = Inr (e, b')" and "rob_wf b'" and "rob_list b' = es"
    and "rob_size b' = rob_size b" and "rob_count b' = rob_count b - 1"
    and "rob_head_tag b = Inr (rob_tag_of b 0)"
    and "\<And>k. rob_tag_of b' k = rob_tag_of b (Suc k)"
proof
  obtain n where n: "rob_count b = Suc n"
    using assms(2) length_rob_list [of b] by (metis length_Cons)
  have ne: "rob_entries b \<noteq> []" and h: "rob_head b < length (rob_entries b)"
    and c: "n < length (rob_entries b)"
    using assms(1) n by (auto simp: rob_wf_def)
  have l: "e = rob_entries b ! rob_head b"
      "es = ring_list (rob_entries b) (Suc (rob_head b) mod length (rob_entries b)) n"
    using assms(2) ring_list_Suc [OF ne h, of n] n by (auto simp: rob_list_def)
  have hd: "rob_head_ready b"
    using assms by (auto simp: rob_head_ready_iff)
  let ?b = "b\<lparr>rob_entries := (rob_entries b)[rob_head b := empty_rob_entry],
      rob_head := (rob_head b + 1) mod rob_size b, rob_count := rob_count b - 1\<rparr>"
  show "rob_commit b = Inr (e, ?b)"
    using hd l by (simp add: rob_commit_def)
  show "rob_wf ?b"
    using assms(1) n by (auto simp: rob_wf_def mod_simps)
  show "rob_list ?b = es"
    using ring_list_pop [OF h c, of empty_rob_entry] l n assms(1)
    by (simp add: rob_list_def rob_wf_def)
  show "rob_head_tag b = Inr (rob_tag_of b 0)"
    using assms(1) n by (simp add: rob_head_tag_def rob_empty_def rob_tag_of_def rob_wf_def)
  show "rob_tag_of ?b k = rob_tag_of b (Suc k)" for k
    by (simp add: rob_tag_of_def mod_simps)
qed simp_all

lemma rob_commit_not_ready: "\<not> rob_head_ready b \<Longrightarrow> rob_commit b = Inl Assert_rob_head_ready"
  by (simp add: rob_commit_def)

lemma rob_flush_wf: "rob_wf b \<Longrightarrow> rob_wf (rob_flush b) \<and> rob_list (rob_flush b) = []"
  by (auto simp: rob_flush_def rob_wf_def rob_list_def)

section \<open>In-order retirement\<close>

text \<open>What identifies an instruction in the buffer: nothing of it changes until it retires.\<close>

definition rob_key :: "rob_entry \<Rightarrow> opcode \<times> int \<times> bool \<times> u32" where
  "rob_key e = (r_op e, r_rd e, r_rd_fp e, r_pc e)"

definition instr_key :: "instruction \<Rightarrow> opcode \<times> int \<times> bool \<times> u32" where
  "instr_key i = (in_op i, in_rd i, in_rd_fp i, in_pc i)"

lemma rob_write_result_keeps:
  assumes "rob_wf b" and "rob_write_result t v b = Inr b'"
  shows "rob_wf b' \<and> rob_size b' = rob_size b \<and> map rob_key (rob_list b') = map rob_key (rob_list b)"
proof -
  let ?e = "rob_entries b ! nat t"
  have b': "b' = b\<lparr>rob_entries := (rob_entries b)[nat t := ?e\<lparr>r_result := v, r_state := ROB_DONE\<rparr>]\<rparr>"
    using assms(2) by (auto simp: rob_write_result_def)
  then have "rob_wf b'" "rob_size b' = rob_size b"
    using assms(1) by (simp_all add: rob_wf_def)
  moreover have "map rob_key (rob_list b') = map rob_key (rob_list b)"
    using b' by (simp add: rob_list_def map_ring_list_update rob_key_def)
  ultimately show ?thesis by simp
qed

interpretation rob_fifo: fifo_queue rob_wf rob_list rob_size rob_full rob_empty rob_flush
  "\<lambda>i b. Inr (snd (rob_allocate i b))" rob_commit "\<lambda>(t, v). rob_write_result t v"
  instr_key rob_key
proof (unfold_locales, goal_cases)
  case (1 q)
  then show ?case by (simp add: rob_wf_def)
next
  case (2 q)
  then show ?case by (simp add: rob_full_def)
next
  case (3 q)
  then show ?case by (simp add: rob_empty_def rob_list_def)
next
  case (4 q)
  then show ?case by (simp add: rob_flush_wf)
next
  case (5 q)
  then show ?case by (simp add: rob_flush_wf)
next
  case (6 q)
  then show ?case by (simp add: rob_flush_def)
next
  case (7 q x q')
  then obtain b' where "rob_allocate x q = (rob_tag_of q (rob_count q), b')" and "rob_wf b'"
    and "rob_list b' = rob_list q @ [fresh_rob_entry x]" and "rob_size b' = rob_size q"
    by (metis rob_allocate_not_full)
  with 7 show ?case by (auto simp: rob_key_def instr_key_def fresh_rob_entry_def)
next
  case (8 q e q')
  then have "rob_head_ready q" by (auto simp: rob_commit_def)
  then obtain e' es where l: "rob_list q = e' # es" "r_state e' = ROB_DONE"
    using 8 by (auto simp: rob_head_ready_iff)
  show ?case
    by (rule rob_commit_ready [OF 8(1) l]) (use 8(2) l in auto)
next
  case (9 q u q')
  then show ?case by (cases u) (simp add: rob_write_result_keeps)
qed

section \<open>Properties\<close>

text \<open>C8. Instructions retire from the reorder buffer in the order they were allocated, whatever
  the order in which their results were written, and at most \<open>rob_size\<close> of them are in the buffer
  at any time.\<close>

theorem rob_retires_in_program_order:
  assumes "rob_wf b" and "rob_empty b"
    and "fifo_run rob_full (\<lambda>i b. Inr (snd (rob_allocate i b))) rob_commit
           (\<lambda>(t, v). rob_write_result t v) evs b = Inr (ins, outs, b')"
  shows "rob_wf b' \<and> map rob_key outs = take (length outs) (map instr_key ins) \<and>
     length ins \<le> length outs + rob_size b"
  using rob_fifo.run_in_order [OF assms(1,3)] rob_fifo.run_from_empty [OF assms]
    rob_fifo.run_occupancy [OF assms] by simp

theorem rob_retires_in_program_order_witness:
  "let i = default_instruction; b = \<lparr>rob_size = 2, rob_head = 0, rob_tail = 0, rob_count = 0,
         rob_entries = replicate 2 empty_rob_entry\<rparr>;
       e = complete_entry 7 (fresh_rob_entry i) in
   rob_wf b \<and> (\<exists>b'. fifo_run rob_full (\<lambda>i b. Inr (snd (rob_allocate i b))) rob_commit
           (\<lambda>(t, v). rob_write_result t v) [Enq i, Enq (i\<lparr>in_pc := 4\<rparr>), Upd (1, 9), Upd (0, 7), Deq] b
         = Inr ([i, i\<lparr>in_pc := 4\<rparr>], [e], b') \<and> rob_wf b' \<and> map rob_key [e] = [instr_key i])"
proof -
  let ?i = default_instruction
  let ?b = "\<lparr>rob_size = 2, rob_head = 0, rob_tail = 0, rob_count = 0,
         rob_entries = replicate 2 empty_rob_entry\<rparr>"
  let ?e = "complete_entry 7 (fresh_rob_entry ?i)"
  have wf: "rob_wf ?b" and em: "rob_empty ?b" by (simp_all add: rob_wf_def rob_empty_def)
  obtain b' where run: "fifo_run rob_full (\<lambda>i b. Inr (snd (rob_allocate i b))) rob_commit
      (\<lambda>(t, v). rob_write_result t v) [Enq ?i, Enq (?i\<lparr>in_pc := 4\<rparr>), Upd (1, 9), Upd (0, 7), Deq] ?b
    = Inr ([?i, ?i\<lparr>in_pc := 4\<rparr>], [?e], b')"
    by (simp add: rob_ops Let_def fresh_rob_entry_def complete_entry_def numeral_2_eq_2)
  show ?thesis
    using rob_retires_in_program_order [OF wf em run] run wf by auto
qed

end
