(* ===== verification/Dispatch_Utils.thy ===== *)
theory Dispatch_Utils
  imports Regfile Rat Rob
begin

text \<open>
  \<open>dispatch_utils.h\<close>: resolving a source register at dispatch. The two output parameters of the
  source are the pair returned; \<open>out_val\<close> is left as it was when the operand has to wait, so
  its old value is an argument.
\<close>

definition resolve_operand ::
    "int \<Rightarrow> bool \<Rightarrow> rat \<Rightarrow> regfile \<Rightarrow> rob \<Rightarrow> u32 \<Rightarrow> (u32 \<times> int) res" where
  "resolve_operand reg fp t rf b out_val =
     (if reg < 0 then Inr (0, -1)
      else res_bind (rat_lookup reg fp t) (\<lambda>re.
        if \<not> rat_valid re then
          (if fp then res_bind (read_fp reg rf) (\<lambda>v. Inr (float_to_bits v, -1))
           else res_bind (read_int reg rf) (\<lambda>v. Inr (v, -1)))
        else res_bind (rob_peek (rat_rob_tag re) b) (\<lambda>e.
          if r_state e = ROB_DONE then Inr (r_result e, -1)
          else Inr (out_val, rat_rob_tag re))))"

text \<open>The committed bits of a register, whichever bank it is in.\<close>

definition reg_bits :: "regfile \<Rightarrow> int \<Rightarrow> bool \<Rightarrow> u32" where
  "reg_bits rf reg fp =
     (if reg < 0 then 0 else if fp then float_to_bits (fp_regs rf ! nat reg)
      else int_regs rf ! nat reg)"

section \<open>The three sources of an operand\<close>

lemma resolve_unused: "reg < 0 \<Longrightarrow> resolve_operand reg fp t rf b v = Inr (0, -1)"
  by (simp add: resolve_operand_def)

lemma resolve_bad_index:
  "32 \<le> reg \<Longrightarrow> resolve_operand reg fp t rf b v = Inl Assert_reg_index"
  by (simp add: resolve_operand_def rat_lookup_def rat_index_ok_def)

lemma resolve_committed:
  assumes "rat_index_ok reg fp" and "rat_producer t reg fp = None"
  shows "resolve_operand reg fp t rf b v = Inr (reg_bits rf reg fp, -1)"
  using assms
  by (auto simp: resolve_operand_def rat_lookup_def rat_producer_def rat_index_ok_def reg_bits_def
      read_int_def read_fp_def split: if_splits)

lemma resolve_renamed:
  assumes "rat_index_ok reg fp" and "rat_producer t reg fp = Some (rob_tag_of b k)"
    and "rob_wf b" and "k < rob_count b"
  shows "resolve_operand reg fp t rf b v =
     (if r_state (rob_list b ! k) = ROB_DONE then Inr (r_result (rob_list b ! k), -1)
      else Inr (v, rob_tag_of b k))"
proof -
  obtain e where e: "rat_lookup reg fp t = Inr e" and v: "rat_valid e"
    and t: "rat_rob_tag e = rob_tag_of b k"
    using assms(1,2) by (elim rat_lookup_producer [of reg fp t]) (auto split: if_splits)
  then show ?thesis
    using assms by (auto simp: resolve_operand_def rat_index_ok_def rob_peek_tag_of)
qed

end
