(* ===== verification/Cdb.thy ===== *)
theory Cdb
  imports Prelude
begin

text \<open>
  \<open>common_data_bus.h\<close>, \<open>common_data_bus.cpp\<close>: the list of results broadcast in a cycle, and the
  contract of the units that snoop it. Reservation stations and the load/store buffer capture
  operands in the same way; the locale \<open>cdb_listener\<close> states that way once and derives what a
  whole bus does to an entry.
\<close>

section \<open>State and operations\<close>

record cdb_result =
  c_rob_tag :: int
  c_value :: u32

record cdb =
  cdb_pending :: "cdb_result list"

definition new_cdb :: cdb where
  "new_cdb = \<lparr>cdb_pending = []\<rparr>"

definition cdb_broadcast :: "int \<Rightarrow> u32 \<Rightarrow> cdb \<Rightarrow> cdb" where
  "cdb_broadcast tag v b = b\<lparr>cdb_pending := cdb_pending b @ [\<lparr>c_rob_tag = tag, c_value = v\<rparr>]\<rparr>"

definition cdb_has_results :: "cdb \<Rightarrow> bool" where
  "cdb_has_results b \<longleftrightarrow> cdb_pending b \<noteq> []"

definition cdb_results :: "cdb \<Rightarrow> cdb_result list" where
  "cdb_results b = cdb_pending b"

definition cdb_flush :: "cdb \<Rightarrow> cdb" where
  "cdb_flush b = b\<lparr>cdb_pending := []\<rparr>"

lemmas cdb_ops [opdefs] = cdb_broadcast_def cdb_has_results_def cdb_results_def cdb_flush_def

text \<open>The bus as a partial map from tags to values, the latest broadcast last.\<close>

definition cdb_value :: "cdb_result list \<Rightarrow> int \<Rightarrow> u32 option" where
  "cdb_value rs t = map_of (map (\<lambda>r. (c_rob_tag r, c_value r)) rs) t"

lemma cdb_value_Nil [simp]: "cdb_value [] t = None"
  by (simp add: cdb_value_def)

lemma cdb_value_Cons [simp]:
  "cdb_value (r # rs) t = (if t = c_rob_tag r then Some (c_value r) else cdb_value rs t)"
  by (simp add: cdb_value_def)

lemma cdb_value_append:
  "cdb_value (rs @ rs') t = (case cdb_value rs t of None \<Rightarrow> cdb_value rs' t | Some v \<Rightarrow> Some v)"
  by (induction rs) simp_all

lemma cdb_value_SomeD:
  "cdb_value rs t = Some v \<Longrightarrow> \<exists>r \<in> set rs. c_rob_tag r = t \<and> c_value r = v"
  by (induction rs) (auto split: if_splits)

lemma cdb_value_NoneD: "cdb_value rs t = None \<Longrightarrow> r \<in> set rs \<Longrightarrow> c_rob_tag r \<noteq> t"
  by (induction rs) (auto split: if_splits)

text \<open>Tags are array indices, so \<open>-1\<close>, the mark of a resolved operand, is never broadcast.\<close>

definition cdb_tags_ok :: "cdb_result list \<Rightarrow> bool" where
  "cdb_tags_ok rs \<longleftrightarrow> (\<forall>r \<in> set rs. 0 \<le> c_rob_tag r)"

lemma cdb_value_neg: "cdb_tags_ok rs \<Longrightarrow> cdb_value rs (-1) = None"
  by (induction rs) (auto simp: cdb_tags_ok_def)

section \<open>The contract of a listener\<close>

locale cdb_listener =
  fixes active :: "'e \<Rightarrow> bool"
    and qj :: "'e \<Rightarrow> int" and qk :: "'e \<Rightarrow> int"
    and vj :: "'e \<Rightarrow> u32" and vk :: "'e \<Rightarrow> u32"
    and rest :: "'e \<Rightarrow> 'f"
    and capture :: "cdb_result \<Rightarrow> 'e \<Rightarrow> 'e"
  assumes inactive: "\<not> active e \<Longrightarrow> capture r e = e"
    and active: "active e \<Longrightarrow> active (capture r e)"
    and cap_rest: "rest (capture r e) = rest e"
    and cap_j: "active e \<Longrightarrow> qj (capture r e) = (if qj e = c_rob_tag r then -1 else qj e) \<and>
                 vj (capture r e) = (if qj e = c_rob_tag r then c_value r else vj e)"
    and cap_k: "active e \<Longrightarrow> qk (capture r e) = (if qk e = c_rob_tag r then -1 else qk e) \<and>
                 vk (capture r e) = (if qk e = c_rob_tag r then c_value r else vk e)"
begin

lemma fold_inactive: "\<not> active e \<Longrightarrow> fold capture rs e = e"
  by (induction rs) (simp_all add: inactive)

lemma fold_active: "active e \<Longrightarrow> active (fold capture rs e)"
  by (induction rs arbitrary: e) (simp_all add: active)

lemma fold_rest: "rest (fold capture rs e) = rest e"
  by (induction rs arbitrary: e) (simp_all add: cap_rest)

text \<open>A whole bus: an awaited tag on the bus resolves the operand to the value broadcast for it;
  an operand whose tag is not on the bus, or which is resolved already, is left alone.\<close>

lemma fold_j:
  assumes "active e" and "cdb_tags_ok rs"
  shows "qj (fold capture rs e) = (case cdb_value rs (qj e) of None \<Rightarrow> qj e | Some v \<Rightarrow> -1) \<and>
         vj (fold capture rs e) = (case cdb_value rs (qj e) of None \<Rightarrow> vj e | Some v \<Rightarrow> v)"
  using assms
proof (induction rs arbitrary: e)
  case (Cons r rs)
  then have ok: "cdb_tags_ok rs" "active (capture r e)"
    by (auto simp: cdb_tags_ok_def active)
  show ?case
    using Cons.IH [OF ok(2,1)] cap_j [OF Cons.prems(1), of r] cdb_value_neg [OF ok(1)]
    by (auto split: option.splits)
qed simp

lemma fold_k:
  assumes "active e" and "cdb_tags_ok rs"
  shows "qk (fold capture rs e) = (case cdb_value rs (qk e) of None \<Rightarrow> qk e | Some v \<Rightarrow> -1) \<and>
         vk (fold capture rs e) = (case cdb_value rs (qk e) of None \<Rightarrow> vk e | Some v \<Rightarrow> v)"
  using assms
proof (induction rs arbitrary: e)
  case (Cons r rs)
  then have ok: "cdb_tags_ok rs" "active (capture r e)"
    by (auto simp: cdb_tags_ok_def active)
  show ?case
    using Cons.IH [OF ok(2,1)] cap_k [OF Cons.prems(1), of r] cdb_value_neg [OF ok(1)]
    by (auto split: option.splits)
qed simp

end

text \<open>Broadcasting result by result to every entry is snooping the whole bus entry by entry.\<close>

lemma fold_map_swap: "fold (\<lambda>r es. map (f r) es) rs es = map (fold f rs) es"
  by (induction rs arbitrary: es) (simp_all add: comp_def)

end
