(* ===== verification/Reservation_Station.thy ===== *)
theory Reservation_Station
  imports Dispatch_Utils Cdb
begin

text \<open>
  \<open>reservation_station.h\<close>, \<open>reservation_station.cpp\<close>: the stations that hold dispatched
  instructions until their operands arrive, execute them and hand out the results. Signed
  arithmetic is the two's complement arithmetic of the machine (the source overflows signed
  integers, which C++ leaves undefined; \<open>execute_op_defined\<close> below says exactly when it does not).
\<close>

unbundle bit_operations_syntax

section \<open>State\<close>

record rs_entry =
  rs_busy :: bool
  rs_op :: opcode
  rs_rob_tag :: int
  rs_vj :: u32
  rs_vk :: u32
  rs_qj :: int
  rs_qk :: int
  rs_imm :: i32
  rs_rd_fp :: bool
  rs_done :: bool
  rs_cycles_rem :: int
  rs_result :: u32
  rs_pc :: u32

definition empty_rs_entry :: rs_entry where
  "empty_rs_entry = \<lparr>rs_busy = False, rs_op = Op_NOP, rs_rob_tag = -1, rs_vj = 0, rs_vk = 0,
     rs_qj = -1, rs_qk = -1, rs_imm = 0, rs_rd_fp = False, rs_done = False, rs_cycles_rem = 0,
     rs_result = 0, rs_pc = 0\<rparr>"

record station =
  st_size :: nat
  st_count :: int
  st_entries :: "rs_entry list"

definition new_station :: "nat \<Rightarrow> station" where
  "new_station n = \<lparr>st_size = n, st_count = 0, st_entries = replicate n empty_rs_entry\<rparr>"

section \<open>Execution\<close>

definition execute_op :: "fp_env \<Rightarrow> rs_entry \<Rightarrow> u32" where
  "execute_op fe e =
     (let sj = sint (rs_vj e); sk = sint (rs_vk e); uj = rs_vj e;
          fj = bits_to_float (rs_vj e); fk = bits_to_float (rs_vk e) in
      case rs_op e of
        Op_ADD \<Rightarrow> word_of_int (sj + sk)
      | Op_SUB \<Rightarrow> word_of_int (sj - sk)
      | Op_AND \<Rightarrow> uj AND rs_vk e
      | Op_OR \<Rightarrow> uj OR rs_vk e
      | Op_XOR \<Rightarrow> uj XOR rs_vk e
      | Op_SLL \<Rightarrow> push_bit (unat (rs_vk e AND 0x1F)) uj
      | Op_SRL \<Rightarrow> drop_bit (unat (rs_vk e AND 0x1F)) uj
      | Op_SRA \<Rightarrow> signed_drop_bit (unat (rs_vk e AND 0x1F)) uj
      | Op_ADDI \<Rightarrow> word_of_int (sj + sint (rs_imm e))
      | Op_LUI \<Rightarrow> push_bit 12 (rs_imm e)
      | Op_ANDI \<Rightarrow> uj AND rs_imm e
      | Op_ORI \<Rightarrow> uj OR rs_imm e
      | Op_XORI \<Rightarrow> uj XOR rs_imm e
      | Op_SLLI \<Rightarrow> push_bit (unat (rs_imm e AND 0x1F)) uj
      | Op_SRLI \<Rightarrow> drop_bit (unat (rs_imm e AND 0x1F)) uj
      | Op_LW \<Rightarrow> word_of_int (sj + sint (rs_imm e))
      | Op_FLW \<Rightarrow> word_of_int (sj + sint (rs_imm e))
      | Op_SW \<Rightarrow> word_of_int (sj + sint (rs_imm e))
      | Op_FSW \<Rightarrow> word_of_int (sj + sint (rs_imm e))
      | Op_BEQ \<Rightarrow> if sj = sk then rs_pc e + rs_imm e else rs_pc e + 4
      | Op_BNE \<Rightarrow> if sj \<noteq> sk then rs_pc e + rs_imm e else rs_pc e + 4
      | Op_BLT \<Rightarrow> if sj < sk then rs_pc e + rs_imm e else rs_pc e + 4
      | Op_BGE \<Rightarrow> if sj \<ge> sk then rs_pc e + rs_imm e else rs_pc e + 4
      | Op_JAL \<Rightarrow> rs_pc e + rs_imm e
      | Op_JALR \<Rightarrow> word_of_int (sj + sint (rs_imm e)) AND NOT 1
      | Op_FADD_S \<Rightarrow> float_to_bits (float_add fe fj fk)
      | Op_FSUB_S \<Rightarrow> float_to_bits (float_sub fe fj fk)
      | Op_FMUL_S \<Rightarrow> float_to_bits (float_mul fe fj fk)
      | Op_FDIV_S \<Rightarrow> float_to_bits (float_div fe fj fk)
      | Op_FCVT_W_S \<Rightarrow> int32_of_float fe fj
      | Op_FCVT_S_W \<Rightarrow> float_to_bits (float_of_int32 uj)
      | _ \<Rightarrow> 0)"

section \<open>Operations\<close>

definition rs_full :: "station \<Rightarrow> bool" where
  "rs_full s \<longleftrightarrow> st_count s = int (st_size s)"

definition rs_empty :: "station \<Rightarrow> bool" where
  "rs_empty s \<longleftrightarrow> st_count s = 0"

text \<open>Filling the slot found by \<open>issue\<close>; the operand values keep what the slot held if they wait.\<close>

definition rs_fill :: "instruction \<Rightarrow> int \<Rightarrow> rat \<Rightarrow> regfile \<Rightarrow> rob \<Rightarrow> rs_entry \<Rightarrow> rs_entry res" where
  "rs_fill instr tag t rf b e =
     res_bind (resolve_operand (in_rs1 instr) (in_rs1_fp instr) t rf b (rs_vj e)) (\<lambda>(vj, qj).
     res_bind (resolve_operand (in_rs2 instr) (in_rs2_fp instr) t rf b (rs_vk e)) (\<lambda>(vk, qk).
     Inr (e\<lparr>rs_busy := True, rs_op := in_op instr, rs_rob_tag := tag, rs_imm := in_imm instr,
            rs_rd_fp := in_rd_fp instr, rs_done := False, rs_cycles_rem := 0, rs_result := 0,
            rs_pc := in_pc instr, rs_vj := vj, rs_qj := qj, rs_vk := vk, rs_qk := qk\<rparr>)))"

fun rs_issue_loop ::
    "instruction \<Rightarrow> int \<Rightarrow> rat \<Rightarrow> regfile \<Rightarrow> rob \<Rightarrow> rs_entry list \<Rightarrow> (bool \<times> rs_entry list) res" where
  "rs_issue_loop instr tag t rf b [] = Inr (False, [])"
| "rs_issue_loop instr tag t rf b (e # es) =
     (if rs_busy e then
        res_bind (rs_issue_loop instr tag t rf b es) (\<lambda>(ok, es'). Inr (ok, e # es'))
      else res_bind (rs_fill instr tag t rf b e) (\<lambda>e'. Inr (True, e' # es)))"

definition rs_issue ::
    "instruction \<Rightarrow> int \<Rightarrow> rat \<Rightarrow> regfile \<Rightarrow> rob \<Rightarrow> station \<Rightarrow> (bool \<times> station) res" where
  "rs_issue instr tag t rf b s =
     res_bind (rs_issue_loop instr tag t rf b (st_entries s)) (\<lambda>(ok, es).
       Inr (ok, s\<lparr>st_entries := es,
                  st_count := (if ok then st_count s + 1 else st_count s)\<rparr>))"

definition rs_capture :: "cdb_result \<Rightarrow> rs_entry \<Rightarrow> rs_entry" where
  "rs_capture r e =
     (if \<not> rs_busy e \<or> rs_done e then e
      else let e1 = (if rs_qj e = c_rob_tag r then e\<lparr>rs_vj := c_value r, rs_qj := -1\<rparr> else e)
           in if rs_qk e1 = c_rob_tag r then e1\<lparr>rs_vk := c_value r, rs_qk := -1\<rparr> else e1)"

definition rs_snoop :: "cdb \<Rightarrow> station \<Rightarrow> station" where
  "rs_snoop c s = s\<lparr>st_entries :=
     fold (\<lambda>r es. map (rs_capture r) es) (cdb_results c) (st_entries s)\<rparr>"

text \<open>\<open>tick\<close>, first pass: the countdown of an executing entry.\<close>

definition rs_countdown :: "fp_env \<Rightarrow> rs_entry \<Rightarrow> rs_entry" where
  "rs_countdown fe e =
     (if \<not> rs_busy e \<or> rs_done e \<or> rs_cycles_rem e = 0 then e
      else let e1 = e\<lparr>rs_cycles_rem := rs_cycles_rem e - 1\<rparr>
           in if rs_cycles_rem e1 = 0 then e1\<lparr>rs_result := execute_op fe e1, rs_done := True\<rparr>
              else e1)"

text \<open>\<open>tick\<close>, second pass: start entry \<open>i\<close> if it is ready and its unit is free.\<close>

definition rs_fu_busy :: "nat \<Rightarrow> rs_entry list \<Rightarrow> bool" where
  "rs_fu_busy i es = list_ex (\<lambda>j. j \<noteq> i \<and> rs_busy (es ! j) \<and> \<not> rs_done (es ! j) \<and>
     rs_op (es ! j) = rs_op (es ! i) \<and> 0 < rs_cycles_rem (es ! j)) [0..<length es]"

definition rs_start :: "fp_env \<Rightarrow> nat \<Rightarrow> rs_entry list \<Rightarrow> rs_entry list" where
  "rs_start fe i es =
     (let e = es ! i; lat = latency_of (rs_op e) in
      if \<not> rs_busy e \<or> rs_done e \<or> rs_qj e \<noteq> -1 \<or> rs_qk e \<noteq> -1 \<or> rs_cycles_rem e \<noteq> 0 then es
      else if \<not> is_pipelined (rs_op e) \<and> rs_fu_busy i es then es
      else if lat \<le> 1 then es[i := e\<lparr>rs_result := execute_op fe e, rs_done := True\<rparr>]
      else es[i := e\<lparr>rs_cycles_rem := lat - 1\<rparr>])"

definition rs_tick :: "fp_env \<Rightarrow> station \<Rightarrow> station" where
  "rs_tick fe s =
     (let es = map (rs_countdown fe) (st_entries s)
      in s\<lparr>st_entries := fold (rs_start fe) [0..<length es] es\<rparr>)"

definition rs_has_result :: "station \<Rightarrow> bool" where
  "rs_has_result s = list_ex (\<lambda>e. rs_busy e \<and> rs_done e) (st_entries s)"

fun rs_pop_loop :: "rs_entry list \<Rightarrow> (rs_entry \<times> rs_entry list) option" where
  "rs_pop_loop [] = None"
| "rs_pop_loop (e # es) =
     (if rs_busy e \<and> rs_done e then Some (e, empty_rs_entry # es)
      else map_option (\<lambda>(out, es'). (out, e # es')) (rs_pop_loop es))"

definition rs_pop_result :: "station \<Rightarrow> (rs_entry \<times> station) res" where
  "rs_pop_result s = (case rs_pop_loop (st_entries s) of
      None \<Rightarrow> Inl Assert_rs_pop
    | Some (out, es) \<Rightarrow> Inr (out, s\<lparr>st_entries := es, st_count := st_count s - 1\<rparr>))"

definition rs_flush :: "station \<Rightarrow> station" where
  "rs_flush s = s\<lparr>st_entries := replicate (st_size s) empty_rs_entry, st_count := 0\<rparr>"

section \<open>The life of one entry\<close>

text \<open>The implicit states the header lists.\<close>

definition rs_ready :: "rs_entry \<Rightarrow> bool" where
  "rs_ready e \<longleftrightarrow> rs_busy e \<and> \<not> rs_done e \<and> rs_qj e = -1 \<and> rs_qk e = -1 \<and> rs_cycles_rem e = 0"

definition rs_executing :: "rs_entry \<Rightarrow> bool" where
  "rs_executing e \<longleftrightarrow> rs_busy e \<and> \<not> rs_done e \<and> 0 < rs_cycles_rem e"

text \<open>What starting a ready entry does to it.\<close>

definition rs_begin :: "fp_env \<Rightarrow> rs_entry \<Rightarrow> rs_entry" where
  "rs_begin fe e = (if latency_of (rs_op e) \<le> 1
     then e\<lparr>rs_result := execute_op fe e, rs_done := True\<rparr>
     else e\<lparr>rs_cycles_rem := latency_of (rs_op e) - 1\<rparr>)"

lemma execute_op_cong [simp]:
  "execute_op fe (e\<lparr>rs_cycles_rem := n\<rparr>) = execute_op fe e"
  "execute_op fe (e\<lparr>rs_result := v\<rparr>) = execute_op fe e"
  "execute_op fe (e\<lparr>rs_done := d\<rparr>) = execute_op fe e"
  by (simp_all add: execute_op_def Let_def cong: opcode.case_cong)

lemma length_rs_start [simp]: "length (rs_start fe i es) = length es"
  by (simp add: rs_start_def Let_def)

lemma rs_start_other: "j \<noteq> i \<Longrightarrow> rs_start fe i es ! j = es ! j"
  by (simp add: rs_start_def Let_def)

lemma rs_start_same:
  "i < length es \<Longrightarrow> rs_start fe i es ! i =
     (if rs_ready (es ! i) \<and> (is_pipelined (rs_op (es ! i)) \<or> \<not> rs_fu_busy i es)
      then rs_begin fe (es ! i) else es ! i)"
  by (simp add: rs_start_def Let_def rs_ready_def rs_begin_def)

lemma length_fold_rs_start [simp]: "length (fold (rs_start fe) is es) = length es"
  by (simp add: length_fold_update)

lemma fold_rs_start_nth:
  "i < length es \<Longrightarrow> fold (rs_start fe) [0..<n] es ! i =
     (if i < n then rs_start fe i (fold (rs_start fe) [0..<i] es) ! i else es ! i)"
proof (induction n)
  case (Suc n)
  then show ?case
    by (cases "i = n") (auto simp: rs_start_other)
qed simp

lemma rs_countdown_cases:
  assumes "0 \<le> rs_cycles_rem e"
  shows "rs_countdown fe e = (if rs_executing e
     then (if rs_cycles_rem e = 1
           then e\<lparr>rs_cycles_rem := 0, rs_result := execute_op fe e, rs_done := True\<rparr>
           else e\<lparr>rs_cycles_rem := rs_cycles_rem e - 1\<rparr>)
     else e)"
  using assms by (auto simp: rs_countdown_def rs_executing_def Let_def)

lemma rs_countdown_ready:
  "0 \<le> rs_cycles_rem e \<Longrightarrow> rs_ready (rs_countdown fe e) \<longleftrightarrow> rs_ready e"
  by (auto simp: rs_countdown_cases rs_ready_def rs_executing_def)

text \<open>One tick of one entry: it is executing and counts down, or it is ready and starts, or it
  stays as it is; a ready entry of a pipelined unit always starts.\<close>

lemma rs_tick_entry:
  fixes fe :: fp_env and s :: station and i :: nat
  assumes "i < length (st_entries s)" and "0 \<le> rs_cycles_rem (st_entries s ! i)"
  defines "e \<equiv> st_entries s ! i" and "e' \<equiv> st_entries (rs_tick fe s) ! i"
  shows "(if rs_executing e then e' = rs_countdown fe e
          else if rs_ready e then e' = rs_begin fe e \<or> (e' = e \<and> \<not> is_pipelined (rs_op e))
          else e' = e)"
proof -
  let ?es = "map (rs_countdown fe) (st_entries s)"
  let ?xs = "fold (rs_start fe) [0..<i] ?es"
  have i: "i < length ?es" "i < length ?xs" using assms by auto
  have s: "e' = rs_start fe i ?xs ! i"
    using i by (simp add: e'_def rs_tick_def Let_def fold_rs_start_nth)
  have x: "?xs ! i = rs_countdown fe e"
    using i assms by (simp add: fold_rs_start_nth)
  have e': "e' = (if rs_ready (rs_countdown fe e) \<and>
      (is_pipelined (rs_op (rs_countdown fe e)) \<or> \<not> rs_fu_busy i ?xs)
      then rs_begin fe (rs_countdown fe e) else rs_countdown fe e)"
    using s rs_start_same [OF i(2), of fe] unfolding x by (rule trans)
  have 0: "0 \<le> rs_cycles_rem e" using assms by simp
  show ?thesis
    using e' rs_countdown_ready [OF 0, of fe] rs_countdown_cases [OF 0, of fe]
    by (auto simp: rs_executing_def rs_ready_def)
qed

lemma length_rs_tick [simp]: "length (st_entries (rs_tick fe s)) = length (st_entries s)"
  by (simp add: rs_tick_def Let_def)

lemma rs_tick_other_fields [simp]:
  "st_size (rs_tick fe s) = st_size s" "st_count (rs_tick fe s) = st_count s"
  by (simp_all add: rs_tick_def Let_def)

section \<open>Well-formedness\<close>

definition rs_entry_wf :: "fp_env \<Rightarrow> rs_entry \<Rightarrow> bool" where
  "rs_entry_wf fe e \<longleftrightarrow> 0 \<le> rs_cycles_rem e \<and>
     (rs_executing e \<longrightarrow> rs_qj e = -1 \<and> rs_qk e = -1) \<and>
     (rs_busy e \<and> rs_done e \<longrightarrow> rs_qj e = -1 \<and> rs_qk e = -1 \<and> rs_result e = execute_op fe e)"

definition station_wf :: "fp_env \<Rightarrow> station \<Rightarrow> bool" where
  "station_wf fe s \<longleftrightarrow> length (st_entries s) = st_size s \<and>
     st_count s = int (length (filter rs_busy (st_entries s))) \<and>
     (\<forall>e \<in> set (st_entries s). rs_entry_wf fe e)"

lemma empty_rs_entry_wf: "rs_entry_wf fe empty_rs_entry"
  by (simp add: rs_entry_wf_def empty_rs_entry_def rs_executing_def)

lemma new_station_wf: "station_wf fe (new_station n)"
  by (simp add: station_wf_def new_station_def empty_rs_entry_wf)
     (simp add: empty_rs_entry_def)

lemma rs_flush_wf: "station_wf fe (rs_flush s)"
  by (simp add: station_wf_def rs_flush_def empty_rs_entry_wf)
     (simp add: empty_rs_entry_def)

lemma filter_busy_update:
  assumes "i < length es"
  shows "int (length (filter rs_busy (es[i := e]))) =
     int (length (filter rs_busy es)) - (if rs_busy (es ! i) then 1 else 0)
       + (if rs_busy e then 1 else 0)"
  using assms
proof (induction es arbitrary: i)
  case (Cons x xs)
  show ?case
  proof (cases i)
    case (Suc k)
    then show ?thesis using Cons.IH [of k] Cons.prems by auto
  qed simp
qed simp

lemma rs_countdown_wf: "rs_entry_wf fe e \<Longrightarrow> rs_entry_wf fe (rs_countdown fe e)"
  by (auto simp: rs_entry_wf_def rs_countdown_cases rs_executing_def)

lemma rs_begin_wf: "rs_ready e \<Longrightarrow> rs_entry_wf fe (rs_begin fe e)"
  by (auto simp: rs_entry_wf_def rs_begin_def rs_ready_def rs_executing_def)

lemma rs_tick_entry_wf:
  assumes "i < length (st_entries s)" and "rs_entry_wf fe (st_entries s ! i)"
  shows "rs_entry_wf fe (st_entries (rs_tick fe s) ! i) \<and>
     rs_busy (st_entries (rs_tick fe s) ! i) = rs_busy (st_entries s ! i)"
proof -
  have 0: "0 \<le> rs_cycles_rem (st_entries s ! i)" using assms by (simp add: rs_entry_wf_def)
  have b: "rs_busy (rs_countdown fe e) = rs_busy e" "rs_busy (rs_begin fe e) = rs_busy e" for e
    by (simp_all add: rs_countdown_def rs_begin_def Let_def)
  show ?thesis
    using rs_tick_entry [OF assms(1) 0, of fe] assms(2) rs_countdown_wf [OF assms(2)]
      rs_begin_wf [of "st_entries s ! i" fe]
    by (auto simp: b split: if_splits)
qed

lemma length_filter_pointwise:
  assumes "length xs = length ys" and "\<And>i. i < length xs \<Longrightarrow> P (xs ! i) = P (ys ! i)"
  shows "length (filter P xs) = length (filter P ys)"
  using assms by (simp add: length_filter_conv_card cong: conj_cong)

lemma rs_tick_wf:
  assumes "station_wf fe s"
  shows "station_wf fe (rs_tick fe s)"
proof -
  have wf: "\<And>i. i < length (st_entries s) \<Longrightarrow> rs_entry_wf fe (st_entries s ! i)"
    using assms by (simp add: station_wf_def)
  have "length (filter rs_busy (st_entries (rs_tick fe s))) = length (filter rs_busy (st_entries s))"
    by (rule length_filter_pointwise) (simp_all add: rs_tick_entry_wf wf)
  moreover have "\<forall>e \<in> set (st_entries (rs_tick fe s)). rs_entry_wf fe e"
    using rs_tick_entry_wf wf by (auto simp: in_set_conv_nth)
  ultimately show ?thesis
    using assms by (simp add: station_wf_def)
qed

section \<open>Issue\<close>

lemma rs_full_iff: "station_wf fe s \<Longrightarrow> rs_full s \<longleftrightarrow> (\<forall>e \<in> set (st_entries s). rs_busy e)"
  using length_filter_less [of _ "st_entries s" rs_busy]
  by (auto simp: station_wf_def rs_full_def filter_id_conv) fastforce

lemma rs_issue_loop_full: "\<forall>e \<in> set es. rs_busy e \<Longrightarrow> rs_issue_loop instr tag t rf b es = Inr (False, es)"
  by (induction es) simp_all

text \<open>The first free slot is filled, provided the operands resolve.\<close>

lemma rs_issue_loop_free:
  assumes "\<not> (\<forall>e \<in> set es. rs_busy e)"
  shows "\<exists>i < length es. \<not> rs_busy (es ! i) \<and> (\<forall>j < i. rs_busy (es ! j)) \<and>
     rs_issue_loop instr tag t rf b es =
       res_bind (rs_fill instr tag t rf b (es ! i)) (\<lambda>e. Inr (True, es[i := e]))"
  using assms
proof (induction es)
  case (Cons x xs)
  show ?case
  proof (cases "rs_busy x")
    case True
    with Cons obtain i where "i < length xs" "\<not> rs_busy (xs ! i)" "\<forall>j < i. rs_busy (xs ! j)"
      "rs_issue_loop instr tag t rf b xs =
         res_bind (rs_fill instr tag t rf b (xs ! i)) (\<lambda>e. Inr (True, xs[i := e]))"
      by auto
    with True show ?thesis
      by (intro exI [of _ "Suc i"])
         (auto simp: less_Suc_eq_0_disj res_bind_def split: sum.splits)
  next
    case False
    then show ?thesis by (intro exI [of _ 0]) simp
  qed
qed simp

lemma rs_fill_wf: "rs_fill instr tag t rf b e = Inr e' \<Longrightarrow> rs_entry_wf fe e' \<and> rs_busy e'"
  by (auto simp: rs_fill_def rs_entry_wf_def rs_executing_def split: prod.splits)

text \<open>A full station refuses the instruction and is unchanged; any other accepts it in its first
  free slot and stays well-formed.\<close>

lemma rs_issue_full:
  "station_wf fe s \<Longrightarrow> rs_full s \<Longrightarrow> rs_issue instr tag t rf b s = Inr (False, s)"
  by (simp add: rs_issue_def rs_full_iff rs_issue_loop_full)

lemma rs_issue_free:
  assumes "station_wf fe s" and "\<not> rs_full s"
  shows "\<exists>i < st_size s. \<not> rs_busy (st_entries s ! i) \<and>
     rs_issue instr tag t rf b s =
       res_bind (rs_fill instr tag t rf b (st_entries s ! i)) (\<lambda>e.
         Inr (True, s\<lparr>st_entries := (st_entries s)[i := e], st_count := st_count s + 1\<rparr>))"
proof -
  obtain i where i: "i < length (st_entries s)" "\<not> rs_busy (st_entries s ! i)"
    and l: "rs_issue_loop instr tag t rf b (st_entries s) =
       res_bind (rs_fill instr tag t rf b (st_entries s ! i)) (\<lambda>e. Inr (True, (st_entries s)[i := e]))"
    using rs_issue_loop_free [of "st_entries s" instr tag t rf b] assms rs_full_iff by blast
  then show ?thesis
    using assms(1)
    by (intro exI [of _ i]) (auto simp: rs_issue_def station_wf_def res_bind_def split: sum.splits)
qed

lemma rs_issue_wf:
  assumes "station_wf fe s" and "rs_issue instr tag t rf b s = Inr (ok, s')"
  shows "station_wf fe s' \<and> st_size s' = st_size s \<and> (ok \<longleftrightarrow> \<not> rs_full s)"
proof (cases "rs_full s")
  case True
  then show ?thesis using assms rs_issue_full [OF assms(1) True] by auto
next
  case False
  then obtain i e where i: "i < st_size s" "\<not> rs_busy (st_entries s ! i)"
    and e: "rs_fill instr tag t rf b (st_entries s ! i) = Inr e"
    and s': "ok" "s' = s\<lparr>st_entries := (st_entries s)[i := e], st_count := st_count s + 1\<rparr>"
    using rs_issue_free [OF assms(1), of instr tag t rf b] assms(2) by auto
  have "\<forall>x \<in> set ((st_entries s)[i := e]). rs_entry_wf fe x"
    using assms(1) rs_fill_wf [OF e] set_update_subset_insert [of "st_entries s" i e]
    by (auto simp: station_wf_def)
  then show ?thesis
    using assms(1) i s' False rs_fill_wf [OF e]
    by (simp add: station_wf_def filter_busy_update)
qed

section \<open>Results\<close>

lemma rs_pop_loop_None: "rs_pop_loop es = None \<longleftrightarrow> \<not> list_ex (\<lambda>e. rs_busy e \<and> rs_done e) es"
  by (induction es) auto

lemma rs_pop_loop_Some:
  "rs_pop_loop es = Some (out, es') \<Longrightarrow> \<exists>i < length es. rs_busy (es ! i) \<and> rs_done (es ! i) \<and>
     (\<forall>j < i. \<not> (rs_busy (es ! j) \<and> rs_done (es ! j))) \<and> out = es ! i \<and> es' = es[i := empty_rs_entry]"
proof (induction es arbitrary: es')
  case (Cons x xs)
  show ?case
  proof (cases "rs_busy x \<and> rs_done x")
    case True
    then show ?thesis using Cons.prems by (intro exI [of _ 0]) auto
  next
    case False
    then obtain xs' where "rs_pop_loop xs = Some (out, xs')" "es' = x # xs'"
      using Cons.prems by (auto split: if_splits)
    with Cons.IH obtain i where "i < length xs" "rs_busy (xs ! i)" "rs_done (xs ! i)"
      "\<forall>j < i. \<not> (rs_busy (xs ! j) \<and> rs_done (xs ! j))" "out = xs ! i" "xs' = xs[i := empty_rs_entry]"
      by blast
    with False \<open>es' = x # xs'\<close> show ?thesis
      by (intro exI [of _ "Suc i"]) (auto simp: less_Suc_eq_0_disj)
  qed
qed simp

lemma rs_pop_result_cases:
  assumes "rs_has_result s"
  obtains i s' where "i < length (st_entries s)" and "rs_busy (st_entries s ! i)"
    and "rs_done (st_entries s ! i)" and "rs_pop_result s = Inr (st_entries s ! i, s')"
    and "s' = s\<lparr>st_entries := (st_entries s)[i := empty_rs_entry], st_count := st_count s - 1\<rparr>"
proof -
  obtain out es' where l: "rs_pop_loop (st_entries s) = Some (out, es')"
    using assms rs_pop_loop_None [of "st_entries s"] by (fastforce simp: rs_has_result_def)
  from rs_pop_loop_Some [OF l] l show thesis
    by (auto intro: that simp: rs_pop_result_def)
qed

lemma rs_pop_result_error: "\<not> rs_has_result s \<Longrightarrow> rs_pop_result s = Inl Assert_rs_pop"
  using rs_pop_loop_None [of "st_entries s"] by (simp add: rs_has_result_def rs_pop_result_def)

lemma rs_pop_result_wf:
  assumes "station_wf fe s" and "rs_pop_result s = Inr (e, s')"
  shows "station_wf fe s' \<and> st_size s' = st_size s \<and> st_count s' = st_count s - 1 \<and>
     rs_result e = execute_op fe e"
proof -
  have "rs_has_result s" using assms(2) rs_pop_result_error by fastforce
  then obtain i where i: "i < length (st_entries s)" "rs_busy (st_entries s ! i)"
    "rs_done (st_entries s ! i)" "e = st_entries s ! i"
    "s' = s\<lparr>st_entries := (st_entries s)[i := empty_rs_entry], st_count := st_count s - 1\<rparr>"
    using assms(2) by (elim rs_pop_result_cases) auto
  have "\<forall>x \<in> set ((st_entries s)[i := empty_rs_entry]). rs_entry_wf fe x"
    using assms(1) empty_rs_entry_wf set_update_subset_insert [of "st_entries s" i empty_rs_entry]
    by (auto simp: station_wf_def)
  moreover have "rs_entry_wf fe e" using assms(1) i by (simp add: station_wf_def)
  ultimately show ?thesis
    using assms(1) i by (simp add: station_wf_def filter_busy_update rs_entry_wf_def)
       (simp add: empty_rs_entry_def)
qed

section \<open>Snooping\<close>

definition rs_static ::
    "rs_entry \<Rightarrow> bool \<times> opcode \<times> int \<times> i32 \<times> bool \<times> bool \<times> int \<times> u32 \<times> u32" where
  "rs_static e = (rs_busy e, rs_op e, rs_rob_tag e, rs_imm e, rs_rd_fp e, rs_done e,
     rs_cycles_rem e, rs_result e, rs_pc e)"

interpretation rs_listener: cdb_listener "\<lambda>e. rs_busy e \<and> \<not> rs_done e" rs_qj rs_qk rs_vj rs_vk
  rs_static rs_capture
  by unfold_locales (auto simp: rs_capture_def rs_static_def Let_def)

lemma rs_snoop_entries:
  "st_entries (rs_snoop c s) = map (fold rs_capture (cdb_results c)) (st_entries s)"
  by (simp add: rs_snoop_def fold_map_swap)

lemma rs_capture_static [simp]:
  "rs_busy (fold rs_capture rs e) = rs_busy e" "rs_op (fold rs_capture rs e) = rs_op e"
  "rs_rob_tag (fold rs_capture rs e) = rs_rob_tag e" "rs_imm (fold rs_capture rs e) = rs_imm e"
  "rs_done (fold rs_capture rs e) = rs_done e" "rs_pc (fold rs_capture rs e) = rs_pc e"
  "rs_cycles_rem (fold rs_capture rs e) = rs_cycles_rem e"
  "rs_result (fold rs_capture rs e) = rs_result e"
  using rs_listener.fold_rest [of rs e] by (simp_all add: rs_static_def)

lemma rs_capture_wf:
  assumes "rs_entry_wf fe e" and "cdb_tags_ok rs"
  shows "rs_entry_wf fe (fold rs_capture rs e)"
proof (cases "rs_busy e \<and> \<not> rs_done e")
  case True
  then show ?thesis
    using assms rs_listener.fold_j [OF True assms(2)] rs_listener.fold_k [OF True assms(2)]
      cdb_value_neg [OF assms(2)]
    by (auto simp: rs_entry_wf_def rs_executing_def)
next
  case False
  then show ?thesis using assms(1) by (simp add: rs_listener.fold_inactive)
qed

lemma rs_snoop_wf:
  assumes "station_wf fe s" and "cdb_tags_ok (cdb_results c)"
  shows "station_wf fe (rs_snoop c s)"
  using assms rs_capture_wf [OF _ assms(2)]
  by (auto simp: station_wf_def rs_snoop_entries filter_map comp_def)
     (auto simp: rs_snoop_def)

section \<open>Functional units\<close>

text \<open>A functional unit that is not pipelined runs one operation at a time.\<close>

definition fu_exclusive :: "rs_entry list \<Rightarrow> bool" where
  "fu_exclusive es \<longleftrightarrow> (\<forall>i < length es. \<forall>j < length es. i \<noteq> j \<longrightarrow> rs_executing (es ! i) \<longrightarrow>
     rs_executing (es ! j) \<longrightarrow> rs_op (es ! i) = rs_op (es ! j) \<longrightarrow> is_pipelined (rs_op (es ! i)))"

lemma rs_fu_busy_iff:
  "rs_fu_busy i es \<longleftrightarrow>
     (\<exists>j < length es. j \<noteq> i \<and> rs_executing (es ! j) \<and> rs_op (es ! j) = rs_op (es ! i))"
  by (auto simp: rs_fu_busy_def list_ex_iff rs_executing_def)

lemma rs_begin_op [simp]: "rs_op (rs_begin fe e) = rs_op e"
  by (simp add: rs_begin_def)

lemma rs_start_exclusive:
  assumes "fu_exclusive es" and "i < length es"
  shows "fu_exclusive (rs_start fe i es)"
proof (cases "rs_ready (es ! i) \<and> (is_pipelined (rs_op (es ! i)) \<or> \<not> rs_fu_busy i es)")
  case True
  have "is_pipelined (rs_op (es ! i))" if "j < length es" "j \<noteq> i" "rs_executing (es ! j)"
    "rs_op (es ! j) = rs_op (es ! i)" for j
    using True that by (auto simp: rs_fu_busy_iff)
  then have "is_pipelined (rs_op (rs_start fe i es ! k))"
    if "k < length es" "j < length es" "k \<noteq> j" "rs_executing (rs_start fe i es ! k)"
      "rs_executing (rs_start fe i es ! j)"
      "rs_op (rs_start fe i es ! k) = rs_op (rs_start fe i es ! j)" for k j
    using that assms True
    by (cases "k = i"; cases "j = i") (auto simp: rs_start_same rs_start_other fu_exclusive_def)
  then show ?thesis by (simp add: fu_exclusive_def)
next
  case False
  then have "rs_start fe i es = es"
    by (auto simp: rs_start_def rs_ready_def Let_def)
  then show ?thesis using assms(1) by simp
qed

lemma rs_countdown_exclusive:
  assumes "fu_exclusive es" and "\<And>e. e \<in> set es \<Longrightarrow> 0 \<le> rs_cycles_rem e"
  shows "fu_exclusive (map (rs_countdown fe) es)"
proof -
  have "rs_executing (rs_countdown fe e) \<Longrightarrow> rs_executing e" "rs_op (rs_countdown fe e) = rs_op e"
    if "0 \<le> rs_cycles_rem e" for e
    using that by (auto simp: rs_countdown_cases rs_executing_def split: if_splits)
  then show ?thesis
    using assms by (simp add: fu_exclusive_def)
qed

lemma rs_tick_exclusive:
  assumes "station_wf fe s" and "fu_exclusive (st_entries s)"
  shows "fu_exclusive (st_entries (rs_tick fe s))"
proof -
  let ?es = "map (rs_countdown fe) (st_entries s)"
  have "fu_exclusive (fold (rs_start fe) [0..<n] ?es)" if "n \<le> length ?es" for n
    using that
  proof (induction n)
    case 0
    show ?case
      using rs_countdown_exclusive [OF assms(2)] assms(1)
      by (simp add: station_wf_def rs_entry_wf_def)
  next
    case (Suc n)
    then show ?case by (simp add: rs_start_exclusive)
  qed
  then show ?thesis by (simp add: rs_tick_def Let_def)
qed

text \<open>A ready entry of a pipelined unit counts down \<open>latency_of\<close> ticks, whatever the other
  entries do, and then holds its result.\<close>

lemma rs_tick_pipelined_run:
  assumes "station_wf fe s" and "i < st_size s" and "rs_ready (st_entries s ! i)"
    and "is_pipelined (rs_op (st_entries s ! i))"
  shows "0 < n \<Longrightarrow> st_entries ((rs_tick fe ^^ n) s) ! i =
     (let e = st_entries s ! i; lat = latency_of (rs_op e) in
      if int n < lat then e\<lparr>rs_cycles_rem := lat - int n\<rparr>
      else e\<lparr>rs_result := execute_op fe e, rs_done := True\<rparr>)"
proof (induction n)
  case (Suc n)
  let ?e = "st_entries s ! i" and ?s = "(rs_tick fe ^^ n) s"
  have len: "i < length (st_entries ((rs_tick fe ^^ m) s))" for m :: nat
    using assms(1,2) by (induction m) (simp_all add: station_wf_def)
  have 0: "rs_cycles_rem ?e = 0" using assms(3) by (simp add: rs_ready_def)
  show ?case
  proof (cases "n = 0")
    case True
    then show ?thesis
      using rs_tick_entry [of i s fe] len [of 0] assms 0
      by (auto simp: Let_def rs_executing_def rs_begin_def)
  next
    case False
    then have IH: "st_entries ?s ! i = (let lat = latency_of (rs_op ?e) in
      if int n < lat then ?e\<lparr>rs_cycles_rem := lat - int n\<rparr>
      else ?e\<lparr>rs_result := execute_op fe ?e, rs_done := True\<rparr>)"
      using Suc.IH by (simp add: Let_def)
    then have nn: "0 \<le> rs_cycles_rem (st_entries ?s ! i)" using 0 by (auto simp: Let_def)
    have upd: "?e\<lparr>rs_cycles_rem := 0, rs_result := v, rs_done := d\<rparr> = ?e\<lparr>rs_result := v, rs_done := d\<rparr>"
      for v d using 0 by (cases ?e) simp
    show ?thesis
    proof (cases "int n < latency_of (rs_op ?e)")
      case True
      then have "rs_executing (st_entries ?s ! i)"
        using IH assms(3) by (simp add: Let_def rs_executing_def rs_ready_def)
      then have "st_entries (rs_tick fe ?s) ! i = rs_countdown fe (st_entries ?s ! i)"
        using rs_tick_entry [OF len [of n] nn, of fe] by simp
      then show ?thesis
        using True IH assms(3)
        by (auto simp: Let_def rs_countdown_def rs_ready_def upd)
    next
      case False
      then have "\<not> rs_executing (st_entries ?s ! i)" "\<not> rs_ready (st_entries ?s ! i)"
        using IH by (simp_all add: Let_def rs_executing_def rs_ready_def)
      then show ?thesis
        using False IH rs_tick_entry [OF len [of n] nn, of fe] by (simp add: Let_def)
    qed
  qed
qed simp

section \<open>Signed arithmetic without overflow\<close>

text \<open>
  When the signed arithmetic of \<open>execute_op\<close> is defined in C++17: sums and differences fit in
  \<open>int32_t\<close>, the left operand of a left shift is not negative and the shifted value fits in
  \<open>uint32_t\<close>, the value converted to \<open>int32_t\<close> is in range.
\<close>

definition fits_i32 :: "int \<Rightarrow> bool" where
  "fits_i32 x \<longleftrightarrow> - (2 ^ 31) \<le> x \<and> x < 2 ^ 31"

definition execute_op_defined :: "rs_entry \<Rightarrow> bool" where
  "execute_op_defined e =
     (let sj = sint (rs_vj e); sk = sint (rs_vk e); imm = sint (rs_imm e) in
      case rs_op e of
        Op_ADD \<Rightarrow> fits_i32 (sj + sk)
      | Op_SUB \<Rightarrow> fits_i32 (sj - sk)
      | Op_SLL \<Rightarrow> 0 \<le> sj \<and> sj * 2 ^ unat (rs_vk e AND 0x1F) < 2 ^ 32
      | Op_SLLI \<Rightarrow> 0 \<le> sj \<and> sj * 2 ^ unat (rs_imm e AND 0x1F) < 2 ^ 32
      | Op_ADDI \<Rightarrow> fits_i32 (sj + imm)
      | Op_LW \<Rightarrow> fits_i32 (sj + imm)
      | Op_FLW \<Rightarrow> fits_i32 (sj + imm)
      | Op_SW \<Rightarrow> fits_i32 (sj + imm)
      | Op_FSW \<Rightarrow> fits_i32 (sj + imm)
      | Op_JALR \<Rightarrow> fits_i32 (sj + imm)
      | Op_FCVT_W_S \<Rightarrow> f_exp (bits_to_float (rs_vj e)) \<noteq> 255 \<and>
                        fits_i32 (f_trunc (bits_to_float (rs_vj e)))
      | _ \<Rightarrow> True)"

lemma sint_of_fits: "fits_i32 x \<Longrightarrow> sint (word_of_int x :: i32) = x"
  by (simp add: fits_i32_def sint_sbintrunc' signed_take_bit_int_eq_self)

lemma sint_arith_fits:
  fixes a b :: i32
  shows "fits_i32 (sint a + sint b) \<Longrightarrow> sint (a + b) = sint a + sint b"
    and "fits_i32 (sint a - sint b) \<Longrightarrow> sint (a - b) = sint a - sint b"
  using sint_of_fits [of "sint a + sint b"] sint_of_fits [of "sint a - sint b"] by simp_all

section \<open>Reachable stations\<close>

inductive rs_reach :: "fp_env \<Rightarrow> nat \<Rightarrow> station \<Rightarrow> bool" for fe n where
  rs_reach_new: "rs_reach fe n (new_station n)"
| rs_reach_issue: "rs_reach fe n s \<Longrightarrow> rs_issue instr tag t rf b s = Inr (ok, s') \<Longrightarrow> rs_reach fe n s'"
| rs_reach_snoop: "rs_reach fe n s \<Longrightarrow> cdb_tags_ok (cdb_results c) \<Longrightarrow> rs_reach fe n (rs_snoop c s)"
| rs_reach_tick: "rs_reach fe n s \<Longrightarrow> rs_reach fe n (rs_tick fe s)"
| rs_reach_pop: "rs_reach fe n s \<Longrightarrow> rs_pop_result s = Inr (e, s') \<Longrightarrow> rs_reach fe n s'"
| rs_reach_flush: "rs_reach fe n s \<Longrightarrow> rs_reach fe n (rs_flush s)"

text \<open>Replacing an entry by one that is not executing, and snooping, keep the exclusion.\<close>

lemma fu_exclusive_update:
  assumes "fu_exclusive es" and "\<not> rs_executing e"
  shows "fu_exclusive (es[i := e])"
  unfolding fu_exclusive_def
proof (intro allI impI)
  fix j k
  assume jk: "j < length (es[i := e])" "k < length (es[i := e])" "j \<noteq> k"
    and ex: "rs_executing (es[i := e] ! j)" "rs_executing (es[i := e] ! k)"
    and op: "rs_op (es[i := e] ! j) = rs_op (es[i := e] ! k)"
  have "i \<noteq> j" "i \<noteq> k" using ex jk assms(2) by auto
  then show "is_pipelined (rs_op (es[i := e] ! j))"
    using jk ex op assms(1) by (simp add: fu_exclusive_def)
qed

lemma fu_exclusive_snoop:
  "fu_exclusive (st_entries s) \<Longrightarrow> fu_exclusive (st_entries (rs_snoop c s))"
  by (simp add: fu_exclusive_def rs_snoop_entries rs_executing_def)

lemma fu_exclusive_replicate: "fu_exclusive (replicate n empty_rs_entry)"
  by (simp add: fu_exclusive_def rs_executing_def empty_rs_entry_def)

lemma rs_issue_exclusive:
  assumes "station_wf fe s" and "fu_exclusive (st_entries s)"
    and "rs_issue instr tag t rf b s = Inr (ok, s')"
  shows "fu_exclusive (st_entries s')"
proof (cases "rs_full s")
  case True
  then show ?thesis using assms rs_issue_full [OF assms(1) True] by auto
next
  case False
  then obtain i e where e: "rs_fill instr tag t rf b (st_entries s ! i) = Inr e"
    and s': "s' = s\<lparr>st_entries := (st_entries s)[i := e], st_count := st_count s + 1\<rparr>"
    using rs_issue_free [OF assms(1), of instr tag t rf b] assms(3) by auto
  have "\<not> rs_executing e"
    using e by (auto simp: rs_fill_def rs_executing_def split: prod.splits)
  then show ?thesis using s' assms(2) by (simp add: fu_exclusive_update)
qed

lemma rs_pop_result_exclusive:
  assumes "fu_exclusive (st_entries s)" and "rs_pop_result s = Inr (e, s')"
  shows "fu_exclusive (st_entries s')"
proof -
  have "rs_has_result s" using assms(2) rs_pop_result_error by fastforce
  then obtain i where
    "s' = s\<lparr>st_entries := (st_entries s)[i := empty_rs_entry], st_count := st_count s - 1\<rparr>"
    using assms(2) by (elim rs_pop_result_cases) auto
  then show ?thesis
    using assms(1) by (simp add: fu_exclusive_update rs_executing_def empty_rs_entry_def)
qed

lemma rs_reach_invariant:
  assumes "rs_reach fe n s"
  shows "station_wf fe s \<and> fu_exclusive (st_entries s) \<and> st_size s = n"
  using assms
proof (induction rule: rs_reach.induct)
  case rs_reach_new
  show ?case using new_station_wf fu_exclusive_replicate by (simp add: new_station_def)
next
  case (rs_reach_issue s instr tag t rf b ok s')
  then show ?case using rs_issue_wf rs_issue_exclusive by metis
next
  case (rs_reach_snoop s c)
  then show ?case using rs_snoop_wf fu_exclusive_snoop by (auto simp: rs_snoop_def)
next
  case (rs_reach_tick s)
  then show ?case using rs_tick_wf rs_tick_exclusive by auto
next
  case (rs_reach_pop s e s')
  then show ?case using rs_pop_result_wf rs_pop_result_exclusive by metis
next
  case (rs_reach_flush s)
  then show ?case using rs_flush_wf fu_exclusive_replicate by (auto simp: rs_flush_def)
qed

section \<open>Properties\<close>

text \<open>C32. In every reachable reservation station the occupancy count is the number of busy slots
  and at most the size, an entry that executes or is done has both operands, a done entry holds
  the result of its operation on those operands, and a unit that is not pipelined runs one
  operation of a kind at a time.\<close>

theorem rs_reachable_invariant:
  assumes "rs_reach fe n s"
  shows "st_count s = int (length (filter rs_busy (st_entries s))) \<and> st_count s \<le> int n \<and>
     (\<forall>e \<in> set (st_entries s). (rs_executing e \<or> rs_busy e \<and> rs_done e \<longrightarrow> rs_qj e = -1 \<and> rs_qk e = -1) \<and>
        (rs_busy e \<and> rs_done e \<longrightarrow> rs_result e = execute_op fe e)) \<and>
     fu_exclusive (st_entries s)"
proof -
  have "length (filter rs_busy (st_entries s)) \<le> n"
    using rs_reach_invariant [OF assms] length_filter_le [of rs_busy "st_entries s"]
    by (simp add: station_wf_def)
  then show ?thesis
    using rs_reach_invariant [OF assms] by (auto simp: station_wf_def rs_entry_wf_def)
qed

definition two_divisions :: station where
  "two_divisions = (let i = default_instruction\<lparr>in_op := Op_FDIV_S\<rparr>;
       b = \<lparr>rob_size = 2, rob_head = 0, rob_tail = 0, rob_count = 0,
            rob_entries = replicate 2 empty_rob_entry\<rparr>;
       issue = (\<lambda>tag s. case rs_issue i tag init_rat init_regfile b s of Inl _ \<Rightarrow> s | Inr (_, s') \<Rightarrow> s')
     in rs_tick x86_env (issue 1 (issue 0 (new_station 2))))"

lemma two_divisions_reach: "rs_reach x86_env 2 two_divisions"
proof -
  have *: "rs_reach x86_env 2 (case rs_issue i tag t rf b s of Inl _ \<Rightarrow> s | Inr (_, s') \<Rightarrow> s')"
    if "rs_reach x86_env 2 s" for i tag t rf b s
    using that rs_reach_issue [OF that, of i tag t rf b]
    by (auto split: sum.splits prod.splits)
  show ?thesis
    unfolding two_divisions_def Let_def by (intro rs_reach_tick * rs_reach_new)
qed

theorem rs_reachable_invariant_witness:
  "map rs_cycles_rem (st_entries two_divisions) = [7, 0] \<and> st_count two_divisions \<le> 2 \<and>
     fu_exclusive (st_entries two_divisions)"
proof
  show "map rs_cycles_rem (st_entries two_divisions) = [7, 0]" by code_simp
  show "st_count two_divisions \<le> 2 \<and> fu_exclusive (st_entries two_divisions)"
    using rs_reachable_invariant [OF two_divisions_reach] by simp
qed

text \<open>C39. A ready entry of a pipelined unit holds its result after exactly \<open>latency_of\<close> ticks: it
  is not done after fewer, and after that many or more it holds the result of its operation on
  the operands it was ready with, whatever else the station holds.\<close>

theorem rs_pipelined_latency:
  assumes "station_wf fe s" and "i < st_size s" and "rs_ready (st_entries s ! i)"
    and "is_pipelined (rs_op (st_entries s ! i))" and "0 < n"
  shows "(rs_done (st_entries ((rs_tick fe ^^ n) s) ! i) \<longleftrightarrow>
        latency_of (rs_op (st_entries s ! i)) \<le> int n) \<and>
     (latency_of (rs_op (st_entries s ! i)) \<le> int n \<longrightarrow>
        rs_result (st_entries ((rs_tick fe ^^ n) s) ! i) = execute_op fe (st_entries s ! i))"
  using rs_tick_pipelined_run [OF assms] assms(3) by (auto simp: Let_def rs_ready_def)

definition one_multiplication :: station where
  "one_multiplication = \<lparr>st_size = 1, st_count = 1, st_entries = [empty_rs_entry\<lparr>rs_busy := True,
     rs_op := Op_FMUL_S, rs_rob_tag := 0, rs_vj := 0x40000000, rs_vk := 0x40400000\<rparr>]\<rparr>"

theorem rs_pipelined_latency_witness:
  "\<not> rs_done (st_entries ((rs_tick x86_env ^^ 3) one_multiplication) ! 0) \<and>
     rs_done (st_entries ((rs_tick x86_env ^^ 4) one_multiplication) ! 0) \<and>
     rs_result (st_entries ((rs_tick x86_env ^^ 4) one_multiplication) ! 0) = 0x40C00000"
proof -
  let ?e = "st_entries one_multiplication ! 0"
  have hyps: "station_wf x86_env one_multiplication" "0 < st_size one_multiplication"
    "rs_ready ?e" "is_pipelined (rs_op ?e)"
    by (simp_all add: one_multiplication_def empty_rs_entry_def station_wf_def rs_entry_wf_def
        rs_executing_def rs_ready_def is_pipelined_def pipe_defs)
  have lat: "latency_of (rs_op ?e) = 4"
    by (simp add: one_multiplication_def latency_of_def latency_defs)
  have val: "execute_op x86_env ?e = 0x40C00000" by code_simp
  show ?thesis
    using rs_pipelined_latency [OF hyps, of 3] rs_pipelined_latency [OF hyps, of 4] lat val by simp
qed

text \<open>Snooping resolves exactly the operands whose producers are on the bus: an entry that
  waits for a broadcast tag takes the value broadcast for it, any other operand is untouched,
  and nothing else of the entry changes.\<close>

theorem rs_snoop_captures_operands:
  assumes "i < length (st_entries s)" and "rs_busy (st_entries s ! i)" and "\<not> rs_done (st_entries s ! i)"
    and "cdb_tags_ok (cdb_results c)"
  shows "let e = st_entries s ! i; e' = st_entries (rs_snoop c s) ! i; bus = cdb_value (cdb_results c) in
     (rs_vj e', rs_qj e') = (case bus (rs_qj e) of None \<Rightarrow> (rs_vj e, rs_qj e) | Some v \<Rightarrow> (v, -1)) \<and>
     (rs_vk e', rs_qk e') = (case bus (rs_qk e) of None \<Rightarrow> (rs_vk e, rs_qk e) | Some v \<Rightarrow> (v, -1)) \<and>
     rs_static e' = rs_static e"
proof -
  let ?e = "st_entries s ! i"
  have a: "rs_busy ?e \<and> \<not> rs_done ?e" using assms by simp
  show ?thesis
    using assms(1) rs_listener.fold_j [OF a assms(4)] rs_listener.fold_k [OF a assms(4)]
      rs_listener.fold_rest [of "cdb_results c" ?e]
    by (auto simp: rs_snoop_entries Let_def split: option.splits)
qed

theorem rs_snoop_captures_operands_witness:
  "let e = empty_rs_entry\<lparr>rs_busy := True, rs_op := Op_ADD, rs_qj := 3, rs_qk := 5\<rparr>;
       s = \<lparr>st_size = 1, st_count = 1, st_entries = [e]\<rparr>;
       c = \<lparr>cdb_pending = [\<lparr>c_rob_tag = 3, c_value = 42\<rparr>]\<rparr>;
       e' = st_entries (rs_snoop c s) ! 0 in
     (rs_vj e', rs_qj e') = (42, -1) \<and> (rs_vk e', rs_qk e') = (0, 5) \<and> rs_static e' = rs_static e"
proof -
  let ?e = "empty_rs_entry\<lparr>rs_busy := True, rs_op := Op_ADD, rs_qj := 3, rs_qk := 5\<rparr>"
  let ?s = "\<lparr>st_size = 1, st_count = 1, st_entries = [?e]\<rparr>"
  let ?c = "\<lparr>cdb_pending = [\<lparr>c_rob_tag = 3, c_value = 42\<rparr>]\<rparr>"
  show ?thesis
    using rs_snoop_captures_operands [of 0 ?s ?c]
    by (simp add: empty_rs_entry_def cdb_tags_ok_def cdb_results_def Let_def)
qed

text \<open>The parts of the next theorem that the word library does not state in this form.\<close>

lemma uint_push_fits:
  fixes w :: u32
  assumes "0 \<le> sint w" and "sint w * 2 ^ n < 2 ^ 32"
  shows "uint (push_bit n w) = sint w * 2 ^ n"
proof -
  have u: "uint w = sint w"
    using assms(1) by (simp add: uint_sint take_bit_int_eq_self sint_lt [THEN order_less_le_trans])
  with assms(2) show ?thesis
    using assms(1) by (simp add: unsigned_push_bit_eq) (simp add: push_bit_eq_mult take_bit_int_eq_self)
qed

lemma sint_clear_bit0: "sint (w AND NOT 1) = 2 * (sint w div 2)" for w :: u32
proof -
  have "x AND NOT 1 = push_bit 1 (drop_bit 1 x)" for x :: int
    by (rule bit_eqI) (auto simp only: bit_and_iff bit_not_iff bit_push_bit_iff bit_drop_bit_eq bit_1_iff comp_def, auto)
  then show ?thesis by (simp add: signed_and_eq signed_not_eq push_bit_eq_mult drop_bit_eq_div)
qed

lemma sint_shift_right: "sint (signed_drop_bit n w) = sint w div 2 ^ n" for w :: u32
  by (simp add: sint_signed_drop_bit_eq drop_bit_eq_div)

lemma uint_shift_right: "uint (drop_bit n w) = uint w div 2 ^ n" for w :: u32
  using uint_lt2p [of w] unfolding unsigned_drop_bit_eq by (simp only: drop_bit_eq_div take_bit_eq_mod) simp

text \<open>C33. The arithmetic of \<open>execute_op\<close> over the integers, for every opcode whose C++ expression can overflow or
  shifts. Where the expression is defined, a sum, difference or address is the exact one; a left shift multiplies
  and does not lose bits; the target of \<open>JALR\<close> is the exact sum rounded down to an even number; a conversion gives
  the number without its fraction. The right shifts divide and round down, on the unsigned or on the signed value,
  and \<open>LUI\<close> multiplies modulo \<open>2 ^ 32\<close>.\<close>

theorem execute_op_exact:
  assumes "execute_op_defined e"
  shows "(rs_op e = Op_ADD \<longrightarrow> sint (execute_op fe e) = sint (rs_vj e) + sint (rs_vk e)) \<and>
     (rs_op e = Op_SUB \<longrightarrow> sint (execute_op fe e) = sint (rs_vj e) - sint (rs_vk e)) \<and>
     (rs_op e \<in> {Op_ADDI, Op_LW, Op_FLW, Op_SW, Op_FSW} \<longrightarrow>
        sint (execute_op fe e) = sint (rs_vj e) + sint (rs_imm e)) \<and>
     (rs_op e = Op_JALR \<longrightarrow> sint (execute_op fe e) = 2 * ((sint (rs_vj e) + sint (rs_imm e)) div 2)) \<and>
     (rs_op e = Op_SLL \<longrightarrow> uint (execute_op fe e) = sint (rs_vj e) * 2 ^ unat (rs_vk e AND 0x1F)) \<and>
     (rs_op e = Op_SLLI \<longrightarrow> uint (execute_op fe e) = sint (rs_vj e) * 2 ^ unat (rs_imm e AND 0x1F)) \<and>
     (rs_op e = Op_SRL \<longrightarrow> uint (execute_op fe e) = uint (rs_vj e) div 2 ^ unat (rs_vk e AND 0x1F)) \<and>
     (rs_op e = Op_SRLI \<longrightarrow> uint (execute_op fe e) = uint (rs_vj e) div 2 ^ unat (rs_imm e AND 0x1F)) \<and>
     (rs_op e = Op_SRA \<longrightarrow> sint (execute_op fe e) = sint (rs_vj e) div 2 ^ unat (rs_vk e AND 0x1F)) \<and>
     (rs_op e = Op_LUI \<longrightarrow> uint (execute_op fe e) = uint (rs_imm e) * 2 ^ 12 mod 2 ^ 32) \<and>
     (rs_op e = Op_FCVT_W_S \<longrightarrow> sint (execute_op fe e) = f_trunc (bits_to_float (rs_vj e)))"
proof -
  have lui: "uint (push_bit 12 w) = uint w * 2 ^ 12 mod 2 ^ 32" for w :: u32
    by (simp only: unsigned_push_bit_eq) (simp add: push_bit_eq_mult take_bit_eq_mod)
  have cvt: "sint (int32_of_float fe f) = f_trunc f" if "f_exp f \<noteq> 255" "fits_i32 (f_trunc f)" for f
    using that sint_of_fits [OF that(2)] by (simp add: int32_of_float_def fits_i32_def)
  have jalr: "sint (word_of_int x AND NOT 1 :: u32) = 2 * (x div 2)" if "fits_i32 x" for x
    using sint_clear_bit0 [of "word_of_int x"] sint_of_fits [OF that] by simp
  show ?thesis
    using assms
    by (cases "rs_op e") (simp_all add: execute_op_defined_def execute_op_def Let_def sint_of_fits
        uint_push_fits jalr [simplified] sint_shift_right uint_shift_right lui cvt del: of_int_add of_int_diff)
qed

text \<open>\<open>JALR\<close> to the address 11 - 4, and the conversion of -7.75.\<close>

theorem execute_op_exact_witness:
  "sint (execute_op x86_env (empty_rs_entry\<lparr>rs_op := Op_JALR, rs_vj := 11, rs_imm := -4\<rparr>)) = 6 \<and>
   sint (execute_op x86_env (empty_rs_entry\<lparr>rs_op := Op_FCVT_W_S, rs_vj := 0xC0F80000\<rparr>)) = -7"
proof -
  have "f_exp (Float32 0xC0F80000) = 129" "f_trunc (Float32 0xC0F80000) = -7" by code_simp+
  then show ?thesis
    using execute_op_exact [of "empty_rs_entry\<lparr>rs_op := Op_JALR, rs_vj := 11, rs_imm := -4\<rparr>" x86_env]
      execute_op_exact [of "empty_rs_entry\<lparr>rs_op := Op_FCVT_W_S, rs_vj := 0xC0F80000\<rparr>" x86_env]
    by (simp add: execute_op_defined_def fits_i32_def bits_to_float_def)
qed

end
