(* ===== verification/Load_Store_Buffer.thy ===== *)
theory Load_Store_Buffer
  imports Dispatch_Utils Cdb
begin

text \<open>
  \<open>load_store_buffer.h\<close>, \<open>load_store_buffer.cpp\<close>: the circular queue of memory operations.
  Loads read memory (or an older store of the queue) in \<open>tick\<close>; stores write memory only when
  the commit unit retires them. The abstract view is the list of occupied slots in program
  order (\<open>lsb_list\<close>); each pass of \<open>tick\<close> is shown to be a function of that list.
\<close>

section \<open>State\<close>

datatype lsb_state = LSB_IDLE | LSB_WAITING | LSB_ADDR_READY | LSB_EXECUTING | LSB_DONE

record lsb_entry =
  l_state :: lsb_state
  l_op :: opcode
  l_rob_tag :: int
  l_vj :: u32
  l_vk :: u32
  l_qj :: int
  l_qk :: int
  l_imm :: i32
  l_rd_fp :: bool
  l_eff_addr :: u32
  l_cycles_rem :: int
  l_result :: u32
  l_pc :: u32

definition empty_lsb_entry :: lsb_entry where
  "empty_lsb_entry = \<lparr>l_state = LSB_IDLE, l_op = Op_NOP, l_rob_tag = -1, l_vj = 0, l_vk = 0,
     l_qj = -1, l_qk = -1, l_imm = 0, l_rd_fp = False, l_eff_addr = 0, l_cycles_rem = 0,
     l_result = 0, l_pc = 0\<rparr>"

record lsb =
  lsb_size :: nat
  lsb_head :: nat
  lsb_tail :: nat
  lsb_count :: nat
  lsb_entries :: "lsb_entry list"

definition new_lsb :: "int \<Rightarrow> lsb res" where
  "new_lsb sz = res_bind (res_assert (1 \<le> sz) Assert_lsb_size)
     (\<lambda>_. Inr \<lparr>lsb_size = nat sz, lsb_head = 0, lsb_tail = 0, lsb_count = 0,
               lsb_entries = replicate (nat sz) empty_lsb_entry\<rparr>)"

definition lsb_phys :: "lsb \<Rightarrow> nat \<Rightarrow> nat" where
  "lsb_phys b i = (lsb_head b + i) mod lsb_size b"

definition lsb_full :: "lsb \<Rightarrow> bool" where
  "lsb_full b \<longleftrightarrow> lsb_count b = lsb_size b"

definition lsb_empty :: "lsb \<Rightarrow> bool" where
  "lsb_empty b \<longleftrightarrow> lsb_count b = 0"

section \<open>Issue and snoop\<close>

definition lsb_fill :: "instruction \<Rightarrow> int \<Rightarrow> rat \<Rightarrow> regfile \<Rightarrow> rob \<Rightarrow> lsb_entry \<Rightarrow> lsb_entry res" where
  "lsb_fill instr tag t rf b e =
     res_bind (resolve_operand (in_rs1 instr) False t rf b (l_vj e)) (\<lambda>(vj, qj).
     res_bind (resolve_operand (in_rs2 instr) (in_rs2_fp instr) t rf b (l_vk e)) (\<lambda>(vk, qk).
     Inr (e\<lparr>l_state := LSB_WAITING, l_op := in_op instr, l_rob_tag := tag, l_imm := in_imm instr,
            l_rd_fp := in_rd_fp instr, l_cycles_rem := 0, l_result := 0, l_pc := in_pc instr,
            l_vj := vj, l_qj := qj, l_vk := vk, l_qk := qk\<rparr>)))"

definition lsb_issue ::
    "instruction \<Rightarrow> int \<Rightarrow> rat \<Rightarrow> regfile \<Rightarrow> rob \<Rightarrow> lsb \<Rightarrow> (bool \<times> lsb) res" where
  "lsb_issue instr tag t rf b q =
     (if lsb_full q then Inr (False, q)
      else res_bind (lsb_fill instr tag t rf b (lsb_entries q ! lsb_tail q)) (\<lambda>e.
        Inr (True, q\<lparr>lsb_entries := (lsb_entries q)[lsb_tail q := e],
                     lsb_tail := (lsb_tail q + 1) mod lsb_size q,
                     lsb_count := lsb_count q + 1\<rparr>)))"

text \<open>The loop \<open>for (i = 0; i < count_; ++i)\<close> that rewrites each occupied slot by itself.\<close>

definition lsb_each :: "(lsb_entry \<Rightarrow> lsb_entry) \<Rightarrow> lsb \<Rightarrow> lsb" where
  "lsb_each f q = q\<lparr>lsb_entries :=
     fold (\<lambda>i es. es[lsb_phys q i := f (es ! lsb_phys q i)]) [0..<lsb_count q] (lsb_entries q)\<rparr>"

definition lsb_capture :: "cdb_result \<Rightarrow> lsb_entry \<Rightarrow> lsb_entry" where
  "lsb_capture r e =
     (if l_state e = LSB_IDLE \<or> l_state e = LSB_DONE then e
      else let e1 = (if l_qj e = c_rob_tag r then e\<lparr>l_vj := c_value r, l_qj := -1\<rparr> else e)
           in if l_qk e1 = c_rob_tag r then e1\<lparr>l_vk := c_value r, l_qk := -1\<rparr> else e1)"

definition lsb_snoop :: "cdb \<Rightarrow> lsb \<Rightarrow> lsb" where
  "lsb_snoop c q = fold (\<lambda>r. lsb_each (lsb_capture r)) (cdb_results c) q"

section \<open>Tick\<close>

text \<open>Pass 1: the effective address, once the base register is known.\<close>

definition lsb_pass1 :: "lsb_entry \<Rightarrow> lsb_entry" where
  "lsb_pass1 e =
     (if l_state e \<noteq> LSB_WAITING \<or> l_qj e \<noteq> -1 then e
      else e\<lparr>l_eff_addr := word_of_int (sint (l_vj e) + sint (l_imm e)),
             l_state := LSB_ADDR_READY\<rparr>)"

text \<open>Pass 2: a store is done when its data is known too.\<close>

definition lsb_pass2 :: "lsb_entry \<Rightarrow> lsb_entry" where
  "lsb_pass2 e =
     (if l_state e \<noteq> LSB_ADDR_READY \<or> \<not> is_store (l_op e) \<or> l_qk e \<noteq> -1 then e
      else e\<lparr>l_state := LSB_DONE\<rparr>)"

text \<open>Pass 3, inner loop: \<open>(blocked, fwd_slot)\<close> after scanning the older entries.\<close>

fun lsb_scan :: "u32 \<Rightarrow> (int \<times> lsb_entry) list \<Rightarrow> int \<Rightarrow> bool \<times> int" where
  "lsb_scan addr [] fwd = (False, fwd)"
| "lsb_scan addr ((j, older) # rest) fwd =
     (if \<not> is_store (l_op older) then lsb_scan addr rest fwd
      else if l_state older = LSB_WAITING then (True, -1)
      else if l_eff_addr older \<noteq> addr then lsb_scan addr rest fwd
      else if l_state older = LSB_DONE then lsb_scan addr rest j
      else (True, -1))"

text \<open>The word a load reads: addresses are byte addresses, out-of-range words read as zero.\<close>

definition mem_read :: "u32 list \<Rightarrow> u32 \<Rightarrow> u32" where
  "mem_read mem addr = (let wa = drop_bit 2 addr in
     if unat wa < length mem then mem ! unat wa else 0)"

text \<open>Pass 3: a load with a known address forwards from the youngest older store to the same
  address, waits for an older store that may alias, or starts its memory access.\<close>

definition lsb_pass3_at :: "u32 list \<Rightarrow> lsb \<Rightarrow> nat \<Rightarrow> lsb_entry list \<Rightarrow> lsb_entry list" where
  "lsb_pass3_at mem q i es =
     (let p = lsb_phys q i; e = es ! p in
      if l_state e \<noteq> LSB_ADDR_READY \<or> \<not> is_load (l_op e) then es
      else let (blocked, fwd) =
               lsb_scan (l_eff_addr e) (map (\<lambda>j. (int j, es ! lsb_phys q j)) [0..<i]) (-1) in
        if blocked then es
        else if 0 \<le> fwd then
          es[p := e\<lparr>l_result := l_vk (es ! lsb_phys q (nat fwd)), l_state := LSB_DONE\<rparr>]
        else let lat = latency_of (l_op e) in
          if lat \<le> 1 then es[p := e\<lparr>l_result := mem_read mem (l_eff_addr e), l_state := LSB_DONE\<rparr>]
          else es[p := e\<lparr>l_cycles_rem := lat - 1, l_state := LSB_EXECUTING\<rparr>])"

text \<open>Pass 4: the countdown of executing loads, and the memory read at its end.\<close>

definition lsb_pass4 :: "u32 list \<Rightarrow> lsb_entry \<Rightarrow> lsb_entry" where
  "lsb_pass4 mem e =
     (if l_state e \<noteq> LSB_EXECUTING then e
      else let e1 = e\<lparr>l_cycles_rem := l_cycles_rem e - 1\<rparr> in
        if l_cycles_rem e1 = 0
        then e1\<lparr>l_result := mem_read mem (l_eff_addr e1), l_state := LSB_DONE\<rparr>
        else e1)"

definition lsb_pass3 :: "u32 list \<Rightarrow> lsb \<Rightarrow> lsb" where
  "lsb_pass3 mem q =
     q\<lparr>lsb_entries := fold (lsb_pass3_at mem q) [0..<lsb_count q] (lsb_entries q)\<rparr>"

definition lsb_tick :: "u32 list \<Rightarrow> lsb \<Rightarrow> lsb" where
  "lsb_tick mem q = lsb_each (lsb_pass4 mem) (lsb_pass3 mem (lsb_each lsb_pass2 (lsb_each lsb_pass1 q)))"

section \<open>Retiring loads and stores\<close>

definition lsb_has_load_result :: "lsb \<Rightarrow> bool" where
  "lsb_has_load_result q =
     (if lsb_empty q then False
      else let h = lsb_entries q ! lsb_head q in l_state h = LSB_DONE \<and> is_load (l_op h))"

definition lsb_drop_head :: "lsb \<Rightarrow> lsb" where
  "lsb_drop_head q = q\<lparr>lsb_entries := (lsb_entries q)[lsb_head q := empty_lsb_entry],
     lsb_head := (lsb_head q + 1) mod lsb_size q, lsb_count := lsb_count q - 1\<rparr>"

definition lsb_pop_load_result :: "lsb \<Rightarrow> (lsb_entry \<times> lsb) res" where
  "lsb_pop_load_result q = res_bind (res_assert (lsb_has_load_result q) Assert_lsb_load)
     (\<lambda>_. Inr (lsb_entries q ! lsb_head q, lsb_drop_head q))"

definition lsb_can_commit_store :: "lsb \<Rightarrow> bool" where
  "lsb_can_commit_store q =
     (if lsb_empty q then False
      else let h = lsb_entries q ! lsb_head q in l_state h = LSB_DONE \<and> is_store (l_op h))"

definition mem_write :: "u32 list \<Rightarrow> u32 \<Rightarrow> u32 \<Rightarrow> u32 list" where
  "mem_write mem addr v = (let wa = drop_bit 2 addr in
     if unat wa < length mem then mem[unat wa := v] else mem)"

definition lsb_commit_store :: "u32 list \<Rightarrow> lsb \<Rightarrow> (u32 list \<times> lsb) res" where
  "lsb_commit_store mem q = res_bind (res_assert (lsb_can_commit_store q) Assert_lsb_store)
     (\<lambda>_. let h = lsb_entries q ! lsb_head q
          in Inr (mem_write mem (l_eff_addr h) (l_vk h), lsb_drop_head q))"

definition lsb_update_rob :: "lsb \<Rightarrow> rob \<Rightarrow> rob res" where
  "lsb_update_rob q b = res_fold (\<lambda>i b.
     let e = lsb_entries q ! lsb_phys q i in
     if is_store (l_op e) \<and> l_state e = LSB_DONE then
       res_bind (rob_peek (l_rob_tag e) b) (\<lambda>re.
         if r_state re = ROB_IN_FLIGHT then rob_write_result (l_rob_tag e) 0 b else Inr b)
     else Inr b) [0..<lsb_count q] b"

definition lsb_flush :: "lsb \<Rightarrow> lsb" where
  "lsb_flush q = q\<lparr>lsb_entries := replicate (lsb_size q) empty_lsb_entry,
                   lsb_head := 0, lsb_tail := 0, lsb_count := 0\<rparr>"

section \<open>Well-formedness and the abstract view\<close>

definition lsb_wf :: "lsb \<Rightarrow> bool" where
  "lsb_wf q \<longleftrightarrow> 0 < lsb_size q \<and> length (lsb_entries q) = lsb_size q \<and>
     lsb_head q < lsb_size q \<and> lsb_count q \<le> lsb_size q \<and>
     lsb_tail q = (lsb_head q + lsb_count q) mod lsb_size q"

definition lsb_list :: "lsb \<Rightarrow> lsb_entry list" where
  "lsb_list q = ring_list (lsb_entries q) (lsb_head q) (lsb_count q)"

lemma length_lsb_list [simp]: "length (lsb_list q) = lsb_count q"
  by (simp add: lsb_list_def)

lemma lsb_entry_at:
  "lsb_wf q \<Longrightarrow> i < lsb_count q \<Longrightarrow> lsb_entries q ! lsb_phys q i = lsb_list q ! i"
  by (simp add: lsb_wf_def lsb_phys_def lsb_list_def)

lemma new_lsb_wf: "new_lsb n = Inr q \<Longrightarrow> lsb_wf q \<and> lsb_list q = [] \<and> lsb_size q = nat n"
  by (auto simp: new_lsb_def lsb_wf_def lsb_list_def)

lemma lsb_flush_wf: "lsb_wf q \<Longrightarrow> lsb_wf (lsb_flush q) \<and> lsb_list (lsb_flush q) = []"
  by (auto simp: lsb_flush_def lsb_wf_def lsb_list_def)

subsection \<open>Issue\<close>

lemma lsb_issue_full: "lsb_full q \<Longrightarrow> lsb_issue i tag t rf b q = Inr (False, q)"
  by (simp add: lsb_issue_def)

lemma lsb_issue_free:
  assumes "lsb_wf q" and "\<not> lsb_full q" and "lsb_fill i tag t rf b (lsb_entries q ! lsb_tail q) = Inr e"
  obtains q' where "lsb_issue i tag t rf b q = Inr (True, q')" and "lsb_wf q'"
    and "lsb_list q' = lsb_list q @ [e]" and "lsb_size q' = lsb_size q"
    and "lsb_count q' = Suc (lsb_count q)"
proof
  let ?q = "q\<lparr>lsb_entries := (lsb_entries q)[lsb_tail q := e],
     lsb_tail := (lsb_tail q + 1) mod lsb_size q, lsb_count := lsb_count q + 1\<rparr>"
  have c: "lsb_count q < length (lsb_entries q)"
    and t: "lsb_tail q = (lsb_head q + lsb_count q) mod length (lsb_entries q)"
    using assms by (auto simp: lsb_wf_def lsb_full_def)
  show "lsb_issue i tag t rf b q = Inr (True, ?q)"
    using assms by (simp add: lsb_issue_def)
  show "lsb_wf ?q"
    using assms by (auto simp: lsb_wf_def lsb_full_def mod_simps)
  show "lsb_list ?q = lsb_list q @ [e]"
    using ring_list_push [OF c, of "lsb_head q" e] t by (simp add: lsb_list_def)
qed simp_all

subsection \<open>Loops over the entries\<close>

lemma lsb_each_fields [simp]:
  "lsb_size (lsb_each f q) = lsb_size q" "lsb_head (lsb_each f q) = lsb_head q"
  "lsb_tail (lsb_each f q) = lsb_tail q" "lsb_count (lsb_each f q) = lsb_count q"
  by (simp_all add: lsb_each_def)

lemma lsb_each_ring_map:
  "lsb_wf q \<Longrightarrow> lsb_entries (lsb_each f q) = ring_map f (lsb_head q) (lsb_count q) (lsb_entries q)"
  by (simp add: lsb_each_def ring_map_def lsb_phys_def lsb_wf_def)

lemma lsb_each_wf [simp]: "lsb_wf q \<Longrightarrow> lsb_wf (lsb_each f q)"
  by (simp add: lsb_wf_def lsb_each_def length_fold_update)

lemma lsb_list_each [simp]: "lsb_wf q \<Longrightarrow> lsb_list (lsb_each f q) = map f (lsb_list q)"
  by (simp add: lsb_list_def lsb_each_ring_map) (simp add: lsb_wf_def)

lemma lsb_snoop_props:
  assumes "lsb_wf q"
  shows "lsb_wf (lsb_snoop c q) \<and> lsb_size (lsb_snoop c q) = lsb_size q \<and>
     lsb_count (lsb_snoop c q) = lsb_count q \<and>
     lsb_list (lsb_snoop c q) = map (fold lsb_capture (cdb_results c)) (lsb_list q)"
proof -
  have "lsb_wf (fold (\<lambda>r. lsb_each (lsb_capture r)) rs q) \<and>
      lsb_size (fold (\<lambda>r. lsb_each (lsb_capture r)) rs q) = lsb_size q \<and>
      lsb_count (fold (\<lambda>r. lsb_each (lsb_capture r)) rs q) = lsb_count q \<and>
      lsb_list (fold (\<lambda>r. lsb_each (lsb_capture r)) rs q) = map (fold lsb_capture rs) (lsb_list q)"
    for rs using assms by (induction rs arbitrary: q) (simp_all add: comp_def)
  then show ?thesis by (simp add: lsb_snoop_def)
qed

subsection \<open>Removing the head\<close>

lemma lsb_list_Cons:
  assumes "lsb_wf q" and "lsb_count q = Suc n"
  shows "lsb_list q = lsb_entries q ! lsb_head q
     # ring_list (lsb_entries q) (Suc (lsb_head q) mod length (lsb_entries q)) n"
proof -
  have "lsb_entries q \<noteq> []" using assms by (auto simp: lsb_wf_def)
  then show ?thesis
    using assms ring_list_Suc [of "lsb_entries q" "lsb_head q" n]
    by (simp add: lsb_list_def lsb_wf_def)
qed

lemma lsb_drop_head_props:
  assumes "lsb_wf q" and "lsb_list q = e # es"
  shows "lsb_wf (lsb_drop_head q) \<and> lsb_list (lsb_drop_head q) = es \<and>
     lsb_size (lsb_drop_head q) = lsb_size q \<and> lsb_count (lsb_drop_head q) = lsb_count q - 1"
proof -
  obtain n where n: "lsb_count q = Suc n"
    using assms(2) length_lsb_list [of q] by (metis length_Cons)
  have h: "lsb_head q < length (lsb_entries q)" and c: "n < length (lsb_entries q)"
    using assms(1) n by (auto simp: lsb_wf_def)
  have "es = ring_list (lsb_entries q) (Suc (lsb_head q) mod length (lsb_entries q)) n"
    using assms lsb_list_Cons [OF assms(1) n] by simp
  then have "lsb_list (lsb_drop_head q) = es"
    using ring_list_pop [OF h c, of empty_lsb_entry] n assms(1)
    by (simp add: lsb_list_def lsb_drop_head_def lsb_wf_def)
  moreover have "lsb_wf (lsb_drop_head q)"
    using assms(1) n by (auto simp: lsb_wf_def lsb_drop_head_def mod_simps)
  ultimately show ?thesis by (simp add: lsb_drop_head_def)
qed

lemma lsb_head_entry: "lsb_wf q \<Longrightarrow> lsb_list q = e # es \<Longrightarrow> lsb_entries q ! lsb_head q = e"
  using lsb_list_Cons [of q "length es"] length_lsb_list [of q] by simp

lemma lsb_has_load_result_iff:
  assumes "lsb_wf q"
  shows "lsb_has_load_result q \<longleftrightarrow>
     (\<exists>e es. lsb_list q = e # es \<and> l_state e = LSB_DONE \<and> is_load (l_op e))"
  using assms lsb_head_entry [OF assms] lsb_list_Cons [OF assms]
  by (cases "lsb_count q") (auto simp: lsb_has_load_result_def lsb_empty_def lsb_list_def Let_def)

lemma lsb_can_commit_store_iff:
  assumes "lsb_wf q"
  shows "lsb_can_commit_store q \<longleftrightarrow>
     (\<exists>e es. lsb_list q = e # es \<and> l_state e = LSB_DONE \<and> is_store (l_op e))"
  using assms lsb_head_entry [OF assms] lsb_list_Cons [OF assms]
  by (cases "lsb_count q") (auto simp: lsb_can_commit_store_def lsb_empty_def lsb_list_def
      Let_def)

lemma lsb_pop_load_result_head:
  assumes "lsb_wf q" and "lsb_list q = e # es" and "l_state e = LSB_DONE" and "is_load (l_op e)"
  shows "lsb_pop_load_result q = Inr (e, lsb_drop_head q)"
  using assms lsb_head_entry [OF assms(1,2)]
  by (auto simp: lsb_pop_load_result_def lsb_has_load_result_iff)

lemma lsb_commit_store_head:
  assumes "lsb_wf q" and "lsb_list q = e # es" and "l_state e = LSB_DONE" and "is_store (l_op e)"
  shows "lsb_commit_store mem q = Inr (mem_write mem (l_eff_addr e) (l_vk e), lsb_drop_head q)"
  using assms lsb_head_entry [OF assms(1,2)]
  by (auto simp: lsb_commit_store_def lsb_can_commit_store_iff Let_def)

section \<open>Forwarding\<close>

text \<open>The scan of the older entries: a load waits exactly when an older store has no address yet,
  or has the load's address and no data yet; otherwise the slot it forwards from is the youngest
  older store to its address.\<close>

definition blocks :: "u32 \<Rightarrow> lsb_entry \<Rightarrow> bool" where
  "blocks addr s \<longleftrightarrow> is_store (l_op s) \<and>
     (l_state s = LSB_WAITING \<or> (l_eff_addr s = addr \<and> l_state s \<noteq> LSB_DONE))"

definition aliases :: "u32 \<Rightarrow> lsb_entry \<Rightarrow> bool" where
  "aliases addr s \<longleftrightarrow> is_store (l_op s) \<and> l_eff_addr s = addr"

lemma lsb_scan_blocked:
  "fst (lsb_scan addr xs fwd) \<longleftrightarrow> (\<exists>s \<in> snd ` set xs. blocks addr s)"
  by (induction addr xs fwd rule: lsb_scan.induct) (auto simp: blocks_def)

lemma lsb_scan_blocked_fwd: "fst (lsb_scan addr xs fwd) \<Longrightarrow> snd (lsb_scan addr xs fwd) = -1"
  by (induction addr xs fwd rule: lsb_scan.induct) (auto split: if_splits)

lemma lsb_scan_free:
  assumes "\<not> fst (lsb_scan addr xs fwd)"
  shows "snd (lsb_scan addr xs fwd) =
     (let al = filter (\<lambda>x. aliases addr (snd x)) xs in if al = [] then fwd else fst (last al))"
  using assms
  by (induction addr xs fwd rule: lsb_scan.induct) (auto simp: aliases_def Let_def split: if_splits)

text \<open>The value of a load that is not blocked, as a function of the older entries and memory.\<close>

definition load_value :: "u32 list \<Rightarrow> lsb_entry list \<Rightarrow> u32 \<Rightarrow> u32" where
  "load_value mem older addr =
     (let al = filter (aliases addr) older in if al = [] then mem_read mem addr else l_vk (last al))"

lemma filter_conv_nth:
  "filter P xs = map ((!) xs) (filter (\<lambda>j. P (xs ! j)) [0..<length xs])"
proof -
  have "filter P xs = filter P (map ((!) xs) [0..<length xs])" by (simp add: map_nth)
  then show ?thesis by (simp add: filter_map comp_def)
qed

lemma last_filter_nth:
  assumes "filter P xs \<noteq> []"
  shows "last (filter (\<lambda>j. P (xs ! j)) [0..<length xs]) < length xs \<and>
     xs ! last (filter (\<lambda>j. P (xs ! j)) [0..<length xs]) = last (filter P xs)"
proof -
  let ?js = "filter (\<lambda>j. P (xs ! j)) [0..<length xs]"
  have ne: "?js \<noteq> []" using assms filter_conv_nth [of P xs] by auto
  then have "last ?js \<in> set ?js" by (rule last_in_set)
  then show ?thesis using filter_conv_nth [of P xs] ne by (simp add: last_map)
qed

lemma lsb_scan_enumerate:
  assumes "\<not> (\<exists>s \<in> set older. blocks addr s)"
  shows "lsb_scan addr (map (\<lambda>j. (int j, older ! j)) [0..<length older]) (-1)
    = (False, if filter (aliases addr) older = [] then -1
              else int (last (filter (\<lambda>j. aliases addr (older ! j)) [0..<length older])))"
proof -
  let ?xs = "map (\<lambda>j. (int j, older ! j)) [0..<length older]"
  let ?js = "filter (\<lambda>j. aliases addr (older ! j)) [0..<length older]"
  have "map snd ?xs = older" by (simp add: comp_def map_nth)
  then have "snd ` set ?xs = set older" by (metis set_map)
  then have nb: "\<not> fst (lsb_scan addr ?xs (-1))"
    using assms by (simp add: lsb_scan_blocked)
  have al: "filter (\<lambda>x. aliases addr (snd x)) ?xs = map (\<lambda>j. (int j, older ! j)) ?js"
    by (simp add: filter_map comp_def)
  have ne: "?js = [] \<longleftrightarrow> filter (aliases addr) older = []"
    using filter_conv_nth [of "aliases addr" older] by auto
  show ?thesis
    using lsb_scan_free [OF nb] nb al ne
    by (cases "lsb_scan addr ?xs (-1)") (auto simp: Let_def last_map)
qed

text \<open>One load step over the list of older entries.\<close>

definition load_step :: "u32 list \<Rightarrow> lsb_entry list \<Rightarrow> lsb_entry \<Rightarrow> lsb_entry" where
  "load_step mem older e =
     (if l_state e \<noteq> LSB_ADDR_READY \<or> \<not> is_load (l_op e) then e
      else if \<exists>s \<in> set older. blocks (l_eff_addr e) s then e
      else if filter (aliases (l_eff_addr e)) older \<noteq> []
      then e\<lparr>l_result := load_value mem older (l_eff_addr e), l_state := LSB_DONE\<rparr>
      else e\<lparr>l_cycles_rem := 1, l_state := LSB_EXECUTING\<rparr>)"

lemma load_step_op [simp]: "l_op (load_step mem older e) = l_op e"
  by (simp add: load_step_def)

lemma load_step_nonload: "\<not> is_load (l_op e) \<Longrightarrow> load_step mem older e = e"
  by (simp add: load_step_def)

lemma load_step_store: "is_store (l_op e) \<Longrightarrow> load_step mem older e = e"
  using load_not_store by (auto simp: load_step_def)

text \<open>Only the stores among the older entries matter.\<close>

lemma load_step_stores:
  assumes "filter (\<lambda>s. is_store (l_op s)) xs = filter (\<lambda>s. is_store (l_op s)) ys"
  shows "load_step mem xs e = load_step mem ys e"
proof -
  have f: "filter (aliases a) zs = filter (\<lambda>s. l_eff_addr s = a) (filter (\<lambda>s. is_store (l_op s)) zs)"
    for a zs by (induction zs) (simp_all add: aliases_def)
  have b: "(\<exists>s \<in> set zs. blocks a s) \<longleftrightarrow> (\<exists>s \<in> set (filter (\<lambda>s. is_store (l_op s)) zs). blocks a s)"
    for a zs by (auto simp: blocks_def)
  have "filter (aliases a) xs = filter (aliases a) ys" for a
    using assms by (simp add: f)
  moreover have "(\<exists>s \<in> set xs. blocks a s) \<longleftrightarrow> (\<exists>s \<in> set ys. blocks a s)" for a
    using assms b [of xs a] b [of ys a] by simp
  ultimately show ?thesis
    by (simp add: load_step_def load_value_def)
qed

lemma lsb_pass3_at_step:
  assumes "length es = lsb_size q" and "0 < lsb_size q" and "i < lsb_size q"
  shows "lsb_pass3_at mem q i es =
     es[lsb_phys q i := load_step mem (map (\<lambda>j. es ! lsb_phys q j) [0..<i]) (es ! lsb_phys q i)]"
proof -
  let ?p = "lsb_phys q i" and ?older = "map (\<lambda>j. es ! lsb_phys q j) [0..<i]"
  let ?e = "es ! ?p" and ?xs = "map (\<lambda>j. (int j, es ! lsb_phys q j)) [0..<i]"
  have xs: "?xs = map (\<lambda>j. (int j, ?older ! j)) [0..<length ?older]" by simp
  have blk: "fst (lsb_scan a ?xs (-1)) \<longleftrightarrow> (\<exists>s \<in> set ?older. blocks a s)" for a
    by (simp add: lsb_scan_blocked image_image)
  have lat: "is_load (l_op ?e) \<Longrightarrow> latency_of (l_op ?e) = 2" by (simp add: latency_mem)
  show ?thesis
  proof (cases "l_state ?e \<noteq> LSB_ADDR_READY \<or> \<not> is_load (l_op ?e) \<or>
      (\<exists>s \<in> set ?older. blocks (l_eff_addr ?e) s)")
    case True
    then have "lsb_pass3_at mem q i es = es"
      using blk [of "l_eff_addr ?e"] by (auto simp: lsb_pass3_at_def Let_def split: prod.splits)
    moreover have "load_step mem ?older ?e = ?e" using True by (auto simp: load_step_def)
    ultimately show ?thesis by simp
  next
    case False
    then have scan: "lsb_scan (l_eff_addr ?e) ?xs (-1) = (False,
        if filter (aliases (l_eff_addr ?e)) ?older = [] then -1
        else int (last (filter (\<lambda>j. aliases (l_eff_addr ?e) (?older ! j)) [0..<length ?older])))"
      using lsb_scan_enumerate [of ?older "l_eff_addr ?e"] xs by metis
    show ?thesis
    proof (cases "filter (aliases (l_eff_addr ?e)) ?older = []")
      case True
      with False scan lat show ?thesis
        by (simp add: lsb_pass3_at_def Let_def load_step_def)
    next
      case nonempty: False
      let ?j = "last (filter (\<lambda>j. aliases (l_eff_addr ?e) (?older ! j)) [0..<length ?older])"
      have "?j < i" and "es ! lsb_phys q ?j = last (filter (aliases (l_eff_addr ?e)) ?older)"
        using last_filter_nth [OF nonempty] by auto
      then show ?thesis
        using False scan nonempty
        by (simp add: lsb_pass3_at_def Let_def load_step_def load_value_def)
    qed
  qed
qed

section \<open>The tick as a function of the list\<close>

text \<open>No entry's step depends on what the pass did to the others: pass 3 changes loads only, and
  only stores are looked at.\<close>

lemma lsb_pass3_fields [simp]:
  "lsb_size (lsb_pass3 mem q) = lsb_size q" "lsb_head (lsb_pass3 mem q) = lsb_head q"
  "lsb_tail (lsb_pass3 mem q) = lsb_tail q" "lsb_count (lsb_pass3 mem q) = lsb_count q"
  by (simp_all add: lsb_pass3_def)

lemma length_lsb_pass3_at [simp]: "length (lsb_pass3_at mem q i es) = length es"
  by (simp add: lsb_pass3_at_def Let_def split: prod.splits)

lemma ring_list_phys:
  "length es = lsb_size q \<Longrightarrow>
     map (\<lambda>j. es ! lsb_phys q j) [0..<i] = ring_list es (lsb_head q) i"
  by (simp add: ring_list_def lsb_phys_def)

lemma ring_list_take: "i \<le> n \<Longrightarrow> take i (ring_list es h n) = ring_list es h i"
  by (simp add: ring_list_def take_map)

definition steps_upto :: "u32 list \<Rightarrow> lsb_entry list \<Rightarrow> nat \<Rightarrow> lsb_entry list" where
  "steps_upto mem L n = map (\<lambda>i. if i < n then load_step mem (take i L) (L ! i) else L ! i) [0..<length L]"

lemma steps_upto_stores:
  assumes "i \<le> length L"
  shows "filter (\<lambda>s. is_store (l_op s)) (take i (steps_upto mem L n))
       = filter (\<lambda>s. is_store (l_op s)) (take i L)"
  using assms
proof (induction i)
  case (Suc i)
  then have "filter (\<lambda>s. is_store (l_op s)) [steps_upto mem L n ! i]
           = filter (\<lambda>s. is_store (l_op s)) [L ! i]"
    by (simp add: steps_upto_def load_step_store)
  with Suc show ?case
    by (simp add: take_Suc_conv_app_nth steps_upto_def)
qed simp

lemma lsb_pass3_upto:
  assumes "lsb_wf q" and "n \<le> lsb_count q"
  shows "length (fold (lsb_pass3_at mem q) [0..<n] (lsb_entries q)) = lsb_size q \<and>
     ring_list (fold (lsb_pass3_at mem q) [0..<n] (lsb_entries q)) (lsb_head q) (lsb_count q)
       = steps_upto mem (lsb_list q) n"
  using assms(2)
proof (induction n)
  case 0
  then show ?case
    using assms(1) by (auto simp: steps_upto_def lsb_wf_def lsb_list_def intro!: nth_equalityI)
next
  case (Suc n)
  let ?es = "fold (lsb_pass3_at mem q) [0..<n] (lsb_entries q)" and ?L = "lsb_list q"
  let ?c = "lsb_count q" and ?h = "lsb_head q"
  have len: "length ?es = lsb_size q" and IH: "ring_list ?es ?h ?c = steps_upto mem ?L n"
    using Suc by auto
  have n: "n < ?c" "?c \<le> lsb_size q" "0 < lsb_size q" using Suc.prems assms(1) by (auto simp: lsb_wf_def)
  have older: "map (\<lambda>j. ?es ! lsb_phys q j) [0..<n] = take n (steps_upto mem ?L n)"
    using IH n by (simp add: ring_list_phys [OF len] ring_list_take [symmetric, of n ?c])
  have at: "?es ! lsb_phys q n = ?L ! n"
  proof -
    have "?es ! lsb_phys q n = ring_list ?es ?h ?c ! n" using n len by (simp add: lsb_phys_def)
    also have "\<dots> = ?L ! n" using IH n by (simp add: steps_upto_def)
    finally show ?thesis .
  qed
  have step: "lsb_pass3_at mem q n ?es = ?es[lsb_phys q n := load_step mem (take n ?L) (?L ! n)]"
    using lsb_pass3_at_step [OF len, of n mem] n older at
      load_step_stores [OF steps_upto_stores [of n ?L mem n]] by simp
  have "ring_list (lsb_pass3_at mem q n ?es) ?h ?c
      = (steps_upto mem ?L n)[n := load_step mem (take n ?L) (?L ! n)]"
    using ring_list_update [of n ?c ?es ?h] n len IH step by (simp add: lsb_phys_def)
  also have "\<dots> = steps_upto mem ?L (Suc n)"
    using n by (auto simp: steps_upto_def nth_list_update less_Suc_eq intro!: nth_equalityI)
  finally show ?case using len by simp
qed

lemma lsb_pass3_list:
  assumes "lsb_wf q"
  shows "lsb_wf (lsb_pass3 mem q) \<and>
     lsb_list (lsb_pass3 mem q) = map (\<lambda>i. load_step mem (take i (lsb_list q)) (lsb_list q ! i))
       [0..<lsb_count q]"
  using lsb_pass3_upto [OF assms order_refl, of mem] assms
  by (auto simp: lsb_wf_def lsb_list_def lsb_pass3_def steps_upto_def)

text \<open>The entries after the first two passes, and the whole tick.\<close>

definition resolved :: "lsb_entry \<Rightarrow> lsb_entry" where
  "resolved e = lsb_pass2 (lsb_pass1 e)"

theorem lsb_tick_list:
  assumes "lsb_wf q"
  shows "lsb_wf (lsb_tick mem q) \<and> lsb_size (lsb_tick mem q) = lsb_size q \<and>
     lsb_count (lsb_tick mem q) = lsb_count q \<and>
     lsb_list (lsb_tick mem q) = (let L = map resolved (lsb_list q) in
       map (\<lambda>i. lsb_pass4 mem (load_step mem (take i L) (L ! i))) [0..<length L])"
proof -
  let ?q = "lsb_each lsb_pass2 (lsb_each lsb_pass1 q)"
  have wf: "lsb_wf ?q" using assms by simp
  have L: "lsb_list ?q = map resolved (lsb_list q)"
    using assms by (simp add: resolved_def comp_def)
  show ?thesis
    using lsb_pass3_list [OF wf, of mem] L
    by (simp add: lsb_tick_def Let_def comp_def)
qed

section \<open>The contracts\<close>

definition lsb_static :: "lsb_entry \<Rightarrow> lsb_state \<times> opcode \<times> int \<times> i32 \<times> bool \<times> u32 \<times> int \<times> u32 \<times> u32" where
  "lsb_static e = (l_state e, l_op e, l_rob_tag e, l_imm e, l_rd_fp e, l_eff_addr e,
     l_cycles_rem e, l_result e, l_pc e)"

interpretation lsb_listener: cdb_listener "\<lambda>e. l_state e \<noteq> LSB_IDLE \<and> l_state e \<noteq> LSB_DONE"
  l_qj l_qk l_vj l_vk lsb_static lsb_capture
  by unfold_locales (auto simp: lsb_capture_def lsb_static_def Let_def)

lemma lsb_capture_static [simp]:
  "l_state (fold lsb_capture rs e) = l_state e" "l_op (fold lsb_capture rs e) = l_op e"
  "l_rob_tag (fold lsb_capture rs e) = l_rob_tag e" "l_imm (fold lsb_capture rs e) = l_imm e"
  "l_eff_addr (fold lsb_capture rs e) = l_eff_addr e" "l_result (fold lsb_capture rs e) = l_result e"
  "l_pc (fold lsb_capture rs e) = l_pc e"
  using lsb_listener.fold_rest [of rs e] by (simp_all add: lsb_static_def)

text \<open>Memory operations leave the buffer in the order they entered it: loads when their result is
  broadcast, stores when they commit.\<close>

definition lsb_enq :: "instruction \<times> int \<times> rat \<times> regfile \<times> rob \<Rightarrow> lsb \<Rightarrow> lsb res" where
  "lsb_enq x q = (case x of (i, tag, t, rf, b) \<Rightarrow>
     res_bind (lsb_issue i tag t rf b q) (\<lambda>(_, q'). Inr q'))"

definition lsb_retire :: "u32 list \<Rightarrow> lsb \<Rightarrow> (lsb_entry \<times> lsb) res" where
  "lsb_retire mem q =
     (if lsb_has_load_result q then lsb_pop_load_result q
      else res_bind (lsb_commit_store mem q) (\<lambda>(_, q'). Inr (lsb_entries q ! lsb_head q, q')))"

definition lsb_update :: "u32 list + cdb \<Rightarrow> lsb \<Rightarrow> lsb res" where
  "lsb_update u q = (case u of Inl mem \<Rightarrow> Inr (lsb_tick mem q) | Inr c \<Rightarrow> Inr (lsb_snoop c q))"

definition lsb_key :: "lsb_entry \<Rightarrow> opcode \<times> int \<times> u32" where
  "lsb_key e = (l_op e, l_rob_tag e, l_pc e)"

definition lsb_ikey :: "instruction \<times> int \<times> rat \<times> regfile \<times> rob \<Rightarrow> opcode \<times> int \<times> u32" where
  "lsb_ikey x = (case x of (i, tag, _) \<Rightarrow> (in_op i, tag, in_pc i))"

lemma lsb_tick_entry_key: "lsb_key (lsb_pass4 mem (load_step mem older (resolved e))) = lsb_key e"
  by (simp add: lsb_key_def lsb_pass4_def load_step_def resolved_def lsb_pass2_def lsb_pass1_def Let_def)

lemma lsb_tick_keys: "lsb_wf q \<Longrightarrow> map lsb_key (lsb_list (lsb_tick mem q)) = map lsb_key (lsb_list q)"
  by (auto simp: lsb_tick_list Let_def lsb_tick_entry_key intro!: nth_equalityI)

lemma lsb_retire_head:
  assumes "lsb_wf q" and "lsb_retire mem q = Inr (e, q')"
  shows "lsb_list q = e # lsb_list q' \<and> lsb_wf q' \<and> lsb_size q' = lsb_size q"
proof -
  have "lsb_has_load_result q \<or> lsb_can_commit_store q"
    using assms(2) by (auto simp: lsb_retire_def lsb_commit_store_def split: if_splits)
  then obtain x xs where x: "lsb_list q = x # xs"
    using assms(1) by (auto simp: lsb_has_load_result_iff lsb_can_commit_store_iff)
  moreover have "e = x" "q' = lsb_drop_head q"
    using assms lsb_head_entry [OF assms(1) x]
    by (auto simp: lsb_retire_def lsb_pop_load_result_def lsb_commit_store_def Let_def split: if_splits)
  ultimately show ?thesis
    using lsb_drop_head_props [OF assms(1) x] by simp
qed

lemma lsb_fill_key:
  "lsb_fill i tag t rf b e = Inr e' \<Longrightarrow> lsb_key e' = (in_op i, tag, in_pc i)"
  by (auto simp: lsb_fill_def lsb_key_def split: prod.splits)

interpretation lsb_fifo: fifo_queue lsb_wf lsb_list lsb_size lsb_full lsb_empty lsb_flush
  lsb_enq "lsb_retire mem" lsb_update lsb_ikey lsb_key
  for mem
proof (unfold_locales, goal_cases)
  case (1 q)
  then show ?case by (simp add: lsb_wf_def)
next
  case (2 q)
  then show ?case by (simp add: lsb_full_def)
next
  case (3 q)
  then show ?case by (simp add: lsb_empty_def lsb_list_def)
next
  case (4 q)
  then show ?case by (simp add: lsb_flush_wf)
next
  case (5 q)
  then show ?case by (simp add: lsb_flush_wf)
next
  case (6 q)
  then show ?case by (simp add: lsb_flush_def)
next
  case (7 q x q')
  obtain i tag t rf b where x: "x = (i, tag, t, rf, b)" by (cases x) auto
  with 7 obtain e where e: "lsb_fill i tag t rf b (lsb_entries q ! lsb_tail q) = Inr e"
    by (auto simp: lsb_enq_def lsb_issue_def)
  show ?case
    by (rule lsb_issue_free [OF 7(1,2) e])
       (use 7(3) x lsb_fill_key [OF e] in \<open>auto simp: lsb_enq_def lsb_ikey_def\<close>)
next
  case (8 q e q')
  then show ?case using lsb_retire_head by blast
next
  case (9 q u q')
  then show ?case
    using lsb_snoop_props [OF 9(1)] lsb_tick_list [OF 9(1)] lsb_tick_keys [OF 9(1)]
    by (cases u) (auto simp: lsb_update_def lsb_key_def)
qed

section \<open>The queue of stores as a memory\<close>

text \<open>Word-aligned byte addresses inside the memory: on these two addresses denote the same word
  exactly when they are equal, so comparing byte addresses decides aliasing.\<close>

definition mem_addr_ok :: "nat \<Rightarrow> u32 \<Rightarrow> bool" where
  "mem_addr_ok n a \<longleftrightarrow> a mod 4 = 0 \<and> unat (drop_bit 2 a) < n"

lemma length_mem_write [simp]: "length (mem_write mem a v) = length mem"
  by (simp add: mem_write_def Let_def)

lemma mem_addr_inject:
  assumes "mem_addr_ok n a" and "mem_addr_ok n b"
  shows "unat (drop_bit 2 a) = unat (drop_bit 2 b) \<longleftrightarrow> a = b"
proof -
  have d: "drop_bit 2 x = x div 4" for x :: u32 by (simp add: drop_bit_eq_div)
  have "a = b" if "a div 4 = b div 4"
    using that assms mult_div_mod_eq [of 4 a] mult_div_mod_eq [of 4 b] by (simp add: mem_addr_ok_def)
  then show ?thesis by (auto simp: d dest: unsigned_word_eqI)
qed

lemma mem_read_write:
  assumes "mem_addr_ok (length mem) a" and "mem_addr_ok (length mem) b"
  shows "mem_read (mem_write mem a v) b = (if a = b then v else mem_read mem b)"
  using assms mem_addr_inject [OF assms]
  by (auto simp: mem_read_def mem_write_def Let_def mem_addr_ok_def nth_list_update)

text \<open>The memory after the pending stores have been performed in order.\<close>

definition store_into :: "lsb_entry \<Rightarrow> u32 list \<Rightarrow> u32 list" where
  "store_into s mem = (if is_store (l_op s) then mem_write mem (l_eff_addr s) (l_vk s) else mem)"

lemma length_store_into [simp]: "length (store_into s mem) = length mem"
  by (simp add: store_into_def)

lemma length_fold_store_into [simp]: "length (fold store_into ss mem) = length mem"
  by (simp add: length_fold_update)

lemma load_value_fold:
  assumes "mem_addr_ok (length mem) addr"
    and "\<And>s. s \<in> set older \<Longrightarrow> is_store (l_op s) \<Longrightarrow> mem_addr_ok (length mem) (l_eff_addr s)"
  shows "load_value mem older addr = mem_read (fold store_into older mem) addr"
  using assms(2)
proof (induction older rule: rev_induct)
  case Nil
  then show ?case by (simp add: load_value_def)
next
  case (snoc s ss)
  then have IH: "load_value mem ss addr = mem_read (fold store_into ss mem) addr" by simp
  let ?m = "fold store_into ss mem"
  have "load_value mem (ss @ [s]) addr = (if aliases addr s then l_vk s else load_value mem ss addr)"
    by (simp add: load_value_def Let_def)
  moreover have "mem_read (store_into s ?m) addr = (if aliases addr s then l_vk s else mem_read ?m addr)"
    using snoc.prems [of s] assms(1) mem_read_write [of ?m "l_eff_addr s" addr "l_vk s"]
    by (auto simp: store_into_def aliases_def)
  ultimately show ?case using IH by simp
qed

text \<open>A load with a known address is untouched while an older store may alias it, and done with
  its value at the end of the tick otherwise.\<close>

lemma lsb_tick_load:
  assumes "lsb_wf q" and "i < lsb_count q" and "l_state (resolved (lsb_list q ! i)) = LSB_ADDR_READY"
    and "is_load (l_op (lsb_list q ! i))"
  shows "lsb_list (lsb_tick mem q) ! i =
     (let e = resolved (lsb_list q ! i); older = map resolved (take i (lsb_list q)) in
      if \<exists>s \<in> set older. blocks (l_eff_addr e) s then e
      else e\<lparr>l_result := load_value mem older (l_eff_addr e), l_state := LSB_DONE,
             l_cycles_rem := (if filter (aliases (l_eff_addr e)) older = [] then 0 else l_cycles_rem e)\<rparr>)"
proof -
  have op: "l_op (resolved (lsb_list q ! i)) = l_op (lsb_list q ! i)"
    by (simp add: resolved_def lsb_pass2_def lsb_pass1_def)
  show ?thesis
    using assms lsb_tick_list [OF assms(1), of mem] op
    by (simp add: Let_def take_map load_step_def lsb_pass4_def load_value_def)
qed

section \<open>Properties\<close>

text \<open>Memory operations leave the load/store buffer in program order: loads when their result
  is broadcast and stores when they commit, through whatever ticks and broadcasts in between.\<close>

theorem lsb_retires_in_program_order:
  assumes "lsb_wf q" and "lsb_empty q"
    and "fifo_run lsb_full lsb_enq (lsb_retire mem) lsb_update evs q = Inr (ins, outs, q')"
  shows "lsb_wf q' \<and> map lsb_key outs = take (length outs) (map lsb_ikey ins) \<and>
     length ins \<le> length outs + lsb_size q"
  using lsb_fifo.run_in_order [OF assms(1,3)] lsb_fifo.run_from_empty [OF assms]
    lsb_fifo.run_occupancy [OF assms] by simp

text \<open>A store followed by a load of the same word.\<close>

definition sample_lsb :: lsb where
  "sample_lsb = \<lparr>lsb_size = 2, lsb_head = 0, lsb_tail = 0, lsb_count = 0,
     lsb_entries = replicate 2 empty_lsb_entry\<rparr>"

definition sample_store :: instruction where
  "sample_store = default_instruction\<lparr>in_op := Op_SW, in_rs1 := 0, in_rs2 := 0, in_imm := 8\<rparr>"

definition sample_load :: instruction where
  "sample_load = default_instruction\<lparr>in_op := Op_LW, in_rd := 5, in_rs1 := 0, in_imm := 8, in_pc := 4\<rparr>"

definition sample_rob :: rob where
  "sample_rob = \<lparr>rob_size = 2, rob_head = 0, rob_tail = 0, rob_count = 0,
     rob_entries = replicate 2 empty_rob_entry\<rparr>"

definition sample_full :: lsb where
  "sample_full = projr (lsb_enq (sample_load, 1, init_rat, init_regfile, sample_rob)
     (projr (lsb_enq (sample_store, 0, init_rat, init_regfile, sample_rob) sample_lsb)))"

definition sample_done :: lsb where
  "sample_done = lsb_tick [0, 0, 0] sample_full"

theorem lsb_retires_in_program_order_witness:
  "\<exists>e q. fifo_run lsb_full lsb_enq (lsb_retire [0, 0, 0]) lsb_update
       [Enq (sample_store, 0, init_rat, init_regfile, sample_rob),
        Enq (sample_load, 1, init_rat, init_regfile, sample_rob), Upd (Inl [0, 0, 0]), Deq] sample_lsb
     = Inr ([(sample_store, 0, init_rat, init_regfile, sample_rob),
             (sample_load, 1, init_rat, init_regfile, sample_rob)], [e], q) \<and>
     lsb_wf q \<and> lsb_key e = (Op_SW, 0, 0)"
proof -
  let ?s = "(sample_store, 0, init_rat, init_regfile, sample_rob)"
  let ?l = "(sample_load, 1, init_rat, init_regfile, sample_rob)"
  let ?q1 = "projr (lsb_enq ?s sample_lsb)" and ?d = "lsb_retire [0, 0, 0] sample_done"
  have Inr: "\<not> isl r \<Longrightarrow> r = Inr (projr r)" for r :: "'a res" by (cases r) simp_all
  have "lsb_enq ?s sample_lsb = Inr ?q1" by (rule Inr) code_simp
  moreover have "lsb_enq ?l ?q1 = Inr sample_full"
    unfolding sample_full_def by (rule Inr) code_simp
  moreover have "\<not> lsb_full ?q1" by code_simp
  ultimately obtain q1 where 1: "lsb_enq ?s sample_lsb = Inr q1" and 2: "lsb_enq ?l q1 = Inr sample_full"
    and f1: "\<not> lsb_full q1" by blast
  have 3: "lsb_update (Inl [0, 0, 0]) sample_full = Inr sample_done"
    by (simp add: lsb_update_def sample_done_def)
  have "?d = Inr (projr ?d)" by (rule Inr) code_simp
  then obtain e q where 4: "?d = Inr (e, q)" by (metis surj_pair)
  have f: "\<not> lsb_full sample_lsb" by code_simp
  have run: "fifo_run lsb_full lsb_enq (lsb_retire [0, 0, 0]) lsb_update
      [Enq ?s, Enq ?l, Upd (Inl [0, 0, 0]), Deq] sample_lsb
    = Inr ([?s, ?l], [e], q)"
    by (simp add: 1 2 3 4 f f1)
  have wf: "lsb_wf sample_lsb" "lsb_empty sample_lsb"
    by (simp_all add: lsb_wf_def lsb_empty_def sample_lsb_def)
  have "lsb_ikey ?s = (Op_SW, 0, 0)" by (simp add: lsb_ikey_def sample_store_def default_instruction_def)
  then show ?thesis
    using lsb_retires_in_program_order [OF wf run] run by simp
qed

text \<open>C9. A load whose address is known waits as long as an older store has an unknown address, or
  the same address and no data yet; otherwise it is done at the end of the tick, with the data of
  the youngest older store to its address or the word in memory. On aligned addresses inside the
  memory this is what the load would read after all the older stores had been performed: it never
  returns stale data.\<close>

theorem lsb_load_sees_older_stores:
  assumes "lsb_wf q" and "i < lsb_count q" and "is_load (l_op (lsb_list q ! i))"
    and "l_state (resolved (lsb_list q ! i)) = LSB_ADDR_READY"
    and "mem_addr_ok (length mem) (l_eff_addr (resolved (lsb_list q ! i)))"
    and "\<forall>s \<in> set (map resolved (take i (lsb_list q))). is_store (l_op s) \<longrightarrow>
           mem_addr_ok (length mem) (l_eff_addr s)"
  shows "let e = resolved (lsb_list q ! i); older = map resolved (take i (lsb_list q));
             e' = lsb_list (lsb_tick mem q) ! i in
     if \<exists>s \<in> set older. is_store (l_op s) \<and> (l_state s = LSB_WAITING \<or>
            (l_eff_addr s = l_eff_addr e \<and> l_state s \<noteq> LSB_DONE))
     then e' = e
     else l_state e' = LSB_DONE \<and> l_result e' = mem_read (fold store_into older mem) (l_eff_addr e)"
proof -
  let ?e = "resolved (lsb_list q ! i)" and ?older = "map resolved (take i (lsb_list q))"
  have "load_value mem ?older (l_eff_addr ?e) = mem_read (fold store_into ?older mem) (l_eff_addr ?e)"
    using assms(6) by (intro load_value_fold [OF assms(5)]) blast
  moreover have "(\<exists>s \<in> set ?older. blocks (l_eff_addr ?e) s) \<longleftrightarrow>
      (\<exists>s \<in> set ?older. is_store (l_op s) \<and> (l_state s = LSB_WAITING \<or>
         (l_eff_addr s = l_eff_addr ?e \<and> l_state s \<noteq> LSB_DONE)))"
    by (simp only: blocks_def)
  ultimately show ?thesis
    using lsb_tick_load [OF assms(1,2,4,3), of mem] by (simp only: Let_def) auto
qed

definition sample_queue :: lsb where
  "sample_queue = \<lparr>lsb_size = 2, lsb_head = 0, lsb_tail = 0, lsb_count = 2,
     lsb_entries = [empty_lsb_entry\<lparr>l_state := LSB_WAITING, l_op := Op_SW, l_vj := 8, l_vk := 99\<rparr>,
                    empty_lsb_entry\<lparr>l_state := LSB_WAITING, l_op := Op_LW, l_vj := 8\<rparr>]\<rparr>"

theorem lsb_load_sees_older_stores_witness:
  "l_state (lsb_list (lsb_tick [0, 0, 7] sample_queue) ! 1) = LSB_DONE \<and>
     l_result (lsb_list (lsb_tick [0, 0, 7] sample_queue) ! 1) = 99"
proof -
  let ?L = "lsb_list sample_queue" and ?mem = "[0, 0, 7] :: u32 list"
  have "lsb_wf sample_queue" "1 < lsb_count sample_queue" "is_load (l_op (?L ! 1))"
    "l_state (resolved (?L ! 1)) = LSB_ADDR_READY"
    "mem_addr_ok (length ?mem) (l_eff_addr (resolved (?L ! 1)))"
    "\<forall>s \<in> set (map resolved (take 1 ?L)). is_store (l_op s) \<longrightarrow> mem_addr_ok (length ?mem) (l_eff_addr s)"
    by code_simp+
  note seen = lsb_load_sees_older_stores [OF this]
  have nb: "\<not> (\<exists>s \<in> set (map resolved (take 1 ?L)). is_store (l_op s) \<and> (l_state s = LSB_WAITING \<or>
         (l_eff_addr s = l_eff_addr (resolved (?L ! 1)) \<and> l_state s \<noteq> LSB_DONE)))"
    by code_simp
  have v: "mem_read (fold store_into (map resolved (take 1 ?L)) ?mem) (l_eff_addr (resolved (?L ! 1))) = 99"
    by code_simp
  show ?thesis using seen nb v by (simp only: Let_def if_False)
qed

section \<open>Outside the addresses of the theorem\<close>

definition pair_queue :: "u32 \<Rightarrow> u32 \<Rightarrow> lsb" where
  "pair_queue store_addr load_addr = \<lparr>lsb_size = 2, lsb_head = 0, lsb_tail = 0, lsb_count = 2,
     lsb_entries = [empty_lsb_entry\<lparr>l_state := LSB_WAITING, l_op := Op_SW, l_vj := store_addr, l_vk := 99\<rparr>,
                    empty_lsb_entry\<lparr>l_state := LSB_WAITING, l_op := Op_LW, l_vj := load_addr\<rparr>]\<rparr>"

text \<open>The comparison of byte addresses misses a store to the same word at another byte: the load
  reads the old word. And a load outside the memory forwards the data of a store that will be
  dropped.\<close>

lemma misaligned_load_reads_old_word:
  "l_result (lsb_list (lsb_tick [0, 0, 7] (pair_queue 8 10)) ! 1) = 7 \<and>
   mem_read (fold store_into (map resolved (take 1 (lsb_list (pair_queue 8 10)))) [0, 0, 7]) 10 = 99"
  by code_simp

lemma outside_load_forwards_dropped_store:
  "l_result (lsb_list (lsb_tick [0, 0, 7] (pair_queue 400 400)) ! 1) = 99 \<and>
   mem_read (fold store_into (map resolved (take 1 (lsb_list (pair_queue 400 400)))) [0, 0, 7]) 400 = 0"
  by code_simp

text \<open>An unblocked load is done in the tick it starts in, one tick earlier than its latency.\<close>

lemma load_latency_is_one_tick:
  "latency_of Op_LW = 2 \<and> l_state (lsb_list (pair_queue 8 4) ! 1) = LSB_WAITING \<and>
   l_state (lsb_list (lsb_tick [0, 5, 7] (pair_queue 8 4)) ! 1) = LSB_DONE \<and>
   l_result (lsb_list (lsb_tick [0, 5, 7] (pair_queue 8 4)) ! 1) = 5"
  by code_simp

end
