(* ===== verification/Isa.thy ===== *)
theory Isa
  imports Reservation_Station Load_Store_Buffer
begin

text \<open>
  The instruction set as a sequential machine: the specification the pipeline is proved against.
  One instruction at a time reads its registers, computes on 32-bit words, and updates the
  register file, the memory and the program counter (\<open>docs/ISA.md\<close>). The program counter is a
  word index into the program, as in the instruction queue.
\<close>

section \<open>Well-formed instructions\<close>

definition control :: "opcode \<Rightarrow> bool" where
  "control op \<longleftrightarrow> is_branch op \<or> is_jump op"

text \<open>
  Register numbers are below 32 (negative: unused); stores, branches and \<open>HALT\<close> have no
  destination; the link register of a jump and the base register of a memory access are integer
  registers.
\<close>

definition wf_instr :: "instruction \<Rightarrow> bool" where
  "wf_instr i \<longleftrightarrow> in_rd i < 32 \<and> in_rs1 i < 32 \<and> in_rs2 i < 32 \<and>
     (is_store (in_op i) \<or> is_branch (in_op i) \<or> in_op i = Op_HALT \<longrightarrow> in_rd i < 0) \<and>
     (is_jump (in_op i) \<longrightarrow> \<not> in_rd_fp i) \<and>
     (is_load (in_op i) \<or> is_store (in_op i) \<longrightarrow> \<not> in_rs1_fp i)"

section \<open>Architectural state\<close>

record arch =
  ar_rf :: regfile
  ar_mem :: "u32 list"
  ar_pc :: nat

definition write_reg :: "int \<Rightarrow> bool \<Rightarrow> u32 \<Rightarrow> regfile \<Rightarrow> regfile" where
  "write_reg r fp v rf =
     (if r < 0 \<or> (r = 0 \<and> \<not> fp) then rf
      else if fp then rf\<lparr>fp_regs := (fp_regs rf)[nat r := Float32 v]\<rparr>
      else rf\<lparr>int_regs := (int_regs rf)[nat r := v]\<rparr>)"

definition src1 :: "instruction \<Rightarrow> arch \<Rightarrow> u32" where
  "src1 i a = reg_bits (ar_rf a) (in_rs1 i) (in_rs1_fp i)"

definition src2 :: "instruction \<Rightarrow> arch \<Rightarrow> u32" where
  "src2 i a = reg_bits (ar_rf a) (in_rs2 i) (in_rs2_fp i)"

definition isa_addr :: "instruction \<Rightarrow> arch \<Rightarrow> u32" where
  "isa_addr i a = src1 i a + in_imm i"

section \<open>Execution\<close>

text \<open>The value of a computational instruction on the operands \<open>x\<close> and \<open>y\<close>.\<close>

definition isa_alu :: "fp_env \<Rightarrow> instruction \<Rightarrow> u32 \<Rightarrow> u32 \<Rightarrow> u32" where
  "isa_alu fe i x y = (case in_op i of
      Op_ADD \<Rightarrow> x + y
    | Op_SUB \<Rightarrow> x - y
    | Op_AND \<Rightarrow> x AND y
    | Op_OR \<Rightarrow> x OR y
    | Op_XOR \<Rightarrow> x XOR y
    | Op_SLL \<Rightarrow> x * 2 ^ (unat y mod 32)
    | Op_SRL \<Rightarrow> x div 2 ^ (unat y mod 32)
    | Op_SRA \<Rightarrow> word_of_int (sint x div 2 ^ (unat y mod 32))
    | Op_ADDI \<Rightarrow> x + in_imm i
    | Op_ANDI \<Rightarrow> x AND in_imm i
    | Op_ORI \<Rightarrow> x OR in_imm i
    | Op_XORI \<Rightarrow> x XOR in_imm i
    | Op_SLLI \<Rightarrow> x * 2 ^ (unat (in_imm i) mod 32)
    | Op_SRLI \<Rightarrow> x div 2 ^ (unat (in_imm i) mod 32)
    | Op_LUI \<Rightarrow> in_imm i * 4096
    | Op_FADD_S \<Rightarrow> float_bits (float_add fe (Float32 x) (Float32 y))
    | Op_FSUB_S \<Rightarrow> float_bits (float_sub fe (Float32 x) (Float32 y))
    | Op_FMUL_S \<Rightarrow> float_bits (float_mul fe (Float32 x) (Float32 y))
    | Op_FDIV_S \<Rightarrow> float_bits (float_div fe (Float32 x) (Float32 y))
    | Op_FCVT_W_S \<Rightarrow> int32_of_float fe (Float32 x)
    | Op_FCVT_S_W \<Rightarrow> float_bits (float_of_int32 x)
    | _ \<Rightarrow> 0)"

definition branch_taken :: "opcode \<Rightarrow> u32 \<Rightarrow> u32 \<Rightarrow> bool" where
  "branch_taken op x y = (case op of
      Op_BEQ \<Rightarrow> x = y | Op_BNE \<Rightarrow> x \<noteq> y | Op_BLT \<Rightarrow> sint x < sint y | Op_BGE \<Rightarrow> sint y \<le> sint x
    | _ \<Rightarrow> False)"

text \<open>The byte address a branch or jump continues at.\<close>

definition isa_target :: "instruction \<Rightarrow> u32 \<Rightarrow> u32 \<Rightarrow> u32" where
  "isa_target i x y =
     (if in_op i = Op_JALR then (x + in_imm i) AND NOT 1
      else if in_op i = Op_JAL \<or> branch_taken (in_op i) x y then in_pc i + in_imm i
      else in_pc i + 4)"

definition isa_exec :: "fp_env \<Rightarrow> instruction \<Rightarrow> arch \<Rightarrow> arch" where
  "isa_exec fe i a =
     (let x = src1 i a; y = src2 i a; wr = (\<lambda>v. write_reg (in_rd i) (in_rd_fp i) v (ar_rf a)) in
      if is_branch (in_op i) then a\<lparr>ar_pc := unat (drop_bit 2 (isa_target i x y))\<rparr>
      else if is_jump (in_op i) then
        a\<lparr>ar_rf := wr (in_pc i + 4), ar_pc := unat (drop_bit 2 (isa_target i x y))\<rparr>
      else if is_store (in_op i) then
        a\<lparr>ar_mem := mem_write (ar_mem a) (x + in_imm i) y, ar_pc := ar_pc a + 1\<rparr>
      else if is_load (in_op i) then
        a\<lparr>ar_rf := wr (mem_read (ar_mem a) (x + in_imm i)), ar_pc := ar_pc a + 1\<rparr>
      else a\<lparr>ar_rf := wr (isa_alu fe i x y), ar_pc := ar_pc a + 1\<rparr>)"

text \<open>Addresses of memory accesses are word-aligned and inside the memory.\<close>

definition good_access :: "instruction \<Rightarrow> arch \<Rightarrow> bool" where
  "good_access i a \<longleftrightarrow> (is_load (in_op i) \<or> is_store (in_op i) \<longrightarrow>
     mem_addr_ok (length (ar_mem a)) (isa_addr i a))"

text \<open>The machine fetches at the program counter, and stops at \<open>HALT\<close> or past the end.\<close>

definition isa_stopped :: "instruction list \<Rightarrow> arch \<Rightarrow> bool" where
  "isa_stopped P a \<longleftrightarrow> length P \<le> ar_pc a \<or> in_op (P ! ar_pc a) = Op_HALT"

fun isa_run :: "fp_env \<Rightarrow> instruction list \<Rightarrow> nat \<Rightarrow> arch \<Rightarrow> arch option" where
  "isa_run fe P 0 a = Some a"
| "isa_run fe P (Suc n) a =
     (if isa_stopped P a then None else isa_run fe P n (isa_exec fe (P ! ar_pc a) a))"

section \<open>The value an instruction leaves in the reorder buffer\<close>

definition isa_result :: "fp_env \<Rightarrow> instruction \<Rightarrow> arch \<Rightarrow> u32" where
  "isa_result fe i a =
     (if control (in_op i) then isa_target i (src1 i a) (src2 i a)
      else if is_load (in_op i) then mem_read (ar_mem a) (isa_addr i a)
      else isa_alu fe i (src1 i a) (src2 i a))"

text \<open>The execution units compute the instruction set's results.\<close>

lemma and_31: "unat (w AND 0x1F :: u32) = unat w mod 32"
proof -
  have "w AND 0x1F = take_bit 5 w" by (simp add: take_bit_eq_mask mask_eq_exp_minus_1)
  then have "unat (w AND 0x1F) = take_bit 5 (unat w)" by (simp add: unsigned_take_bit_eq)
  then show ?thesis by (simp add: take_bit_eq_mod)
qed

lemma signed_drop_bit_div: "signed_drop_bit n w = (word_of_int (sint w div 2 ^ n) :: u32)"
proof -
  have "word_of_int (sint (signed_drop_bit n w)) = (word_of_int (drop_bit n (sint w)) :: u32)"
    by (simp only: sint_signed_drop_bit_eq)
  then show ?thesis by (simp add: drop_bit_eq_div)
qed

lemma sint_eq_iff: "sint (x :: u32) = sint y \<longleftrightarrow> x = y"
  by (simp add: word_eq_iff_signed [where 'a = int])

lemma execute_op_isa_alu:
  assumes "rs_op e = in_op i" and "rs_imm e = in_imm i"
    and "\<not> control (in_op i)" and "\<not> is_load (in_op i)" and "\<not> is_store (in_op i)"
  shows "execute_op fe e = isa_alu fe i (rs_vj e) (rs_vk e)"
  using assms
  by (cases "in_op i")
     (simp_all add: execute_op_def isa_alu_def Let_def control_def class_defs and_31
       signed_drop_bit_div push_bit_eq_mult drop_bit_eq_div bits_to_float_def float_to_bits_def)

lemma execute_op_isa_target:
  assumes "rs_op e = in_op i" and "rs_imm e = in_imm i" and "rs_pc e = in_pc i" and "control (in_op i)"
  shows "execute_op fe e = isa_target i (rs_vj e) (rs_vk e)"
  using assms
  by (cases "in_op i")
     (simp_all add: execute_op_def isa_target_def branch_taken_def Let_def control_def class_defs
       sint_eq_iff)

section \<open>Registers\<close>

definition writes :: "instruction \<Rightarrow> int \<Rightarrow> bool \<Rightarrow> bool" where
  "writes i r fp \<longleftrightarrow> 0 \<le> r \<and> in_rd i = r \<and> in_rd_fp i = fp \<and> \<not> (r = 0 \<and> \<not> fp)"

lemma regfile_wf_write_reg: "regfile_wf rf \<Longrightarrow> regfile_wf (write_reg r fp v rf)"
  by (auto simp: regfile_wf_def write_reg_def)

lemma reg_bits_write_reg:
  assumes "regfile_wf rf" and "q < 32" and "r < 32"
  shows "reg_bits (write_reg r fp v rf) q b =
     (if 0 \<le> q \<and> q = r \<and> b = fp \<and> \<not> (r = 0 \<and> \<not> fp) then v else reg_bits rf q b)"
proof -
  have "nat q = nat r \<longleftrightarrow> q = r" if "0 \<le> q" "0 \<le> r" using that by auto
  then show ?thesis
    using assms
    by (auto simp: reg_bits_def write_reg_def regfile_wf_def nth_list_update float_to_bits_def)
qed

text \<open>On register numbers in range the operations of the register file return, and are
  \<open>write_reg\<close>.\<close>

lemma write_int_reg: "0 \<le> r \<Longrightarrow> r < 32 \<Longrightarrow> write_int r v rf = Inr (write_reg r False v rf)"
  by (simp add: write_int_def write_reg_def)

lemma write_fp_reg: "0 \<le> r \<Longrightarrow> r < 32 \<Longrightarrow> write_fp r (bits_to_float v) rf = Inr (write_reg r True v rf)"
  by (simp add: write_fp_def write_reg_def bits_to_float_def)

lemma isa_exec_wf: "regfile_wf (ar_rf a) \<Longrightarrow> regfile_wf (ar_rf (isa_exec fe i a))"
  by (simp add: isa_exec_def Let_def regfile_wf_write_reg)

lemma isa_exec_mem_length [simp]: "length (ar_mem (isa_exec fe i a)) = length (ar_mem a)"
  by (simp add: isa_exec_def Let_def)

lemma isa_exec_mem:
  "ar_mem (isa_exec fe i a) =
     (if is_store (in_op i) then mem_write (ar_mem a) (isa_addr i a) (src2 i a) else ar_mem a)"
  by (auto simp: isa_exec_def Let_def isa_addr_def class_defs)

lemma isa_exec_pc:
  "ar_pc (isa_exec fe i a) =
     (if control (in_op i) then unat (drop_bit 2 (isa_result fe i a)) else Suc (ar_pc a))"
  by (auto simp: isa_exec_def Let_def isa_result_def control_def)

text \<open>A register keeps its value over an instruction that does not write it, and has the
  instruction's result after one that does (jumps apart, which leave the return address).\<close>

lemma isa_exec_unwritten:
  assumes "regfile_wf (ar_rf a)" and "wf_instr i" and "q < 32" and "\<not> writes i q b"
  shows "reg_bits (ar_rf (isa_exec fe i a)) q b = reg_bits (ar_rf a) q b"
proof -
  have "reg_bits (write_reg (in_rd i) (in_rd_fp i) v (ar_rf a)) q b = reg_bits (ar_rf a) q b" for v
    using assms reg_bits_write_reg [OF assms(1,3), of "in_rd i" "in_rd_fp i" v b]
    by (auto simp: wf_instr_def writes_def)
  then show ?thesis by (simp add: isa_exec_def Let_def)
qed

lemma isa_exec_written:
  assumes "regfile_wf (ar_rf a)" and "wf_instr i" and "writes i q b" and "\<not> control (in_op i)"
  shows "reg_bits (ar_rf (isa_exec fe i a)) q b = isa_result fe i a"
proof -
  have "q < 32" "0 \<le> q" "in_rd i = q" "in_rd_fp i = b" "\<not> (q = 0 \<and> \<not> b)" "\<not> is_store (in_op i)"
    using assms(2,3) by (auto simp: wf_instr_def writes_def)
  then show ?thesis
    using assms(1,4)
    by (auto simp: isa_exec_def Let_def reg_bits_write_reg isa_result_def control_def isa_addr_def)
qed

lemma isa_exec_rf:
  assumes "\<not> control (in_op i)" and "\<not> is_store (in_op i)"
  shows "ar_rf (isa_exec fe i a) = write_reg (in_rd i) (in_rd_fp i) (isa_result fe i a) (ar_rf a)"
  using assms by (simp add: isa_exec_def Let_def isa_result_def control_def isa_addr_def)

end
