(* ===== verification/Instruction_Queue.thy ===== *)
theory Instruction_Queue
  imports Instruction
begin

text \<open>
  \<open>instruction_queue.h\<close>, \<open>instruction_queue.cpp\<close>: the in-order fetch buffer between the program
  and dispatch. \<open>iq_pc\<close> is a word index; \<open>seek\<close> takes a byte address and drops its low two bits.
\<close>

section \<open>State and operations\<close>

record iq =
  iq_capacity :: int
  iq_program :: "instruction list"
  iq_pc :: nat
  iq_buffer :: "instruction list"

definition new_iq :: "int \<Rightarrow> iq res" where
  "new_iq cap = res_bind (res_assert (1 \<le> cap) Assert_iq_capacity)
     (\<lambda>_. Inr \<lparr>iq_capacity = cap, iq_program = [], iq_pc = 0, iq_buffer = []\<rparr>)"

definition iq_load_program :: "instruction list \<Rightarrow> iq \<Rightarrow> iq" where
  "iq_load_program prog q = q\<lparr>iq_program :=
      map (\<lambda>i. (prog ! i)\<lparr>in_pc := word_of_nat i * 4\<rparr>) [0..<length prog],
      iq_pc := 0, iq_buffer := []\<rparr>"

text \<open>The fetch loop runs \<open>IQ_FETCH_WIDTH\<close> times and stops early at the end of the program or
  when the buffer is full.\<close>

fun iq_fetch :: "nat \<Rightarrow> iq \<Rightarrow> iq" where
  "iq_fetch 0 q = q"
| "iq_fetch (Suc n) q =
     (if length (iq_program q) \<le> iq_pc q then q
      else if iq_capacity q \<le> int (length (iq_buffer q)) then q
      else iq_fetch n (q\<lparr>iq_buffer := iq_buffer q @ [iq_program q ! iq_pc q],
                         iq_pc := iq_pc q + 1\<rparr>))"

definition iq_tick :: "iq \<Rightarrow> iq" where
  "iq_tick q = iq_fetch IQ_FETCH_WIDTH q"

definition iq_can_dispatch :: "iq \<Rightarrow> bool" where
  "iq_can_dispatch q \<longleftrightarrow> iq_buffer q \<noteq> []"

definition iq_peek :: "iq \<Rightarrow> instruction res" where
  "iq_peek q = (case iq_buffer q of [] \<Rightarrow> Inl Assert_iq_dispatch | i # _ \<Rightarrow> Inr i)"

definition iq_dispatch :: "iq \<Rightarrow> (instruction \<times> iq) res" where
  "iq_dispatch q = (case iq_buffer q of [] \<Rightarrow> Inl Assert_iq_dispatch
     | i # is \<Rightarrow> Inr (i, q\<lparr>iq_buffer := is\<rparr>))"

definition iq_done :: "iq \<Rightarrow> bool" where
  "iq_done q \<longleftrightarrow> length (iq_program q) \<le> iq_pc q \<and> iq_buffer q = []"

definition iq_seek :: "u32 \<Rightarrow> iq \<Rightarrow> iq" where
  "iq_seek byte_pc q = q\<lparr>iq_buffer := [], iq_pc := unat (drop_bit 2 byte_pc)\<rparr>"

lemmas iq_ops [opdefs] = iq_load_program_def iq_tick_def iq_can_dispatch_def iq_peek_def
  iq_dispatch_def iq_done_def iq_seek_def

section \<open>Well-formedness and the fetch window\<close>

text \<open>The buffer is the stretch of the program that ends at the fetch index.\<close>

definition iq_window :: "iq \<Rightarrow> nat \<Rightarrow> bool" where
  "iq_window q n \<longleftrightarrow> iq_buffer q = map ((!) (iq_program q)) [n..<iq_pc q] \<and> n \<le> iq_pc q \<and>
     (iq_pc q \<le> length (iq_program q) \<or> n = iq_pc q)"

definition iq_wf :: "iq \<Rightarrow> bool" where
  "iq_wf q \<longleftrightarrow> 1 \<le> iq_capacity q \<and> int (length (iq_buffer q)) \<le> iq_capacity q"

lemma new_iq_wf: "new_iq c = Inr q \<Longrightarrow> iq_wf q \<and> iq_window q 0 \<and> iq_capacity q = c"
  by (auto simp: new_iq_def iq_wf_def iq_window_def)

lemma iq_load_program_wf:
  "iq_wf q \<Longrightarrow> iq_wf (iq_load_program p q) \<and> iq_window (iq_load_program p q) 0 \<and>
     length (iq_program (iq_load_program p q)) = length p"
  by (simp add: iq_wf_def iq_window_def iq_load_program_def)

lemma iq_seek_window:
  "iq_wf q \<Longrightarrow> iq_wf (iq_seek a q) \<and> iq_window (iq_seek a q) (unat (drop_bit 2 a)) \<and>
     iq_program (iq_seek a q) = iq_program q \<and> iq_capacity (iq_seek a q) = iq_capacity q"
  by (simp add: iq_wf_def iq_window_def iq_seek_def)

lemma iq_fetch_window:
  "iq_wf q \<Longrightarrow> iq_window q n \<Longrightarrow> iq_wf (iq_fetch w q) \<and> iq_window (iq_fetch w q) n \<and>
     iq_program (iq_fetch w q) = iq_program q \<and> iq_capacity (iq_fetch w q) = iq_capacity q"
  by (induction w q rule: iq_fetch.induct) (auto simp: iq_wf_def iq_window_def)

lemma iq_tick_window:
  "iq_wf q \<Longrightarrow> iq_window q n \<Longrightarrow> iq_wf (iq_tick q) \<and> iq_window (iq_tick q) n \<and>
     iq_program (iq_tick q) = iq_program q \<and> iq_capacity (iq_tick q) = iq_capacity q"
  by (simp add: iq_tick_def iq_fetch_window)

lemma iq_dispatch_window:
  assumes "iq_wf q" and "iq_window q n" and "iq_can_dispatch q"
  shows "n < length (iq_program q) \<and> (\<exists>q'. iq_dispatch q = Inr (iq_program q ! n, q') \<and> iq_wf q' \<and>
     iq_window q' (Suc n) \<and> iq_program q' = iq_program q \<and> iq_pc q' = iq_pc q \<and>
     iq_capacity q' = iq_capacity q) \<and> iq_peek q = Inr (iq_program q ! n)"
proof -
  have n: "n < iq_pc q" using assms by (auto simp: iq_window_def iq_can_dispatch_def)
  then have b: "iq_buffer q = iq_program q ! n # map ((!) (iq_program q)) [Suc n..<iq_pc q]"
    using assms by (simp add: iq_window_def upt_conv_Cons)
  have l: "iq_pc q \<le> length (iq_program q)" using assms n by (auto simp: iq_window_def)
  let ?q = "q\<lparr>iq_buffer := map ((!) (iq_program q)) [Suc n..<iq_pc q]\<rparr>"
  have "iq_dispatch q = Inr (iq_program q ! n, ?q)" "iq_peek q = Inr (iq_program q ! n)"
    using b by (simp_all add: iq_dispatch_def iq_peek_def)
  moreover have "iq_wf ?q" using assms(1) b by (simp add: iq_wf_def)
  moreover have "iq_window ?q (Suc n)" using n l by (simp add: iq_window_def)
  ultimately show ?thesis using n l by auto
qed

section \<open>Runs of the queue\<close>

datatype iq_event = Iq_tick | Iq_dispatch

text \<open>A dispatch happens only if there is something to dispatch, as in \<open>try_dispatch\<close>.\<close>

fun iq_run :: "iq_event list \<Rightarrow> iq \<Rightarrow> (instruction list \<times> iq) res" where
  "iq_run [] q = Inr ([], q)"
| "iq_run (Iq_tick # evs) q = iq_run evs (iq_tick q)"
| "iq_run (Iq_dispatch # evs) q =
     (if iq_can_dispatch q then res_bind (iq_dispatch q) (\<lambda>(i, q').
        res_bind (iq_run evs q') (\<lambda>(is, q''). Inr (i # is, q'')))
      else iq_run evs q)"

lemma iq_run_window:
  assumes "iq_wf q" and "iq_window q n"
  shows "returns (iq_run evs q) (\<lambda>(is, q'). iq_wf q' \<and> iq_window q' (n + length is) \<and>
     iq_program q' = iq_program q \<and> n + length is \<le> max n (length (iq_program q)) \<and>
     is = map ((!) (iq_program q)) [n..<n + length is])"
  using assms
proof (induction evs arbitrary: q n)
  case Nil
  then show ?case by simp
next
  case (Cons ev evs)
  show ?case
  proof (cases ev)
    case Iq_tick
    then show ?thesis
      using Cons.IH [of "iq_tick q" n] iq_tick_window [OF Cons.prems] by simp
  next
    case Iq_dispatch
    show ?thesis
    proof (cases "iq_can_dispatch q")
      case False
      then show ?thesis using Iq_dispatch Cons.IH [OF Cons.prems] by simp
    next
      case True
      then obtain q' where q': "iq_dispatch q = Inr (iq_program q ! n, q')" "iq_wf q'"
          "iq_window q' (Suc n)" "iq_program q' = iq_program q" "n < length (iq_program q)"
        using iq_dispatch_window [OF Cons.prems True] by auto
      show ?thesis
        using Cons.IH [OF q'(2,3)] True q' Iq_dispatch
        by (elim returnsE) (auto simp: upt_conv_Cons simp del: upt_Suc)
    qed
  qed
qed

section \<open>Properties\<close>



end
