(* ===== verification/Commit_Unit.thy ===== *)
theory Commit_Unit
  imports Load_Store_Buffer
begin

text \<open>
  \<open>commit_unit.h\<close>, \<open>commit_unit.cpp\<close>: the unit that retires the head of the reorder buffer. The
  reference parameters of \<open>CommitUnit::tick\<close> are the fields of \<open>commit_state\<close>.
\<close>

record commit_record =
  cr_valid :: bool
  cr_op :: opcode
  cr_rd :: int
  cr_rd_fp :: bool
  cr_result :: u32
  cr_pc :: u32

definition empty_commit_record :: commit_record where
  "empty_commit_record = \<lparr>cr_valid = False, cr_op = Op_NOP, cr_rd = -1, cr_rd_fp = False,
     cr_result = 0, cr_pc = 0\<rparr>"

record commit_state =
  cs_last :: commit_record
  cs_rob :: rob
  cs_rf :: regfile
  cs_rat :: rat
  cs_lsb :: lsb
  cs_mem :: "u32 list"
  cs_next_pc :: u32
  cs_halted :: bool

text \<open>What is done with the entry taken from the head, after it has been recorded.\<close>

definition cu_retire :: "int \<Rightarrow> rob_entry \<Rightarrow> commit_state \<Rightarrow> (bool \<times> commit_state) res" where
  "cu_retire tag entry c =
     (if r_op entry = Op_HALT then Inr (True, c\<lparr>cs_halted := True\<rparr>)
      else if is_branch (r_op entry) then Inr (True, c\<lparr>cs_next_pc := r_result entry\<rparr>)
      else if is_jump (r_op entry) then
        (let c2 = c\<lparr>cs_next_pc := r_result entry\<rparr> in
         if 0 \<le> r_rd entry then
           res_bind (write_int (r_rd entry) (r_pc entry + 4) (cs_rf c2)) (\<lambda>rf'.
           res_bind (rat_commit (r_rd entry) False tag (cs_rat c2)) (\<lambda>rat'.
           Inr (True, c2\<lparr>cs_rf := rf', cs_rat := rat'\<rparr>)))
         else Inr (True, c2))
      else if is_store (r_op entry) then
        res_bind (res_assert (lsb_can_commit_store (cs_lsb c)) Assert_lsb_store) (\<lambda>_.
        res_bind (lsb_commit_store (cs_mem c) (cs_lsb c)) (\<lambda>(mem', lsb').
        Inr (True, c\<lparr>cs_mem := mem', cs_lsb := lsb'\<rparr>)))
      else if 0 \<le> r_rd entry then
        res_bind (if r_rd_fp entry
                  then write_fp (r_rd entry) (bits_to_float (r_result entry)) (cs_rf c)
                  else write_int (r_rd entry) (r_result entry) (cs_rf c)) (\<lambda>rf'.
        res_bind (rat_commit (r_rd entry) (r_rd_fp entry) tag (cs_rat c)) (\<lambda>rat'.
        Inr (True, c\<lparr>cs_rf := rf', cs_rat := rat'\<rparr>)))
      else Inr (True, c))"

definition record_of :: "rob_entry \<Rightarrow> commit_record" where
  "record_of e = \<lparr>cr_valid = True, cr_op = r_op e, cr_rd = r_rd e, cr_rd_fp = r_rd_fp e,
     cr_result = r_result e, cr_pc = r_pc e\<rparr>"

definition cu_tick :: "commit_state \<Rightarrow> (bool \<times> commit_state) res" where
  "cu_tick c0 =
     (let c = c0\<lparr>cs_last := empty_commit_record\<rparr> in
      if \<not> rob_head_ready (cs_rob c) then Inr (False, c)
      else
        res_bind (rob_head_tag (cs_rob c)) (\<lambda>tag.
        res_bind (rob_commit (cs_rob c)) (\<lambda>(entry, rob').
        cu_retire tag entry (c\<lparr>cs_rob := rob', cs_last := record_of entry\<rparr>))))"

section \<open>The head of the reorder buffer\<close>

lemma cu_tick_idle:
  "\<not> rob_head_ready (cs_rob c) \<Longrightarrow> cu_tick c = Inr (False, c\<lparr>cs_last := empty_commit_record\<rparr>)"
  by (simp add: cu_tick_def Let_def)

lemma cu_tick_head:
  assumes "rob_wf (cs_rob c)" and "rob_list (cs_rob c) = e # es" and "r_state e = ROB_DONE"
  obtains b' where "cu_tick c = cu_retire (rob_tag_of (cs_rob c) 0) e (c\<lparr>cs_rob := b', cs_last := record_of e\<rparr>)"
    and "rob_wf b'" and "rob_list b' = es" and "rob_size b' = rob_size (cs_rob c)"
    and "rob_tag_of b' = (\<lambda>k. rob_tag_of (cs_rob c) (Suc k))"
proof -
  obtain b' where b: "rob_commit (cs_rob c) = Inr (e, b')" "rob_wf b'" "rob_list b' = es"
      "rob_size b' = rob_size (cs_rob c)" "rob_head_tag (cs_rob c) = Inr (rob_tag_of (cs_rob c) 0)"
      "\<And>k. rob_tag_of b' k = rob_tag_of (cs_rob c) (Suc k)"
    using rob_commit_ready [OF assms] by metis
  have "rob_head_ready (cs_rob c)" using assms by (auto simp: rob_head_ready_iff)
  moreover have "c\<lparr>cs_last := empty_commit_record, cs_rob := b', cs_last := record_of e\<rparr>
      = c\<lparr>cs_rob := b', cs_last := record_of e\<rparr>" by (cases c) simp
  ultimately show thesis
    using that [of b'] b by (auto simp: cu_tick_def Let_def fun_eq_iff)
qed

section \<open>What a commit changes\<close>

text \<open>The register an entry writes when it retires, and the bits it writes there: a jump links to
  the instruction after it, in the integer bank.\<close>

definition retire_writes :: "rob_entry \<Rightarrow> int \<Rightarrow> bool \<Rightarrow> bool" where
  "retire_writes e r fp \<longleftrightarrow> r_rd e = r \<and> r_op e \<noteq> Op_HALT \<and> \<not> is_branch (r_op e) \<and> \<not> is_store (r_op e) \<and>
     fp = (r_rd_fp e \<and> \<not> is_jump (r_op e)) \<and> (r = 0 \<longrightarrow> fp)"

definition retire_value :: "rob_entry \<Rightarrow> u32" where
  "retire_value e = (if is_jump (r_op e) then r_pc e + 4 else r_result e)"

definition store_head :: "commit_state \<Rightarrow> u32 list" where
  "store_head c = (let h = lsb_entries (cs_lsb c) ! lsb_head (cs_lsb c) in mem_write (cs_mem c) (l_eff_addr h) (l_vk h))"

lemma commit_write_int:
  assumes "regfile_wf rf" and "0 \<le> d" and "d < 32"
  shows "\<exists>rf'. write_int d v rf = Inr rf' \<and> (\<forall>r fp. 0 \<le> r \<longrightarrow> r < 32 \<longrightarrow>
    reg_bits rf' r fp = (if d = r \<and> \<not> fp \<and> r \<noteq> 0 then v else reg_bits rf r fp))"
  using assms by (cases "d = 0") (auto simp: write_int_def reg_bits_def regfile_wf_def nth_list_update)

lemma commit_write_fp:
  assumes "regfile_wf rf" and "0 \<le> d" and "d < 32"
  shows "\<exists>rf'. write_fp d (bits_to_float v) rf = Inr rf' \<and> (\<forall>r fp. 0 \<le> r \<longrightarrow> r < 32 \<longrightarrow>
    reg_bits rf' r fp = (if d = r \<and> fp then v else reg_bits rf r fp))"
  using assms by (auto simp: write_fp_def reg_bits_def regfile_wf_def nth_list_update)

lemma rat_commit_total: "0 \<le> d \<Longrightarrow> d < 32 \<Longrightarrow> \<exists>t'. rat_commit d fp tag t = Inr t'"
  by (auto simp: rat_commit_def rat_lookup_def rat_index_ok_def Let_def)

lemma class_disjoint:
  "is_branch op \<Longrightarrow> \<not> is_jump op \<and> \<not> is_store op \<and> op \<noteq> Op_HALT"
  "is_jump op \<Longrightarrow> \<not> is_branch op \<and> \<not> is_store op \<and> op \<noteq> Op_HALT"
  "is_store op \<Longrightarrow> \<not> is_branch op \<and> \<not> is_jump op \<and> op \<noteq> Op_HALT"
  by (cases op; simp add: class_defs)+

lemma cu_retire_no_register:
  assumes "r_rd e < 0 \<or> r_op e = Op_HALT \<or> is_branch (r_op e) \<or> is_store (r_op e)"
    and "is_store (r_op e) \<longrightarrow> lsb_can_commit_store (cs_lsb c)"
  shows "\<exists>c'. cu_retire tag e c = Inr (True, c') \<and> cs_rob c' = cs_rob c \<and> cs_rf c' = cs_rf c \<and>
     (\<forall>r fp. 0 \<le> r \<longrightarrow> \<not> retire_writes e r fp) \<and>
     cs_mem c' = (if is_store (r_op e) then store_head c else cs_mem c) \<and>
     cs_next_pc c' = (if is_branch (r_op e) \<or> is_jump (r_op e) then r_result e else cs_next_pc c) \<and>
     cs_halted c' = (cs_halted c \<or> r_op e = Op_HALT) \<and> cs_last c' = cs_last c"
proof -
  consider (halt) "r_op e = Op_HALT" | (branch) "is_branch (r_op e)" | (store) "is_store (r_op e)"
    | (none) "r_rd e < 0" "r_op e \<noteq> Op_HALT" "\<not> is_branch (r_op e)" "\<not> is_store (r_op e)" using assms(1) by blast
  then show ?thesis
  proof cases
    case halt
    then have "\<not> is_branch (r_op e) \<and> \<not> is_jump (r_op e) \<and> \<not> is_store (r_op e)" by (simp add: class_defs)
    with halt show ?thesis by (simp add: cu_retire_def retire_writes_def)
  next
    case branch
    with class_disjoint(1) [OF branch] show ?thesis by (simp add: cu_retire_def retire_writes_def)
  next
    case store
    with class_disjoint(3) [OF store] assms(2) show ?thesis
      by (simp add: cu_retire_def retire_writes_def lsb_commit_store_def store_head_def Let_def)
  next
    case none
    then show ?thesis by (cases "is_jump (r_op e)") (simp_all add: cu_retire_def retire_writes_def Let_def)
  qed
qed

text \<open>C31. Committing the head of the reorder buffer changes exactly what its instruction may change: the
  destination register, which receives the result (the return address for a jump; \<open>x0\<close> stays), the
  memory word of the store at the head of the load/store buffer, the fetch address for a branch or
  jump, the halt flag for \<open>HALT\<close>. Every other register and word keeps its value, and the rest of the
  reorder buffer stays.\<close>

theorem commit_applies_head:
  assumes "rob_wf (cs_rob c)" and "rob_list (cs_rob c) = e # es" and "r_state e = ROB_DONE"
    and "regfile_wf (cs_rf c)" and "r_rd e < 32" and "is_store (r_op e) \<longrightarrow> lsb_can_commit_store (cs_lsb c)"
  shows "\<exists>c'. cu_tick c = Inr (True, c') \<and> rob_list (cs_rob c') = es \<and>
     (\<forall>r fp. 0 \<le> r \<longrightarrow> r < 32 \<longrightarrow>
        reg_bits (cs_rf c') r fp = (if retire_writes e r fp then retire_value e else reg_bits (cs_rf c) r fp)) \<and>
     cs_mem c' = (if is_store (r_op e) then store_head c else cs_mem c) \<and>
     cs_next_pc c' = (if is_branch (r_op e) \<or> is_jump (r_op e) then r_result e else cs_next_pc c) \<and>
     cs_halted c' = (cs_halted c \<or> r_op e = Op_HALT) \<and> cs_last c' = record_of e"
proof -
  obtain b' where b: "cu_tick c = cu_retire (rob_tag_of (cs_rob c) 0) e (c\<lparr>cs_rob := b', cs_last := record_of e\<rparr>)"
    "rob_list b' = es" by (rule cu_tick_head [OF assms(1-3)])
  let ?c = "c\<lparr>cs_rob := b', cs_last := record_of e\<rparr>" and ?tag = "rob_tag_of (cs_rob c) 0"
  note defs = cu_retire_def retire_writes_def retire_value_def b
  show ?thesis
  proof (cases "r_rd e < 0 \<or> r_op e = Op_HALT \<or> is_branch (r_op e) \<or> is_store (r_op e)")
    case True
    then show ?thesis using cu_retire_no_register [OF True, of ?c ?tag] assms(6) b by (auto simp: store_head_def)
  next
    case False
    then have d: "0 \<le> r_rd e" by simp
    obtain t' where t': "rat_commit (r_rd e) (r_rd_fp e \<and> \<not> is_jump (r_op e)) ?tag (cs_rat c) = Inr t'"
      using rat_commit_total [OF d assms(5)] by blast
    show ?thesis
    proof (cases "r_rd_fp e \<and> \<not> is_jump (r_op e)")
      case True
      then show ?thesis
        using commit_write_fp [OF assms(4) d assms(5), of "r_result e"] False t' by (auto simp: defs)
    next
      case fp: False
      then show ?thesis
        using commit_write_int [OF assms(4) d assms(5), of "retire_value e"] False t' class_disjoint(2) [of "r_op e"]
        by (cases "is_jump (r_op e)") (auto simp: defs Let_def)
    qed
  qed
qed

definition jump_commit :: commit_state where
  "jump_commit = \<lparr>cs_last = empty_commit_record,
     cs_rob = \<lparr>rob_size = 2, rob_head = 1, rob_tail = 0, rob_count = 1,
       rob_entries = [empty_rob_entry, empty_rob_entry\<lparr>r_state := ROB_DONE, r_op := Op_JAL, r_rd := 1, r_result := 100, r_pc := 8\<rparr>]\<rparr>,
     cs_rf = init_regfile, cs_rat = init_rat, cs_lsb = \<lparr>lsb_size = 1, lsb_head = 0, lsb_tail = 0, lsb_count = 0,
       lsb_entries = [empty_lsb_entry]\<rparr>, cs_mem = [], cs_next_pc = 0, cs_halted = False\<rparr>"

theorem commit_applies_head_witness:
  "\<exists>c'. cu_tick jump_commit = Inr (True, c') \<and> reg_bits (cs_rf c') 1 False = 12 \<and> cs_next_pc c' = 100"
proof -
  let ?e = "empty_rob_entry\<lparr>r_state := ROB_DONE, r_op := Op_JAL, r_rd := 1, r_result := 100, r_pc := 8\<rparr>"
  have "rob_wf (cs_rob jump_commit)" "rob_list (cs_rob jump_commit) = ?e # []" "r_state ?e = ROB_DONE"
    "regfile_wf (cs_rf jump_commit)" "r_rd ?e < 32" "is_store (r_op ?e) \<longrightarrow> lsb_can_commit_store (cs_lsb jump_commit)"
    by code_simp+
  note c = commit_applies_head [OF this]
  have "retire_writes ?e 1 False" "retire_value ?e = 12" "is_jump (r_op ?e)" "r_result ?e = 100" by code_simp+
  then show ?thesis using c by auto
qed

end
