(* ===== verification/Sim.thy ===== *)
theory Sim
  imports Reservation_Station Instruction_Queue Commit_Unit
begin

text \<open>
  \<open>sim.cpp\<close> without its text handling: instruction dispatch (\<open>try_dispatch\<close>) and the clock loop
  of \<open>main\<close>, phase by phase. The six stations of the source are named objects that the code
  reaches through pointers; here they are a function from station names, a null pointer is \<open>None\<close>.
\<close>

section \<open>State\<close>

datatype rs_unit = U_ALU | U_BRANCH | U_FP_ADDSUB | U_FP_MUL | U_FP_DIV | U_FP_CVT

text \<open>The order of the pointer arrays in the phases 3 and 4.\<close>

definition all_units :: "rs_unit list" where
  "all_units = [U_ALU, U_BRANCH, U_FP_ADDSUB, U_FP_MUL, U_FP_DIV, U_FP_CVT]"

text \<open>The list names every station once, so a claim about all stations can be evaluated.\<close>

instantiation rs_unit :: enum
begin

definition "enum_class.enum = all_units"

definition "enum_class.enum_all P = list_all P all_units"

definition "enum_class.enum_ex P = list_ex P all_units"

instance
proof
  show "(UNIV :: rs_unit set) = set enum_class.enum"
    using rs_unit.exhaust by (auto simp: enum_rs_unit_def all_units_def)
  show "distinct (enum_class.enum :: rs_unit list)" by (simp add: enum_rs_unit_def all_units_def)
  show "enum_class.enum_all P \<longleftrightarrow> Ball UNIV P" for P :: "rs_unit \<Rightarrow> bool"
    by (auto simp: enum_all_rs_unit_def all_units_def) (metis rs_unit.exhaust)
  show "enum_class.enum_ex P \<longleftrightarrow> Bex UNIV P" for P :: "rs_unit \<Rightarrow> bool"
    by (auto simp: enum_ex_rs_unit_def all_units_def) (metis rs_unit.exhaust)
qed

end

record sim =
  s_mem :: "u32 list"
  s_rf :: regfile
  s_rat :: rat
  s_rob :: rob
  s_cdb :: cdb
  s_rs :: "rs_unit \<Rightarrow> station"
  s_lsb :: lsb
  s_iq :: iq
  s_last :: commit_record
  s_halted :: bool
  s_branch_in_flight :: bool
  s_cycle :: int

definition MAX_CYCLES :: int where "MAX_CYCLES = 200000"

definition unit_size :: "rs_unit \<Rightarrow> nat" where
  "unit_size u = (case u of U_ALU \<Rightarrow> RS_ALU_SIZE | U_BRANCH \<Rightarrow> RS_BRANCH_SIZE
     | U_FP_ADDSUB \<Rightarrow> RS_FP_ADDSUB_SIZE | U_FP_MUL \<Rightarrow> RS_FP_MUL_SIZE
     | U_FP_DIV \<Rightarrow> RS_FP_DIV_SIZE | U_FP_CVT \<Rightarrow> RS_FP_CVT_SIZE)"

text \<open>The units \<open>main\<close> instantiates, with the program loaded.\<close>

definition sim_init :: "instruction list \<Rightarrow> sim res" where
  "sim_init program =
     res_bind (new_rob ROB_SIZE) (\<lambda>rob.
     res_bind (new_lsb LSB_SIZE) (\<lambda>lsb.
     res_bind (new_iq IQ_CAPACITY) (\<lambda>iq.
     Inr \<lparr>s_mem = replicate MEM_SIZE 0, s_rf = init_regfile, s_rat = init_rat, s_rob = rob,
          s_cdb = new_cdb, s_rs = (\<lambda>u. new_station (unit_size u)), s_lsb = lsb,
          s_iq = iq_load_program program iq, s_last = empty_commit_record, s_halted = False,
          s_branch_in_flight = False, s_cycle = 1\<rparr>)))"

section \<open>Dispatch\<close>

text \<open>The station an instruction goes to; \<open>None\<close> for the load/store buffer.\<close>

definition target_unit :: "opcode \<Rightarrow> rs_unit option" where
  "target_unit op =
     (if is_load op \<or> is_store op then None
      else if is_branch op \<or> is_jump op then Some U_BRANCH
      else case op of
          Op_FADD_S \<Rightarrow> Some U_FP_ADDSUB | Op_FSUB_S \<Rightarrow> Some U_FP_ADDSUB
        | Op_FMUL_S \<Rightarrow> Some U_FP_MUL
        | Op_FDIV_S \<Rightarrow> Some U_FP_DIV
        | Op_FCVT_W_S \<Rightarrow> Some U_FP_CVT | Op_FCVT_S_W \<Rightarrow> Some U_FP_CVT
        | _ \<Rightarrow> Some U_ALU)"

definition map_destination :: "instruction \<Rightarrow> int \<Rightarrow> rat \<Rightarrow> rat res" where
  "map_destination instr tag t =
     (if 0 \<le> in_rd instr then rat_map (in_rd instr) (in_rd_fp instr) tag t else Inr t)"

text \<open>\<open>(issued, branch_dispatched, new state)\<close>.\<close>

definition try_dispatch :: "sim \<Rightarrow> (bool \<times> bool \<times> sim) res" where
  "try_dispatch s =
     (if \<not> iq_can_dispatch (s_iq s) then Inr (False, False, s)
      else res_bind (iq_peek (s_iq s)) (\<lambda>instr.
        let full_rob = rob_full (s_rob s);
            ctl = is_branch (in_op instr) \<or> is_jump (in_op instr) in
        case target_unit (in_op instr) of
          None \<Rightarrow>
            if \<not> full_rob \<and> \<not> lsb_full (s_lsb s) then
              (let (tag, rob') = rob_allocate instr (s_rob s) in
               res_bind (lsb_issue instr tag (s_rat s) (s_rf s) rob' (s_lsb s)) (\<lambda>(_, lsb').
               res_bind (map_destination instr tag (s_rat s)) (\<lambda>rat'.
               res_bind (iq_dispatch (s_iq s)) (\<lambda>(_, iq').
               Inr (True, ctl, s\<lparr>s_rob := rob', s_lsb := lsb', s_rat := rat', s_iq := iq'\<rparr>)))))
            else Inr (False, False, s)
        | Some u \<Rightarrow>
            if \<not> full_rob \<and> \<not> rs_full (s_rs s u) then
              (let (tag, rob') = rob_allocate instr (s_rob s) in
               res_bind (rs_issue instr tag (s_rat s) (s_rf s) rob' (s_rs s u)) (\<lambda>(_, st').
               res_bind (map_destination instr tag (s_rat s)) (\<lambda>rat'.
               res_bind (iq_dispatch (s_iq s)) (\<lambda>(_, iq').
               Inr (True, ctl, s\<lparr>s_rob := rob', s_rs := (s_rs s)(u := st'), s_rat := rat',
                                 s_iq := iq'\<rparr>)))))
            else Inr (False, False, s)))"

section \<open>The phases of a cycle\<close>

text \<open>Phase 1: every unit executes one cycle.\<close>

definition phase_execute :: "fp_env \<Rightarrow> sim \<Rightarrow> sim" where
  "phase_execute fe s = s\<lparr>s_rs := (\<lambda>u. rs_tick fe (s_rs s u)), s_lsb := lsb_tick (s_mem s) (s_lsb s)\<rparr>"

text \<open>Phase 2: done stores are marked in the reorder buffer.\<close>

definition phase_stores :: "sim \<Rightarrow> sim res" where
  "phase_stores s = res_bind (lsb_update_rob (s_lsb s) (s_rob s)) (\<lambda>rob'. Inr (s\<lparr>s_rob := rob'\<rparr>))"

text \<open>Phase 3: \<open>while (rs->has_result())\<close>, then \<open>while (lsb.has_load_result())\<close>.\<close>

lemma rs_pop_result_decreases:
  assumes "rs_pop_result st = Inr (r, st')"
  shows "length (filter (\<lambda>e. rs_busy e \<and> rs_done e) (st_entries st'))
       < length (filter (\<lambda>e. rs_busy e \<and> rs_done e) (st_entries st))"
proof -
  let ?P = "\<lambda>e. rs_busy e \<and> rs_done e"
  have drop: "length (filter ?P (es[i := empty_rs_entry])) < length (filter ?P es)"
    if "i < length es" "?P (es ! i)" for es i
    using that
  proof (induction es arbitrary: i)
    case (Cons x xs)
    then show ?case by (cases i) (auto simp: empty_rs_entry_def)
  qed simp
  have "rs_has_result st" using assms rs_pop_result_error by fastforce
  then show ?thesis
    using assms drop by (elim rs_pop_result_cases) auto
qed

function broadcast_station :: "station \<Rightarrow> rob \<Rightarrow> cdb \<Rightarrow> (station \<times> rob \<times> cdb) res" where
  "broadcast_station st b c =
     (if rs_has_result st then
        (case rs_pop_result st of
           Inl err \<Rightarrow> Inl err
         | Inr (r, st') \<Rightarrow>
             (case rob_write_result (rs_rob_tag r) (rs_result r) b of
                Inl err \<Rightarrow> Inl err
              | Inr b' \<Rightarrow> broadcast_station st' b' (cdb_broadcast (rs_rob_tag r) (rs_result r) c)))
      else Inr (st, b, c))"
  by pat_completeness auto
termination
  by (relation "measure (\<lambda>(st, b, c). length (filter (\<lambda>e. rs_busy e \<and> rs_done e) (st_entries st)))")
     (auto intro: rs_pop_result_decreases)

declare broadcast_station.simps [simp del]

definition broadcast_unit :: "rs_unit \<Rightarrow> sim \<Rightarrow> sim res" where
  "broadcast_unit u s = res_bind (broadcast_station (s_rs s u) (s_rob s) (s_cdb s))
     (\<lambda>(st, b, c). Inr (s\<lparr>s_rs := (s_rs s)(u := st), s_rob := b, s_cdb := c\<rparr>))"

lemma lsb_pop_decreases:
  "lsb_has_load_result q \<Longrightarrow> lsb_pop_load_result q = Inr (r, q') \<Longrightarrow> lsb_count q' < lsb_count q"
  by (auto simp: lsb_pop_load_result_def lsb_has_load_result_def lsb_empty_def lsb_drop_head_def
      split: if_splits)

function broadcast_loads :: "lsb \<Rightarrow> rob \<Rightarrow> cdb \<Rightarrow> (lsb \<times> rob \<times> cdb) res" where
  "broadcast_loads q b c =
     (if lsb_has_load_result q then
        (case lsb_pop_load_result q of
           Inl err \<Rightarrow> Inl err
         | Inr (r, q') \<Rightarrow>
             (case rob_write_result (l_rob_tag r) (l_result r) b of
                Inl err \<Rightarrow> Inl err
              | Inr b' \<Rightarrow> broadcast_loads q' b' (cdb_broadcast (l_rob_tag r) (l_result r) c)))
      else Inr (q, b, c))"
  by pat_completeness auto
termination
  by (relation "measure (\<lambda>(q, b, c). lsb_count q)") (auto intro: lsb_pop_decreases)

declare broadcast_loads.simps [simp del]

definition phase_broadcast :: "sim \<Rightarrow> sim res" where
  "phase_broadcast s = res_bind (res_fold broadcast_unit all_units s) (\<lambda>s1.
     res_bind (broadcast_loads (s_lsb s1) (s_rob s1) (s_cdb s1)) (\<lambda>(q, b, c).
     Inr (s1\<lparr>s_lsb := q, s_rob := b, s_cdb := c\<rparr>)))"

text \<open>Phase 4: every unit snoops the bus.\<close>

definition phase_snoop :: "sim \<Rightarrow> sim" where
  "phase_snoop s =
     (let s1 = fold (\<lambda>u s. s\<lparr>s_rs := (s_rs s)(u := rs_snoop (s_cdb s) (s_rs s u))\<rparr>) all_units s
      in s1\<lparr>s_lsb := lsb_snoop (s_cdb s1) (s_lsb s1)\<rparr>)"

text \<open>Phase 5: in-order commit; a branch or jump redirects the fetch.\<close>

definition commit_args :: "sim \<Rightarrow> commit_state" where
  "commit_args s = \<lparr>cs_last = s_last s, cs_rob = s_rob s, cs_rf = s_rf s, cs_rat = s_rat s,
     cs_lsb = s_lsb s, cs_mem = s_mem s, cs_next_pc = 0, cs_halted = s_halted s\<rparr>"

definition commit_results :: "commit_state \<Rightarrow> sim \<Rightarrow> sim" where
  "commit_results c s = s\<lparr>s_last := cs_last c, s_rob := cs_rob c, s_rf := cs_rf c, s_rat := cs_rat c,
     s_lsb := cs_lsb c, s_mem := cs_mem c, s_halted := cs_halted c\<rparr>"

definition phase_commit :: "sim \<Rightarrow> sim res" where
  "phase_commit s =
     res_bind (cu_tick (commit_args s)) (\<lambda>(committed, c).
     let s1 = commit_results c s in
     if committed \<and> (is_branch (cr_op (s_last s1)) \<or> is_jump (cr_op (s_last s1)))
     then Inr (s1\<lparr>s_branch_in_flight := False, s_iq := iq_seek (cs_next_pc c) (s_iq s1)\<rparr>)
     else Inr s1)"

text \<open>Phase 6: fetch, then dispatch up to \<open>IQ_FETCH_WIDTH\<close> instructions, unless a branch is in
  flight or the machine has halted.\<close>

fun dispatch_loop :: "nat \<Rightarrow> sim \<Rightarrow> sim res" where
  "dispatch_loop 0 s = Inr s"
| "dispatch_loop (Suc w) s =
     res_bind (if iq_can_dispatch (s_iq s)
               then res_bind (iq_peek (s_iq s)) (\<lambda>i. Inr (in_pc i)) else Inr 0) (\<lambda>peek_pc.
     res_bind (try_dispatch s) (\<lambda>(issued, branch_dispatched, s1).
     if \<not> issued then Inr s1
     else if branch_dispatched
     then Inr (s1\<lparr>s_branch_in_flight := True, s_iq := iq_seek (peek_pc + 4) (s_iq s1)\<rparr>)
     else dispatch_loop w s1))"

definition phase_dispatch :: "sim \<Rightarrow> sim res" where
  "phase_dispatch s =
     (if \<not> s_branch_in_flight s \<and> \<not> s_halted s
      then dispatch_loop IQ_FETCH_WIDTH (s\<lparr>s_iq := iq_tick (s_iq s)\<rparr>)
      else Inr s)"

text \<open>Phase 7: the bus is cleared, the cycle counter advances.\<close>

definition phase_end :: "sim \<Rightarrow> sim" where
  "phase_end s = s\<lparr>s_cdb := cdb_flush (s_cdb s), s_cycle := s_cycle s + 1\<rparr>"

definition sim_cycle :: "fp_env \<Rightarrow> sim \<Rightarrow> sim res" where
  "sim_cycle fe s =
     res_bind (phase_stores (phase_execute fe s)) (\<lambda>s2.
     res_bind (phase_broadcast s2) (\<lambda>s3.
     res_bind (phase_commit (phase_snoop s3)) (\<lambda>s5.
     res_bind (phase_dispatch s5) (\<lambda>s6.
     Inr (phase_end s6)))))"

section \<open>The clock loop\<close>

definition sim_drained :: "sim \<Rightarrow> bool" where
  "sim_drained s \<longleftrightarrow> \<not> s_halted s \<and> iq_done (s_iq s) \<and> rob_empty (s_rob s)"

lemma broadcast_unit_cycle: "broadcast_unit u s = Inr s' \<Longrightarrow> s_cycle s' = s_cycle s"
  by (auto simp: broadcast_unit_def)

lemma broadcast_units_cycle:
  "res_fold broadcast_unit us s = Inr s' \<Longrightarrow> s_cycle s' = s_cycle s"
  by (induction us arbitrary: s) (auto dest: broadcast_unit_cycle)

lemma snoop_units_cycle:
  "s_cycle (fold (\<lambda>u s. s\<lparr>s_rs := (s_rs s)(u := rs_snoop (s_cdb s) (s_rs s u))\<rparr>) us s) = s_cycle s"
  by (induction us arbitrary: s) simp_all

lemma try_dispatch_cycle: "try_dispatch s = Inr (i, b, s') \<Longrightarrow> s_cycle s' = s_cycle s"
  by (auto simp: try_dispatch_def Let_def split: if_splits option.splits prod.splits)

lemma dispatch_loop_cycle: "dispatch_loop w s = Inr s' \<Longrightarrow> s_cycle s' = s_cycle s"
  by (induction w s rule: dispatch_loop.induct)
     (auto dest: try_dispatch_cycle split: if_splits prod.splits)

lemma phase_stores_cycle: "phase_stores s = Inr s' \<Longrightarrow> s_cycle s' = s_cycle s"
  by (auto simp: phase_stores_def)

lemma phase_broadcast_cycle: "phase_broadcast s = Inr s' \<Longrightarrow> s_cycle s' = s_cycle s"
  by (auto simp: phase_broadcast_def dest: broadcast_units_cycle)

lemma phase_commit_cycle: "phase_commit s = Inr s' \<Longrightarrow> s_cycle s' = s_cycle s"
  by (auto simp: phase_commit_def commit_results_def Let_def split: if_splits)

lemma phase_dispatch_cycle: "phase_dispatch s = Inr s' \<Longrightarrow> s_cycle s' = s_cycle s"
  by (auto simp: phase_dispatch_def dest: dispatch_loop_cycle split: if_splits)

lemma sim_cycle_counts:
  assumes "sim_cycle fe s = Inr s'"
  shows "s_cycle s' = s_cycle s + 1"
proof -
  from assms obtain s2 s3 s5 s6 where s: "phase_stores (phase_execute fe s) = Inr s2"
    "phase_broadcast s2 = Inr s3" "phase_commit (phase_snoop s3) = Inr s5"
    "phase_dispatch s5 = Inr s6" "s' = phase_end s6"
    by (auto simp: sim_cycle_def)
  have "s_cycle (phase_execute fe s) = s_cycle s" "s_cycle (phase_snoop s3) = s_cycle s3"
    "s_cycle (phase_end s6) = s_cycle s6 + 1"
    by (simp_all add: phase_execute_def phase_snoop_def phase_end_def Let_def snoop_units_cycle)
  with s phase_stores_cycle phase_broadcast_cycle phase_commit_cycle phase_dispatch_cycle
  show ?thesis by metis
qed

text \<open>\<open>while (!halted && cycle <= MAX_CYCLES)\<close>, with the break once everything has drained.\<close>

function sim_loop :: "fp_env \<Rightarrow> sim \<Rightarrow> sim res" where
  "sim_loop fe s =
     (if s_halted s \<or> MAX_CYCLES < s_cycle s then Inr s
      else (case sim_cycle fe s of
              Inl err \<Rightarrow> Inl err
            | Inr s' \<Rightarrow> if sim_drained s' then Inr s' else sim_loop fe s'))"
  by pat_completeness auto
termination
  by (relation "measure (\<lambda>(fe, s). nat (MAX_CYCLES + 1 - s_cycle s))")
     (auto dest: sim_cycle_counts)

declare sim_loop.simps [simp del]

text \<open>\<open>main\<close> after parsing: exit status 1 (here \<open>None\<close>) for an empty program.\<close>

definition sim_main :: "fp_env \<Rightarrow> instruction list \<Rightarrow> sim res option" where
  "sim_main fe program =
     (if program = [] then None else Some (res_bind (sim_init program) (sim_loop fe)))"

end
