(* ===== verification/Flight.thy ===== *)
theory Flight
  imports Isa Sim
begin

text \<open>
  The instructions in flight, and what every unit must hold about them. A \<open>flight\<close> is the ghost
  state of the refinement proof: the architectural state before the oldest instruction in the
  reorder buffer, the instructions in the buffer, their entries, their tags, and the results on
  the bus that have not been snooped yet. \<open>arch_at F k\<close> is the architectural state before the
  \<open>k\<close>-th instruction when the ones before it are executed one after the other. All claims about
  values are made under \<open>safe\<close>: the memory accesses so far are aligned and in range. The shape of
  the machine state does not depend on it.
\<close>

section \<open>The ghost state\<close>

record flight =
  fl_fe :: fp_env
  fl_good :: bool
  fl_arch :: arch
  fl_ins :: "instruction list"
  fl_rob :: "rob_entry list"
  fl_tag :: "nat \<Rightarrow> int"
  fl_bus :: "cdb_result list"

definition arch_at :: "flight \<Rightarrow> nat \<Rightarrow> arch" where
  "arch_at F k = fold (isa_exec (fl_fe F)) (take k (fl_ins F)) (fl_arch F)"

definition safe :: "flight \<Rightarrow> nat \<Rightarrow> bool" where
  "safe F k \<longleftrightarrow> fl_good F \<and> (\<forall>m < k. good_access (fl_ins F ! m) (arch_at F m))"

text \<open>The youngest of the first \<open>k\<close> instructions that writes a register.\<close>

fun last_writer :: "instruction list \<Rightarrow> nat \<Rightarrow> int \<Rightarrow> bool \<Rightarrow> nat option" where
  "last_writer is 0 r fp = None"
| "last_writer is (Suc k) r fp = (if writes (is ! k) r fp then Some k else last_writer is k r fp)"

abbreviation op_at :: "flight \<Rightarrow> nat \<Rightarrow> opcode" where
  "op_at F k \<equiv> in_op (fl_ins F ! k)"

abbreviation state_at :: "flight \<Rightarrow> nat \<Rightarrow> rob_state" where
  "state_at F k \<equiv> r_state (fl_rob F ! k)"

text \<open>The result of instruction \<open>m\<close> will still come over the bus.\<close>

definition awaited :: "flight \<Rightarrow> nat \<Rightarrow> bool" where
  "awaited F m \<longleftrightarrow> state_at F m = ROB_IN_FLIGHT \<or>
     (state_at F m = ROB_DONE \<and> cdb_value (fl_bus F) (fl_tag F m) = Some (r_result (fl_rob F ! m)))"

text \<open>An operand of instruction \<open>k\<close>: it has the value the sequential machine reads, or it waits for
  the youngest older instruction that writes the register.\<close>

definition opnd_ok :: "flight \<Rightarrow> nat \<Rightarrow> u32 \<Rightarrow> int \<Rightarrow> int \<Rightarrow> bool \<Rightarrow> bool" where
  "opnd_ok F k v q r fp \<longleftrightarrow>
     (q = -1 \<and> (safe F k \<longrightarrow> v = reg_bits (ar_rf (arch_at F k)) r fp)) \<or>
     (\<exists>m. last_writer (fl_ins F) k r fp = Some m \<and> q = fl_tag F m \<and> awaited F m)"

definition result_ok :: "flight \<Rightarrow> nat \<Rightarrow> u32 \<Rightarrow> bool" where
  "result_ok F k v \<longleftrightarrow> (safe F (Suc k) \<longrightarrow> \<not> is_store (op_at F k) \<longrightarrow>
     v = isa_result (fl_fe F) (fl_ins F ! k) (arch_at F k))"

definition bus_ok :: "flight \<Rightarrow> bool" where
  "bus_ok F \<longleftrightarrow> (\<forall>r \<in> set (fl_bus F). \<exists>m < length (fl_ins F). c_rob_tag r = fl_tag F m \<and>
     state_at F m = ROB_DONE \<and> c_value r = r_result (fl_rob F ! m))"

definition flight_ok :: "flight \<Rightarrow> bool" where
  "flight_ok F \<longleftrightarrow>
     regfile_wf (ar_rf (fl_arch F)) \<and> length (fl_rob F) = length (fl_ins F) \<and>
     (\<forall>k < length (fl_ins F). wf_instr (fl_ins F ! k) \<and>
        rob_key (fl_rob F ! k) = instr_key (fl_ins F ! k) \<and> state_at F k \<noteq> ROB_IDLE \<and>
        (control (op_at F k) \<longrightarrow> Suc k = length (fl_ins F)) \<and>
        (state_at F k = ROB_DONE \<longrightarrow> result_ok F k (r_result (fl_rob F ! k)))) \<and>
     (\<forall>k. 0 \<le> fl_tag F k) \<and> inj_on (fl_tag F) {..<length (fl_ins F)} \<and> bus_ok F"

section \<open>Sequential execution of the instructions in flight\<close>

lemma arch_at_0 [simp]: "arch_at F 0 = fl_arch F"
  by (simp add: arch_at_def)

lemma arch_at_Suc: "k < length (fl_ins F) \<Longrightarrow>
    arch_at F (Suc k) = isa_exec (fl_fe F) (fl_ins F ! k) (arch_at F k)"
  by (simp add: arch_at_def take_Suc_conv_app_nth)

lemma arch_at_wf: "regfile_wf (ar_rf (fl_arch F)) \<Longrightarrow> regfile_wf (ar_rf (arch_at F k))"
proof -
  have "regfile_wf (ar_rf a) \<Longrightarrow> regfile_wf (ar_rf (fold (isa_exec fe) is a))" for fe "is" a
    by (induction "is" arbitrary: a) (simp_all add: isa_exec_wf)
  then show "regfile_wf (ar_rf (fl_arch F)) \<Longrightarrow> regfile_wf (ar_rf (arch_at F k))"
    by (simp add: arch_at_def)
qed

lemma arch_at_mem_length: "length (ar_mem (arch_at F k)) = length (ar_mem (fl_arch F))"
proof -
  have "length (ar_mem (fold (isa_exec fe) is a)) = length (ar_mem a)" for fe "is" a
    by (induction "is" arbitrary: a) simp_all
  then show ?thesis by (simp add: arch_at_def)
qed

lemma safe_mono: "safe F k \<Longrightarrow> m \<le> k \<Longrightarrow> safe F m"
  by (auto simp: safe_def)

lemma safe_Suc: "safe F (Suc k) \<longleftrightarrow> safe F k \<and> good_access (fl_ins F ! k) (arch_at F k)"
  by (auto simp: safe_def less_Suc_eq)

lemma last_writer_Some:
  "last_writer is k r fp = Some m \<Longrightarrow> m < k \<and> writes (is ! m) r fp"
  by (induction k) (auto split: if_splits simp: less_Suc_eq)

lemma last_writer_take:
  "k \<le> length is \<Longrightarrow> last_writer (is @ js) k r fp = last_writer is k r fp"
  by (induction k) (auto simp: nth_append)

lemma last_writer_Cons:
  "last_writer (i # is) (Suc k) r fp = (case last_writer is k r fp of
     None \<Rightarrow> if writes i r fp then Some 0 else None | Some m \<Rightarrow> Some (Suc m))"
  by (induction k) auto

text \<open>The register's value before instruction \<open>k\<close> is the result of its last writer, or the one
  before all of them.\<close>

lemma reg_bits_last_writer:
  assumes "regfile_wf (ar_rf (fl_arch F))" and "\<And>m. m < k \<Longrightarrow> wf_instr (fl_ins F ! m)"
    and "\<And>m. m < k \<Longrightarrow> \<not> control (op_at F m)" and "k \<le> length (fl_ins F)" and "r < 32"
  shows "reg_bits (ar_rf (arch_at F k)) r fp = (case last_writer (fl_ins F) k r fp of
     None \<Rightarrow> reg_bits (ar_rf (fl_arch F)) r fp
   | Some m \<Rightarrow> isa_result (fl_fe F) (fl_ins F ! m) (arch_at F m))"
  using assms(2-4)
proof (induction k)
  case (Suc k)
  have wf: "regfile_wf (ar_rf (arch_at F k))" using assms(1) by (rule arch_at_wf)
  have k: "wf_instr (fl_ins F ! k)" "\<not> control (op_at F k)" "k < length (fl_ins F)"
    using Suc.prems by auto
  show ?case
  proof (cases "writes (fl_ins F ! k) r fp")
    case True
    then show ?thesis using isa_exec_written [OF wf k(1) True k(2)] k by (simp add: arch_at_Suc)
  next
    case False
    then show ?thesis
      using isa_exec_unwritten [OF wf k(1) assms(5) False] Suc k by (simp add: arch_at_Suc)
  qed
qed simp

section \<open>Updates that keep the instructions\<close>

lemma arch_at_rob [simp]: "arch_at (F\<lparr>fl_rob := x\<rparr>) k = arch_at F k"
  "arch_at (F\<lparr>fl_bus := y\<rparr>) k = arch_at F k"
  by (simp_all add: arch_at_def)

lemma safe_rob [simp]: "safe (F\<lparr>fl_rob := x\<rparr>) k = safe F k" "safe (F\<lparr>fl_bus := y\<rparr>) k = safe F k"
  by (simp_all add: safe_def)

lemma result_ok_rob [simp]: "result_ok (F\<lparr>fl_rob := x\<rparr>) k v = result_ok F k v"
  "result_ok (F\<lparr>fl_bus := y\<rparr>) k v = result_ok F k v"
  by (simp_all add: result_ok_def)

lemma flight_okD:
  assumes "flight_ok F"
  shows "regfile_wf (ar_rf (fl_arch F))" and "length (fl_rob F) = length (fl_ins F)"
    and "\<And>k. k < length (fl_ins F) \<Longrightarrow> wf_instr (fl_ins F ! k)"
    and "\<And>k. k < length (fl_ins F) \<Longrightarrow> rob_key (fl_rob F ! k) = instr_key (fl_ins F ! k)"
    and "\<And>k. k < length (fl_ins F) \<Longrightarrow> state_at F k \<noteq> ROB_IDLE"
    and "\<And>k. k < length (fl_ins F) \<Longrightarrow> control (op_at F k) \<Longrightarrow> Suc k = length (fl_ins F)"
    and "\<And>k. k < length (fl_ins F) \<Longrightarrow> state_at F k = ROB_DONE \<Longrightarrow> result_ok F k (r_result (fl_rob F ! k))"
    and "\<And>k. 0 \<le> fl_tag F k" and "inj_on (fl_tag F) {..<length (fl_ins F)}" and "bus_ok F"
  using assms by (auto simp: flight_ok_def)

lemma fl_tag_inject:
  "flight_ok F \<Longrightarrow> j < length (fl_ins F) \<Longrightarrow> k < length (fl_ins F) \<Longrightarrow> fl_tag F j = fl_tag F k \<longleftrightarrow> j = k"
  using flight_okD(9) by (auto dest: inj_onD)

lemma fl_tag_not_neg: "flight_ok F \<Longrightarrow> fl_tag F k \<noteq> -1"
  using flight_okD(8) [of F k] by simp

text \<open>Completing instruction \<open>k\<close> with a broadcast, and marking a store done without one.\<close>

definition fl_complete :: "nat \<Rightarrow> u32 \<Rightarrow> flight \<Rightarrow> flight" where
  "fl_complete k v F = F\<lparr>fl_rob := (fl_rob F)[k := complete_entry v (fl_rob F ! k)],
     fl_bus := fl_bus F @ [\<lparr>c_rob_tag = fl_tag F k, c_value = v\<rparr>]\<rparr>"

definition fl_mark :: "nat \<Rightarrow> flight \<Rightarrow> flight" where
  "fl_mark k F = F\<lparr>fl_rob := (fl_rob F)[k := complete_entry 0 (fl_rob F ! k)]\<rparr>"

lemma fl_complete_fields [simp]:
  "fl_ins (fl_complete k v F) = fl_ins F" "fl_tag (fl_complete k v F) = fl_tag F"
  "fl_fe (fl_complete k v F) = fl_fe F" "fl_arch (fl_complete k v F) = fl_arch F"
  "fl_good (fl_complete k v F) = fl_good F"
  "arch_at (fl_complete k v F) m = arch_at F m" "safe (fl_complete k v F) m = safe F m"
  "result_ok (fl_complete k v F) m w = result_ok F m w"
  by (simp_all add: fl_complete_def)

lemma fl_mark_fields [simp]:
  "fl_ins (fl_mark k F) = fl_ins F" "fl_tag (fl_mark k F) = fl_tag F" "fl_bus (fl_mark k F) = fl_bus F"
  "fl_fe (fl_mark k F) = fl_fe F" "fl_arch (fl_mark k F) = fl_arch F" "fl_good (fl_mark k F) = fl_good F"
  "arch_at (fl_mark k F) m = arch_at F m" "safe (fl_mark k F) m = safe F m"
  "result_ok (fl_mark k F) m w = result_ok F m w"
  by (simp_all add: fl_mark_def)

lemma bus_value_None:
  assumes "flight_ok F" and "k < length (fl_ins F)" and "state_at F k = ROB_IN_FLIGHT"
  shows "cdb_value (fl_bus F) (fl_tag F k) = None"
proof (rule ccontr)
  assume "cdb_value (fl_bus F) (fl_tag F k) \<noteq> None"
  then obtain r where "r \<in> set (fl_bus F)" "c_rob_tag r = fl_tag F k"
    by (auto dest: cdb_value_SomeD)
  then obtain m where "m < length (fl_ins F)" "fl_tag F k = fl_tag F m" "state_at F m = ROB_DONE"
    using flight_okD(10) [OF assms(1)] by (auto simp: bus_ok_def)
  then show False using assms fl_tag_inject [OF assms(1)] by auto
qed

lemma complete_entry_simps [simp]:
  "r_state (complete_entry v e) = ROB_DONE" "r_result (complete_entry v e) = v"
  "rob_key (complete_entry v e) = rob_key e"
  by (simp_all add: complete_entry_def rob_key_def)

lemma awaited_complete:
  assumes "flight_ok F" and "k < length (fl_ins F)" and "state_at F k = ROB_IN_FLIGHT"
    and "m < length (fl_ins F)" and "awaited F m"
  shows "awaited (fl_complete k v F) m"
proof (cases "m = k")
  case True
  then show ?thesis
    using assms bus_value_None [OF assms(1-3)] flight_okD(2) [OF assms(1)]
    by (simp add: awaited_def fl_complete_def cdb_value_append)
next
  case False
  then show ?thesis
    using assms fl_tag_inject [OF assms(1)]
    by (auto simp: awaited_def fl_complete_def cdb_value_append split: option.splits)
qed

lemma opnd_ok_complete:
  assumes "flight_ok F" and "k < length (fl_ins F)" and "state_at F k = ROB_IN_FLIGHT"
    and "j \<le> length (fl_ins F)" and "opnd_ok F j w q r fp"
  shows "opnd_ok (fl_complete k v F) j w q r fp"
  using assms(5) awaited_complete [OF assms(1-3)] last_writer_Some [of "fl_ins F" j r fp] assms(4)
  by (auto simp: opnd_ok_def)

lemma opnd_ok_mark:
  assumes "flight_ok F" and "k < length (fl_ins F)" and "is_store (op_at F k)"
    and "j \<le> length (fl_ins F)" and "opnd_ok F j w q r fp"
  shows "opnd_ok (fl_mark k F) j w q r fp"
proof -
  have "m \<noteq> k" if "last_writer (fl_ins F) j r fp = Some m" for m
    using last_writer_Some [OF that] flight_okD(3) [OF assms(1,2)] assms(3)
    by (auto simp: wf_instr_def writes_def)
  then show ?thesis
    using assms(5) by (auto simp: opnd_ok_def awaited_def fl_mark_def)
qed

lemma flight_ok_complete:
  assumes "flight_ok F" and "k < length (fl_ins F)" and "state_at F k = ROB_IN_FLIGHT"
    and "result_ok F k v"
  shows "flight_ok (fl_complete k v F)"
proof -
  let ?F = "fl_complete k v F"
  note ok = flight_okD [OF assms(1)]
  have r: "fl_rob ?F ! m = (if m = k then complete_entry v (fl_rob F ! k) else fl_rob F ! m)"
    if "m < length (fl_ins F)" for m
    using that ok(2) assms(2) by (simp add: fl_complete_def)
  have "bus_ok ?F"
    unfolding bus_ok_def
  proof
    fix b assume "b \<in> set (fl_bus ?F)"
    then consider "b \<in> set (fl_bus F)" | "b = \<lparr>c_rob_tag = fl_tag F k, c_value = v\<rparr>"
      by (auto simp: fl_complete_def)
    then show "\<exists>m < length (fl_ins ?F). c_rob_tag b = fl_tag ?F m \<and> state_at ?F m = ROB_DONE \<and>
        c_value b = r_result (fl_rob ?F ! m)"
    proof cases
      case 1
      then obtain m where m: "m < length (fl_ins F)" "c_rob_tag b = fl_tag F m" "state_at F m = ROB_DONE"
          "c_value b = r_result (fl_rob F ! m)"
        using ok(10) by (auto simp: bus_ok_def)
      then have "m \<noteq> k" using assms(3) by auto
      then show ?thesis using m r by auto
    next
      case 2
      then show ?thesis using r assms(2) by auto
    qed
  qed
  then show ?thesis
    using ok r assms(4) by (auto simp: flight_ok_def) (simp add: fl_complete_def)
qed

lemma flight_ok_mark:
  assumes "flight_ok F" and "k < length (fl_ins F)" and "state_at F k = ROB_IN_FLIGHT"
    and "is_store (op_at F k)"
  shows "flight_ok (fl_mark k F)"
proof -
  let ?F = "fl_mark k F"
  note ok = flight_okD [OF assms(1)]
  have r: "fl_rob ?F ! m = (if m = k then complete_entry 0 (fl_rob F ! k) else fl_rob F ! m)"
    if "m < length (fl_ins F)" for m
    using that ok(2) assms(2) by (simp add: fl_mark_def)
  have "bus_ok ?F"
    using ok(10) r assms(3) by (fastforce simp: bus_ok_def)
  moreover have "result_ok F k 0" using assms(4) by (simp add: result_ok_def)
  ultimately show ?thesis
    using ok r by (auto simp: flight_ok_def) (simp add: fl_mark_def)
qed

section \<open>The bus is snooped\<close>

lemma bus_tags_ok: "flight_ok F \<Longrightarrow> cdb_tags_ok (fl_bus F)"
  using flight_okD(8,10) by (fastforce simp: bus_ok_def cdb_tags_ok_def)

lemma flight_ok_snooped: "flight_ok F \<Longrightarrow> flight_ok (F\<lparr>fl_bus := []\<rparr>)"
  by (auto simp: flight_ok_def bus_ok_def)

lemma operand_value:
  assumes "flight_ok F" and "k \<le> length (fl_ins F)" and "\<And>m. m < k \<Longrightarrow> \<not> control (op_at F m)"
    and "r < 32" and "last_writer (fl_ins F) k r fp = Some m" and "state_at F m = ROB_DONE" and "safe F k"
  shows "r_result (fl_rob F ! m) = reg_bits (ar_rf (arch_at F k)) r fp"
proof -
  have m: "m < k" "writes (fl_ins F ! m) r fp" using last_writer_Some [OF assms(5)] by auto
  note ok = flight_okD [OF assms(1)]
  have wf: "wf_instr (fl_ins F ! j)" if "j < k" for j using that assms(2) ok(3) by simp
  have "\<not> is_store (op_at F m)"
    using m wf [OF m(1)] by (auto simp: wf_instr_def writes_def)
  moreover have "safe F (Suc m)" using assms(7) m(1) by (rule safe_mono [OF _ Suc_leI])
  moreover have "result_ok F m (r_result (fl_rob F ! m))" using ok(7) m assms(2,6) by simp
  ultimately show ?thesis
    using reg_bits_last_writer [OF ok(1) wf assms(3,2,4), of fp] assms(5)
    by (simp add: result_ok_def)
qed

lemma no_control_before:
  "flight_ok F \<Longrightarrow> k < length (fl_ins F) \<Longrightarrow> m < k \<Longrightarrow> \<not> control (op_at F m)"
  using flight_okD(6) [of F m] by auto

lemma opnd_ok_snoop:
  assumes "flight_ok F" and "k < length (fl_ins F)" and "r < 32" and "opnd_ok F k v q r fp"
    and "q' = (case cdb_value (fl_bus F) q of None \<Rightarrow> q | Some w \<Rightarrow> -1)"
    and "v' = (case cdb_value (fl_bus F) q of None \<Rightarrow> v | Some w \<Rightarrow> w)"
  shows "opnd_ok (F\<lparr>fl_bus := []\<rparr>) k v' q' r fp"
proof -
  from assms(4) consider "q = -1" "safe F k \<longrightarrow> v = reg_bits (ar_rf (arch_at F k)) r fp"
    | m where "last_writer (fl_ins F) k r fp = Some m" "q = fl_tag F m" "awaited F m"
    by (auto simp: opnd_ok_def)
  then show ?thesis
  proof cases
    case 1
    then show ?thesis
      using assms(5,6) cdb_value_neg [OF bus_tags_ok [OF assms(1)]] by (simp add: opnd_ok_def)
  next
    case 2
    have m: "m < length (fl_ins F)" using last_writer_Some [OF 2(1)] assms(2) by simp
    show ?thesis
    proof (cases "state_at F m = ROB_IN_FLIGHT")
      case True
      then show ?thesis
        using 2 assms(5,6) bus_value_None [OF assms(1) m True] by (simp add: opnd_ok_def awaited_def)
    next
      case False
      then have d: "state_at F m = ROB_DONE" "cdb_value (fl_bus F) q = Some (r_result (fl_rob F ! m))"
        using 2 by (auto simp: awaited_def)
      then show ?thesis
        using assms(5,6) operand_value [OF assms(1) less_imp_le [OF assms(2)]
            no_control_before [OF assms(1,2)] assms(3) 2(1) d(1)]
        by (simp add: opnd_ok_def)
    qed
  qed
qed

section \<open>Dispatch of a new instruction\<close>

definition fl_push :: "instruction \<Rightarrow> flight \<Rightarrow> flight" where
  "fl_push i F = F\<lparr>fl_ins := fl_ins F @ [i], fl_rob := fl_rob F @ [fresh_rob_entry i]\<rparr>"

lemma fl_push_fields [simp]:
  "fl_ins (fl_push i F) = fl_ins F @ [i]" "fl_tag (fl_push i F) = fl_tag F"
  "fl_rob (fl_push i F) = fl_rob F @ [fresh_rob_entry i]" "fl_bus (fl_push i F) = fl_bus F"
  "fl_fe (fl_push i F) = fl_fe F" "fl_arch (fl_push i F) = fl_arch F" "fl_good (fl_push i F) = fl_good F"
  by (simp_all add: fl_push_def)

lemma arch_at_push: "k \<le> length (fl_ins F) \<Longrightarrow> arch_at (fl_push i F) k = arch_at F k"
  by (simp add: arch_at_def)

lemma safe_push: "k \<le> length (fl_ins F) \<Longrightarrow> safe (fl_push i F) k = safe F k"
  by (auto simp: safe_def nth_append arch_at_push)

lemma result_ok_push: "k < length (fl_ins F) \<Longrightarrow> result_ok (fl_push i F) k v = result_ok F k v"
  by (simp add: result_ok_def safe_push arch_at_push nth_append)

lemma awaited_push:
  "flight_ok F \<Longrightarrow> m < length (fl_ins F) \<Longrightarrow> awaited (fl_push i F) m = awaited F m"
  by (simp add: awaited_def nth_append flight_okD(2))

lemma opnd_ok_push:
  assumes "flight_ok F" and "k \<le> length (fl_ins F)"
  shows "opnd_ok (fl_push i F) k v q r fp = opnd_ok F k v q r fp"
proof -
  have "awaited (fl_push i F) m = awaited F m" if "last_writer (fl_ins F) k r fp = Some m" for m
    using awaited_push [OF assms(1)] last_writer_Some [OF that] assms(2) by simp
  then show ?thesis
    using assms by (auto simp: opnd_ok_def safe_push arch_at_push last_writer_take)
qed

lemma flight_ok_push:
  assumes "flight_ok F" and "wf_instr i" and "\<forall>k < length (fl_ins F). \<not> control (op_at F k)"
    and "inj_on (fl_tag F) {..<Suc (length (fl_ins F))}"
  shows "flight_ok (fl_push i F)"
proof -
  note ok = flight_okD [OF assms(1)]
  have "bus_ok (fl_push i F)"
    using ok(2,10) by (fastforce simp: bus_ok_def nth_append)
  moreover have "rob_key (fresh_rob_entry i) = instr_key i" "r_state (fresh_rob_entry i) = ROB_IN_FLIGHT"
    by (simp_all add: fresh_rob_entry_def rob_key_def instr_key_def)
  ultimately show ?thesis
    using ok assms(2,3,4)
    by (auto simp: flight_ok_def nth_append result_ok_push less_Suc_eq)
qed

section \<open>Retirement of the oldest instruction\<close>

definition fl_shift :: "flight \<Rightarrow> flight" where
  "fl_shift F = F\<lparr>fl_good := safe F 1, fl_arch := isa_exec (fl_fe F) (hd (fl_ins F)) (fl_arch F),
     fl_ins := tl (fl_ins F), fl_rob := tl (fl_rob F), fl_tag := (\<lambda>k. fl_tag F (Suc k))\<rparr>"

lemma fl_shift_fields [simp]:
  "fl_ins (fl_shift F) = tl (fl_ins F)" "fl_tag (fl_shift F) k = fl_tag F (Suc k)"
  "fl_rob (fl_shift F) = tl (fl_rob F)" "fl_bus (fl_shift F) = fl_bus F"
  "fl_fe (fl_shift F) = fl_fe F" "fl_good (fl_shift F) = safe F 1"
  "fl_arch (fl_shift F) = isa_exec (fl_fe F) (hd (fl_ins F)) (fl_arch F)"
  by (simp_all add: fl_shift_def)

lemma arch_at_shift: "fl_ins F \<noteq> [] \<Longrightarrow> arch_at (fl_shift F) k = arch_at F (Suc k)"
  by (cases "fl_ins F") (simp_all add: arch_at_def)

lemma safe_shift:
  assumes "Suc k \<le> length (fl_ins F)"
  shows "safe (fl_shift F) k \<longleftrightarrow> safe F (Suc k)"
proof -
  have ne: "fl_ins F \<noteq> []" using assms by auto
  have "tl (fl_ins F) ! m = fl_ins F ! Suc m" for m using ne by (cases "fl_ins F") simp_all
  then have "safe (fl_shift F) k \<longleftrightarrow> safe F 1 \<and> (\<forall>m < k. good_access (fl_ins F ! Suc m) (arch_at F (Suc m)))"
    using ne by (simp add: safe_def arch_at_shift)
  also have "\<dots> \<longleftrightarrow> safe F (Suc k)"
    by (auto simp: safe_def less_Suc_eq_0_disj)
  finally show ?thesis .
qed

lemma nth_tl_ins: "fl_ins F \<noteq> [] \<Longrightarrow> tl (fl_ins F) ! m = fl_ins F ! Suc m"
  by (cases "fl_ins F") simp_all

lemma result_ok_shift:
  assumes "Suc k < length (fl_ins F)"
  shows "result_ok (fl_shift F) k v = result_ok F (Suc k) v"
proof -
  have "fl_ins F \<noteq> []" using assms by auto
  then show ?thesis
    using assms by (simp add: result_ok_def safe_shift arch_at_shift nth_tl_ins)
qed

lemma opnd_ok_shift:
  assumes "flight_ok F" and "fl_bus F = []" and "state_at F 0 = ROB_DONE"
    and "Suc k < length (fl_ins F)" and "opnd_ok F (Suc k) v q r fp"
  shows "opnd_ok (fl_shift F) k v q r fp"
proof -
  obtain i "is" where ins: "fl_ins F = i # is" using assms(4) by (cases "fl_ins F") auto
  obtain e es where rob: "fl_rob F = e # es"
    using flight_okD(2) [OF assms(1)] ins by (cases "fl_rob F") auto
  from assms(5) consider "q = -1" "safe F (Suc k) \<longrightarrow> v = reg_bits (ar_rf (arch_at F (Suc k))) r fp"
    | m where "last_writer (fl_ins F) (Suc k) r fp = Some m" "q = fl_tag F m" "awaited F m"
    by (auto simp: opnd_ok_def)
  then show ?thesis
  proof cases
    case 1
    then show ?thesis using ins assms(4) by (simp add: opnd_ok_def safe_shift arch_at_shift)
  next
    case 2
    have "\<not> awaited F 0" using assms(2,3) by (simp add: awaited_def)
    with 2(3) have "m \<noteq> 0" by metis
    then obtain m' where m': "m = Suc m'" "last_writer is k r fp = Some m'"
      using 2(1) ins by (auto simp: last_writer_Cons simp del: last_writer.simps
          split: option.splits if_splits)
    then show ?thesis
      using 2 ins rob assms(2) by (auto simp: opnd_ok_def awaited_def)
  qed
qed

lemma flight_ok_shift:
  assumes "flight_ok F" and "fl_bus F = []" and "fl_ins F \<noteq> []"
  shows "flight_ok (fl_shift F)"
proof -
  note ok = flight_okD [OF assms(1)]
  obtain i "is" where ins: "fl_ins F = i # is" using assms(3) by (cases "fl_ins F") auto
  obtain e es where rob: "fl_rob F = e # es" using ok(2) ins by (cases "fl_rob F") auto
  have "inj_on (\<lambda>k. fl_tag F (Suc k)) {..<length is}"
    using ok(9) ins by (auto simp: inj_on_def)
  moreover have "wf_instr (is ! k)" "rob_key (es ! k) = instr_key (is ! k)" "r_state (es ! k) \<noteq> ROB_IDLE"
    "control (in_op (is ! k)) \<Longrightarrow> Suc k = length is"
    "r_state (es ! k) = ROB_DONE \<Longrightarrow> result_ok (fl_shift F) k (r_result (es ! k))"
    if "k < length is" for k
    using that ok(3-7) [of "Suc k"] ins rob by (auto simp: result_ok_shift)
  ultimately show ?thesis
    using ok(1,2,8) ins rob assms(2)
    by (auto simp: flight_ok_def bus_ok_def isa_exec_wf fl_shift_def [of F])
qed

section \<open>Operands at dispatch\<close>

text \<open>The renaming table names the last writer of every register.\<close>

definition rat_ok :: "flight \<Rightarrow> rat \<Rightarrow> bool" where
  "rat_ok F t \<longleftrightarrow> rat_wf t \<and> (\<forall>r fp. rat_index_ok r fp \<longrightarrow>
     rat_producer t r fp = map_option (fl_tag F) (last_writer (fl_ins F) (length (fl_ins F)) r fp))"

lemma resolve_flight:
  assumes "flight_ok F" and "\<forall>k < length (fl_ins F). \<not> control (op_at F k)" and "rat_ok F t"
    and "rob_wf b" and "rob_list b = fl_rob F @ [e0]" and "rob_tag_of b = fl_tag F"
    and "fl_good F \<longrightarrow> rf = ar_rf (fl_arch F)" and "r < 32"
  obtains v' q where "resolve_operand r fp t rf b v = Inr (v', q)"
    and "opnd_ok F (length (fl_ins F)) v' q r fp"
proof (cases "r < 0")
  case True
  then show thesis
    using that resolve_unused [OF True] by (simp add: opnd_ok_def reg_bits_def)
next
  case False
  let ?n = "length (fl_ins F)"
  note ok = flight_okD [OF assms(1)]
  have idx: "rat_index_ok r fp" using False assms(8) by (simp add: rat_index_ok_def)
  have prod: "rat_producer t r fp = map_option (fl_tag F) (last_writer (fl_ins F) ?n r fp)"
    using assms(3) idx by (simp add: rat_ok_def)
  show thesis
  proof (cases "last_writer (fl_ins F) ?n r fp")
    case None
    have "safe F ?n \<longrightarrow> reg_bits rf r fp = reg_bits (ar_rf (arch_at F ?n)) r fp"
      using reg_bits_last_writer [OF ok(1,3) _ order_refl assms(8), of fp] assms(2,7) None
      by (auto simp: safe_def)
    moreover have "resolve_operand r fp t rf b v = Inr (reg_bits rf r fp, -1)"
      using resolve_committed [OF idx] prod None by simp
    ultimately show thesis using that by (auto simp: opnd_ok_def)
  next
    case (Some m)
    have m: "m < ?n" using last_writer_Some [OF Some] by simp
    have p: "rat_producer t r fp = Some (rob_tag_of b m)" using prod Some assms(6) by simp
    have c: "m < rob_count b" using m ok(2) assms(5) length_rob_list [of b] by simp
    have e: "rob_list b ! m = fl_rob F ! m" using m ok(2) assms(5) by (simp add: nth_append)
    note res = resolve_renamed [OF idx p assms(4) c, of rf v, unfolded e]
    show thesis
    proof (cases "state_at F m = ROB_DONE")
      case True
      then have "opnd_ok F ?n (r_result (fl_rob F ! m)) (-1) r fp"
        using operand_value [OF assms(1) order_refl _ assms(8) Some True] assms(2)
        by (simp add: opnd_ok_def)
      then show thesis using that res True by simp
    next
      case False
      then have "awaited F m" using ok(5) [OF m] by (cases "state_at F m") (auto simp: awaited_def)
      then have "opnd_ok F ?n v (fl_tag F m) r fp" using Some by (simp add: opnd_ok_def)
      then show thesis using that res False assms(6) by simp
    qed
  qed
qed

text \<open>Renaming the destination of the dispatched instruction, and releasing that of the retired
  one.\<close>

lemma rat_ok_push:
  assumes "rat_ok F t" and "wf_instr i"
  obtains t' where "map_destination i (fl_tag F (length (fl_ins F))) t = Inr t'" and "rat_ok (fl_push i F) t'"
proof (cases "0 \<le> in_rd i")
  case False
  then have "\<not> writes i r fp" for r fp by (auto simp: writes_def)
  then have "rat_ok (fl_push i F) t"
    using assms(1) by (simp add: rat_ok_def last_writer_take)
  then show thesis using that False by (simp add: map_destination_def)
next
  case True
  let ?n = "length (fl_ins F)" and ?r = "in_rd i" and ?fp = "in_rd_fp i"
  have idx: "rat_index_ok ?r ?fp" using True assms(2) by (simp add: rat_index_ok_def wf_instr_def)
  obtain t' where t': "rat_map ?r ?fp (fl_tag F ?n) t = Inr t'" "rat_wf t'"
    and p: "\<And>q b. rat_index_ok q b \<Longrightarrow> rat_producer t' q b
        = (if q = ?r \<and> b = ?fp \<and> \<not> (?r = 0 \<and> \<not> ?fp) then Some (fl_tag F ?n) else rat_producer t q b)"
    using rat_producer_map [OF _ idx, of t "fl_tag F ?n"] assms(1) by (auto simp: rat_ok_def)
  have "rat_ok (fl_push i F) t'"
    using assms(1) t'(2) p True
    by (auto simp: rat_ok_def last_writer_take writes_def nth_append)
  then show thesis using that t'(1) True by (simp add: map_destination_def)
qed

lemma last_writer_shift:
  assumes "fl_ins F = i # is"
  shows "last_writer is (length is) r fp = (case last_writer (fl_ins F) (length (fl_ins F)) r fp of
     None \<Rightarrow> None | Some m \<Rightarrow> if m = 0 then None else Some (m - 1))"
  using assms by (auto simp: last_writer_Cons simp del: last_writer.simps split: option.splits)

lemma rat_ok_shift:
  assumes "flight_ok F" and "rat_ok F t" and "fl_ins F = i # is" and "0 \<le> in_rd i"
  obtains t' where "rat_commit (in_rd i) (in_rd_fp i) (fl_tag F 0) t = Inr t'" and "rat_ok (fl_shift F) t'"
proof -
  have "wf_instr i" using flight_okD(3) [OF assms(1), of 0] assms(3) by simp
  then have idx: "rat_index_ok (in_rd i) (in_rd_fp i)"
    using assms(4) by (simp add: rat_index_ok_def wf_instr_def)
  obtain t' where t': "rat_commit (in_rd i) (in_rd_fp i) (fl_tag F 0) t = Inr t'" "rat_wf t'"
    and p: "\<And>q b. rat_index_ok q b \<Longrightarrow> rat_producer t' q b
        = (if q = in_rd i \<and> b = in_rd_fp i \<and> rat_producer t (in_rd i) (in_rd_fp i) = Some (fl_tag F 0)
           then None else rat_producer t q b)"
    using rat_producer_commit [OF _ idx, of t "fl_tag F 0"] assms(2) by (auto simp: rat_ok_def)
  have "rat_producer t' q b = map_option (\<lambda>k. fl_tag F (Suc k)) (last_writer is (length is) q b)"
    if q: "rat_index_ok q b" for q b
  proof -
    let ?w = "last_writer (fl_ins F) (length (fl_ins F))"
    have prod: "rat_producer t q b = map_option (fl_tag F) (?w q b)"
        "rat_producer t (in_rd i) (in_rd_fp i) = map_option (fl_tag F) (?w (in_rd i) (in_rd_fp i))"
      using assms(2) q idx by (simp_all add: rat_ok_def)
    show ?thesis
    proof (cases "?w q b")
      case None
      then show ?thesis using p [OF q] prod last_writer_shift [OF assms(3), of q b] by auto
    next
      case (Some m)
      have m: "m < length (fl_ins F)" "writes (fl_ins F ! m) q b" using last_writer_Some [OF Some] by auto
      show ?thesis
      proof (cases "m = 0")
        case True
        then have "q = in_rd i" "b = in_rd_fp i" using m assms(3) by (auto simp: writes_def)
        then show ?thesis
          using p [OF q] prod Some True last_writer_shift [OF assms(3), of q b] by simp
      next
        case False
        then have "fl_tag F m \<noteq> fl_tag F 0" using m fl_tag_inject [OF assms(1), of m 0] assms(3) by simp
        moreover have "rat_producer t q b = Some (fl_tag F m)" using prod Some by simp
        ultimately have "rat_producer t' q b = Some (fl_tag F m)"
          using p [OF q] by (cases "q = in_rd i \<and> b = in_rd_fp i") auto
        then show ?thesis
          using Some False last_writer_shift [OF assms(3), of q b] by simp
      qed
    qed
  qed
  then have "rat_ok (fl_shift F) t'"
    using t'(2) assms(3) by (simp add: rat_ok_def fl_shift_def)
  then show thesis using that t'(1) by blast
qed

lemma rat_ok_shift_unwritten:
  assumes "rat_ok F t" and "fl_ins F = i # is" and "in_rd i < 0"
  shows "rat_ok (fl_shift F) t"
proof -
  have "m \<noteq> 0" if "last_writer (fl_ins F) (length (fl_ins F)) q b = Some m" for q b m
  proof
    assume "m = 0"
    then show False using last_writer_Some [OF that] assms(2,3) by (simp add: writes_def)
  qed
  then have "map_option (fl_tag F) (last_writer (fl_ins F) (length (fl_ins F)) q b)
      = map_option (\<lambda>k. fl_tag F (Suc k)) (last_writer is (length is) q b)" for q b
    using last_writer_shift [OF assms(2), of q b]
    by (cases "last_writer (fl_ins F) (length (fl_ins F)) q b") auto
  then show ?thesis using assms(1,2) by (simp add: rat_ok_def fl_shift_def)
qed

lemma rat_ok_fields:
  "rat_ok (fl_complete k v F) t = rat_ok F t" "rat_ok (fl_mark k F) t = rat_ok F t"
  "rat_ok (F\<lparr>fl_bus := c\<rparr>) t = rat_ok F t"
  by (simp_all add: rat_ok_def)

end
