(* ===== verification/Flight_Stations.thy ===== *)
theory Flight_Stations
  imports Flight
begin

text \<open>
  The reservation stations against the instructions in flight: a busy slot holds exactly one
  instruction of the flight that is still executing, with operands that are right or awaited,
  and every executing instruction of the station's kind has its slot. Each operation of a
  station keeps this relation along the change it makes to the flight.
\<close>

section \<open>The relation\<close>

definition holds :: "flight \<Rightarrow> nat \<Rightarrow> rs_entry \<Rightarrow> bool" where
  "holds F k e \<longleftrightarrow> rs_rob_tag e = fl_tag F k \<and> rs_op e = op_at F k \<and>
     rs_imm e = in_imm (fl_ins F ! k) \<and> rs_pc e = in_pc (fl_ins F ! k) \<and>
     opnd_ok F k (rs_vj e) (rs_qj e) (in_rs1 (fl_ins F ! k)) (in_rs1_fp (fl_ins F ! k)) \<and>
     opnd_ok F k (rs_vk e) (rs_qk e) (in_rs2 (fl_ins F ! k)) (in_rs2_fp (fl_ins F ! k))"

definition rs_entry_ok :: "flight \<Rightarrow> rs_unit \<Rightarrow> rs_entry \<Rightarrow> bool" where
  "rs_entry_ok F u e \<longleftrightarrow> (rs_busy e \<longrightarrow> (\<exists>k < length (fl_ins F). state_at F k = ROB_IN_FLIGHT \<and>
     target_unit (op_at F k) = Some u \<and> holds F k e))"

definition distinct_tags :: "rs_entry list \<Rightarrow> bool" where
  "distinct_tags es \<longleftrightarrow> (\<forall>i < length es. \<forall>j < length es. rs_busy (es ! i) \<longrightarrow> rs_busy (es ! j) \<longrightarrow>
     rs_rob_tag (es ! i) = rs_rob_tag (es ! j) \<longrightarrow> i = j)"

definition all_held :: "flight \<Rightarrow> rs_unit \<Rightarrow> rs_entry list \<Rightarrow> bool" where
  "all_held F u es \<longleftrightarrow> (\<forall>k < length (fl_ins F). state_at F k = ROB_IN_FLIGHT \<longrightarrow>
     target_unit (op_at F k) = Some u \<longrightarrow> (\<exists>e \<in> set es. rs_busy e \<and> rs_rob_tag e = fl_tag F k))"

definition station_ok :: "flight \<Rightarrow> rs_unit \<Rightarrow> station \<Rightarrow> bool" where
  "station_ok F u st \<longleftrightarrow> station_wf (fl_fe F) st \<and> (\<forall>e \<in> set (st_entries st). rs_entry_ok F u e) \<and>
     distinct_tags (st_entries st) \<and> all_held F u (st_entries st)"

lemma station_ok_entry: "station_ok F u st \<Longrightarrow> i < length (st_entries st) \<Longrightarrow> rs_entry_ok F u (st_entries st ! i)"
  by (simp add: station_ok_def)

lemma station_ok_held:
  assumes "station_ok F u st" and "k < length (fl_ins F)" and "state_at F k = ROB_IN_FLIGHT"
    and "target_unit (op_at F k) = Some u"
  obtains i where "i < length (st_entries st)" and "rs_busy (st_entries st ! i)"
    and "rs_rob_tag (st_entries st ! i) = fl_tag F k"
  using assms by (fastforce simp: station_ok_def all_held_def in_set_conv_nth)

section \<open>Tick\<close>

definition rs_core :: "rs_entry \<Rightarrow> bool \<times> opcode \<times> int \<times> i32 \<times> u32 \<times> u32 \<times> u32 \<times> int \<times> int" where
  "rs_core e = (rs_busy e, rs_op e, rs_rob_tag e, rs_imm e, rs_pc e, rs_vj e, rs_vk e, rs_qj e, rs_qk e)"

lemma rs_core_countdown [simp]: "rs_core (rs_countdown fe e) = rs_core e"
  by (simp add: rs_core_def rs_countdown_def Let_def)

lemma rs_core_begin [simp]: "rs_core (rs_begin fe e) = rs_core e"
  by (simp add: rs_core_def rs_begin_def)

lemma rs_tick_core:
  assumes "station_wf fe s" and "i < length (st_entries s)"
  shows "rs_core (st_entries (rs_tick fe s) ! i) = rs_core (st_entries s ! i)"
proof -
  have "0 \<le> rs_cycles_rem (st_entries s ! i)"
    using assms by (simp add: station_wf_def rs_entry_wf_def)
  from rs_tick_entry [OF assms(2) this, of fe] show ?thesis
    by (auto split: if_splits)
qed

lemma rs_entry_ok_core: "rs_core e = rs_core e' \<Longrightarrow> rs_entry_ok F u e = rs_entry_ok F u e'"
  by (simp add: rs_core_def rs_entry_ok_def holds_def)

lemma station_ok_core:
  assumes "station_ok F u st" and "station_wf (fl_fe F) st'"
    and "length (st_entries st') = length (st_entries st)"
    and "\<And>i. i < length (st_entries st) \<Longrightarrow> rs_core (st_entries st' ! i) = rs_core (st_entries st ! i)"
  shows "station_ok F u st'"
proof -
  let ?es = "st_entries st" and ?es' = "st_entries st'"
  have bt: "rs_busy (?es' ! i) = rs_busy (?es ! i)" "rs_rob_tag (?es' ! i) = rs_rob_tag (?es ! i)"
    if "i < length ?es" for i
    using assms(4) [OF that] by (simp_all add: rs_core_def)
  have "\<forall>e \<in> set ?es'. rs_entry_ok F u e"
    using assms(3) rs_entry_ok_core [OF assms(4)] station_ok_entry [OF assms(1)]
    by (auto simp: in_set_conv_nth)
  moreover have "distinct_tags ?es'"
    using assms(1,3) bt by (simp add: station_ok_def distinct_tags_def)
  moreover have "all_held F u ?es'"
    unfolding all_held_def
  proof (intro allI impI)
    fix k assume "k < length (fl_ins F)" "state_at F k = ROB_IN_FLIGHT" "target_unit (op_at F k) = Some u"
    then obtain i where "i < length ?es" "rs_busy (?es ! i)" "rs_rob_tag (?es ! i) = fl_tag F k"
      by (rule station_ok_held [OF assms(1)])
    then show "\<exists>e \<in> set ?es'. rs_busy e \<and> rs_rob_tag e = fl_tag F k"
      using assms(3) bt by (auto intro!: bexI [of _ "?es' ! i"])
  qed
  ultimately show ?thesis using assms(2) by (simp add: station_ok_def)
qed

lemma station_ok_tick:
  assumes "station_ok F u st"
  shows "station_ok F u (rs_tick (fl_fe F) st)"
proof -
  have wf: "station_wf (fl_fe F) st" using assms by (simp add: station_ok_def)
  show ?thesis
    using assms rs_tick_wf [OF wf] rs_tick_core [OF wf]
    by (intro station_ok_core [OF assms]) auto
qed

section \<open>Snoop\<close>

lemma opnd_ok_settled:
  "flight_ok F \<Longrightarrow> opnd_ok F k v (-1) r fp \<longleftrightarrow> (safe F k \<longrightarrow> v = reg_bits (ar_rf (arch_at F k)) r fp)"
  using fl_tag_not_neg [of F] by (fastforce simp: opnd_ok_def)

lemma holds_snoop:
  assumes "flight_ok F" and "k < length (fl_ins F)" and "holds F k e" and "rs_entry_wf fe e" and "rs_busy e"
  shows "holds (F\<lparr>fl_bus := []\<rparr>) k (fold rs_capture (fl_bus F) e)"
proof (cases "rs_done e")
  case False
  with assms(5) have act: "rs_busy e \<and> \<not> rs_done e" by simp
  note tags = bus_tags_ok [OF assms(1)]
  have r: "in_rs1 (fl_ins F ! k) < 32" "in_rs2 (fl_ins F ! k) < 32"
    using flight_okD(3) [OF assms(1,2)] by (simp_all add: wf_instr_def)
  show ?thesis
    using assms(3) rs_listener.fold_j [OF act tags] rs_listener.fold_k [OF act tags]
      opnd_ok_snoop [OF assms(1,2) r(1)] opnd_ok_snoop [OF assms(1,2) r(2)]
    by (simp add: holds_def)
next
  case True
  then have "rs_qj e = -1" "rs_qk e = -1" using assms(4,5) by (auto simp: rs_entry_wf_def)
  then show ?thesis
    using assms(3) True opnd_ok_settled [OF assms(1)] opnd_ok_settled [OF flight_ok_snooped [OF assms(1)]]
    by (simp add: holds_def rs_listener.fold_inactive)
qed

lemma station_ok_snoop:
  assumes "flight_ok F" and "station_ok F u st" and "cdb_results c = fl_bus F"
  shows "station_ok (F\<lparr>fl_bus := []\<rparr>) u (rs_snoop c st)"
proof -
  have wf: "station_wf (fl_fe F) (rs_snoop c st)"
    using assms bus_tags_ok [OF assms(1)] by (simp add: rs_snoop_wf station_ok_def)
  have "rs_entry_ok (F\<lparr>fl_bus := []\<rparr>) u (fold rs_capture (fl_bus F) e)" if "e \<in> set (st_entries st)" for e
  proof -
    have "rs_entry_wf (fl_fe F) e" "rs_entry_ok F u e"
      using that assms(2) by (auto simp: station_ok_def station_wf_def)
    then show ?thesis
      using holds_snoop [OF assms(1)] by (fastforce simp: rs_entry_ok_def)
  qed
  moreover have "distinct_tags (st_entries (rs_snoop c st))"
    using assms(2,3) by (simp add: station_ok_def distinct_tags_def rs_snoop_entries)
  moreover have "all_held (F\<lparr>fl_bus := []\<rparr>) u (st_entries (rs_snoop c st))"
    using assms(2,3) by (simp add: station_ok_def all_held_def rs_snoop_entries)
  ultimately show ?thesis
    using wf assms(3) by (simp add: station_ok_def rs_snoop_entries)
qed

section \<open>Results\<close>

lemma holds_complete:
  assumes "flight_ok F" and "k < length (fl_ins F)" and "state_at F k = ROB_IN_FLIGHT"
    and "j < length (fl_ins F)" and "holds F j e"
  shows "holds (fl_complete k v F) j e"
  using assms(4,5) opnd_ok_complete [OF assms(1-3), of j] by (simp add: holds_def)

lemma state_at_complete:
  "flight_ok F \<Longrightarrow> k < length (fl_ins F) \<Longrightarrow> j < length (fl_ins F) \<Longrightarrow>
     state_at (fl_complete k v F) j = (if j = k then ROB_DONE else state_at F j)"
  using flight_okD(2) [of F] by (simp add: fl_complete_def nth_list_update)

text \<open>Completing an instruction that no slot of the station holds.\<close>

lemma station_ok_complete:
  assumes "flight_ok F" and "k < length (fl_ins F)" and "state_at F k = ROB_IN_FLIGHT"
    and "station_ok F u st" and "\<forall>e \<in> set (st_entries st). rs_busy e \<longrightarrow> rs_rob_tag e \<noteq> fl_tag F k"
  shows "station_ok (fl_complete k v F) u st"
proof -
  note st = state_at_complete [OF assms(1,2)]
  have "rs_entry_ok (fl_complete k v F) u e" if e: "e \<in> set (st_entries st)" for e
  proof (cases "rs_busy e")
    case True
    then obtain j where j: "j < length (fl_ins F)" "state_at F j = ROB_IN_FLIGHT"
        "target_unit (op_at F j) = Some u" "holds F j e"
      using e assms(4) by (auto simp: station_ok_def rs_entry_ok_def)
    then have "j \<noteq> k" using e True assms(5) by (auto simp: holds_def)
    then show ?thesis
      using j st holds_complete [OF assms(1-3) j(1,4)] by (auto simp: rs_entry_ok_def)
  qed (simp add: rs_entry_ok_def)
  moreover have "all_held (fl_complete k v F) u (st_entries st)"
    using assms(4) st by (simp add: station_ok_def all_held_def)
  ultimately show ?thesis using assms(4) by (simp add: station_ok_def)
qed

lemma result_ok_execute:
  assumes "flight_ok F" and "k < length (fl_ins F)" and "holds F k e" and "target_unit (op_at F k) = Some u"
    and "rs_qj e = -1" and "rs_qk e = -1"
  shows "result_ok F k (execute_op (fl_fe F) e)"
proof -
  have op: "\<not> is_load (op_at F k)" "\<not> is_store (op_at F k)"
    using assms(4) by (auto simp: target_unit_def split: if_splits)
  have h: "rs_op e = op_at F k" "rs_imm e = in_imm (fl_ins F ! k)" "rs_pc e = in_pc (fl_ins F ! k)"
    "safe F k \<Longrightarrow> rs_vj e = src1 (fl_ins F ! k) (arch_at F k)"
    "safe F k \<Longrightarrow> rs_vk e = src2 (fl_ins F ! k) (arch_at F k)"
    using assms(3,5,6) opnd_ok_settled [OF assms(1)] by (auto simp: holds_def src1_def src2_def)
  show ?thesis
  proof (cases "control (op_at F k)")
    case True
    then show ?thesis
      using h execute_op_isa_target [OF h(1-3) True] by (simp add: result_ok_def isa_result_def safe_Suc)
  next
    case False
    then show ?thesis
      using h op execute_op_isa_alu [OF h(1,2) False op]
      by (simp add: result_ok_def isa_result_def safe_Suc)
  qed
qed

text \<open>Popping a done slot: its instruction is in flight and its result is right; once the
  instruction is completed the station is in order again.\<close>

lemma station_ok_free_slot:
  assumes "flight_ok F" and "station_ok F u st" and "k < length (fl_ins F)" and "state_at F k = ROB_IN_FLIGHT"
    and i: "i < length (st_entries st)" "rs_busy (st_entries st ! i)" "holds F k (st_entries st ! i)"
    and st': "st_entries st' = (st_entries st)[i := empty_rs_entry]" and wf': "station_wf (fl_fe F) st'"
  shows "station_ok (fl_complete k v F) u st'"
proof -
  let ?es = "st_entries st" and ?F = "fl_complete k v F"
  have tag: "rs_rob_tag (?es ! i) = fl_tag F k" using i(3) by (simp add: holds_def)
  have es': "st_entries st' ! j = (if j = i then empty_rs_entry else ?es ! j)" if "j < length ?es" for j
    using that i st' by simp
  have idle: "\<not> rs_busy empty_rs_entry" by (simp add: empty_rs_entry_def)
  have uniq: "rs_busy (st_entries st' ! j) \<Longrightarrow> rs_rob_tag (st_entries st' ! j) \<noteq> fl_tag F k"
    if "j < length ?es" for j
    using that es' [OF that] idle assms(2) i tag
    by (auto simp: station_ok_def distinct_tags_def split: if_splits)
  have len: "length (st_entries st') = length ?es" using st' by simp
  have ent: "rs_entry_ok ?F u (st_entries st' ! j)" if j: "j < length ?es" for j
  proof (cases "rs_busy (st_entries st' ! j)")
    case True
    then have "st_entries st' ! j = ?es ! j" using es' [OF j] idle by (auto split: if_splits)
    moreover from this True obtain m where m: "m < length (fl_ins F)" "state_at F m = ROB_IN_FLIGHT"
        "target_unit (op_at F m) = Some u" "holds F m (?es ! j)"
      using assms(2) j by (auto simp: station_ok_def rs_entry_ok_def)
    moreover have "m \<noteq> k" using uniq [OF j True] calculation by (auto simp: holds_def)
    ultimately show ?thesis
      using state_at_complete [OF assms(1,3), of m] holds_complete [OF assms(1,3,4) m(1,4)]
      by (auto simp: rs_entry_ok_def)
  qed (simp add: rs_entry_ok_def)
  have held: "all_held ?F u (st_entries st')"
    unfolding all_held_def
  proof (intro allI impI)
    fix m assume "m < length (fl_ins ?F)" "state_at ?F m = ROB_IN_FLIGHT" "target_unit (op_at ?F m) = Some u"
    then have mk: "m < length (fl_ins F)" "state_at F m = ROB_IN_FLIGHT" "target_unit (op_at F m) = Some u" "m \<noteq> k"
      using state_at_complete [OF assms(1,3), of m v] by (auto split: if_splits)
    obtain j where j: "j < length ?es" "rs_busy (?es ! j)" "rs_rob_tag (?es ! j) = fl_tag F m"
      using station_ok_held [OF assms(2) mk(1-3)] .
    then have "j \<noteq> i" using tag mk assms(3) fl_tag_inject [OF assms(1)] by auto
    then show "\<exists>e \<in> set (st_entries st'). rs_busy e \<and> rs_rob_tag e = fl_tag ?F m"
      using j es' [OF j(1)] len nth_mem [of j "st_entries st'"] by auto
  qed
  have "distinct_tags (st_entries st')"
    using assms(2) es' idle len by (auto simp: station_ok_def distinct_tags_def split: if_splits)
  then show ?thesis using wf' ent held len by (auto simp: station_ok_def in_set_conv_nth)
qed

lemma station_ok_pop:
  assumes "flight_ok F" and "station_ok F u st" and "rs_has_result st"
  obtains k e st' where "k < length (fl_ins F)" and "state_at F k = ROB_IN_FLIGHT"
    and "target_unit (op_at F k) = Some u" and "rs_pop_result st = Inr (e, st')"
    and "rs_rob_tag e = fl_tag F k" and "result_ok F k (rs_result e)"
    and "station_ok (fl_complete k (rs_result e) F) u st'"
proof -
  let ?es = "st_entries st"
  have wf: "station_wf (fl_fe F) st" using assms(2) by (simp add: station_ok_def)
  obtain i st' where i: "i < length ?es" "rs_busy (?es ! i)" "rs_done (?es ! i)"
    and pop: "rs_pop_result st = Inr (?es ! i, st')"
    and st': "st' = st\<lparr>st_entries := ?es[i := empty_rs_entry], st_count := st_count st - 1\<rparr>"
    using assms(3) by (rule rs_pop_result_cases)
  let ?e = "?es ! i"
  obtain k where k: "k < length (fl_ins F)" "state_at F k = ROB_IN_FLIGHT"
      "target_unit (op_at F k) = Some u" "holds F k ?e"
    using i assms(2) nth_mem [OF i(1)] by (auto simp: station_ok_def rs_entry_ok_def)
  have e: "rs_qj ?e = -1" "rs_qk ?e = -1" "rs_result ?e = execute_op (fl_fe F) ?e"
    using wf i nth_mem [OF i(1)] by (auto simp: station_wf_def rs_entry_wf_def)
  have "result_ok F k (rs_result ?e)"
    using result_ok_execute [OF assms(1) k(1,4,3) e(1,2)] e(3) by simp
  moreover have "rs_rob_tag ?e = fl_tag F k" using k(4) by (simp add: holds_def)
  moreover have "station_ok (fl_complete k (rs_result ?e) F) u st'"
    using station_ok_free_slot [OF assms(1,2) k(1,2) i(1,2) k(4)] rs_pop_result_wf [OF wf pop] st' by simp
  ultimately show thesis using that k pop by blast
qed

section \<open>Stores marked done\<close>

lemma state_at_mark:
  "flight_ok F \<Longrightarrow> k < length (fl_ins F) \<Longrightarrow> j < length (fl_ins F) \<Longrightarrow>
     state_at (fl_mark k F) j = (if j = k then ROB_DONE else state_at F j)"
  using flight_okD(2) [of F] by (simp add: fl_mark_def nth_list_update)

lemma holds_mark:
  assumes "flight_ok F" and "k < length (fl_ins F)" and "is_store (op_at F k)"
    and "j < length (fl_ins F)" and "holds F j e"
  shows "holds (fl_mark k F) j e"
  using assms(4,5) opnd_ok_mark [OF assms(1-3), of j] by (simp add: holds_def)

lemma station_ok_mark:
  assumes "flight_ok F" and "k < length (fl_ins F)" and "is_store (op_at F k)" and "station_ok F u st"
  shows "station_ok (fl_mark k F) u st"
proof -
  have k: "target_unit (op_at F k) = None" using assms(3) by (simp add: target_unit_def)
  note sm = state_at_mark [OF assms(1,2)]
  have "rs_entry_ok (fl_mark k F) u e" if e: "e \<in> set (st_entries st)" for e
  proof (cases "rs_busy e")
    case True
    then obtain j where j: "j < length (fl_ins F)" "state_at F j = ROB_IN_FLIGHT"
        "target_unit (op_at F j) = Some u" "holds F j e"
      using e assms(4) by (auto simp: station_ok_def rs_entry_ok_def)
    moreover have "j \<noteq> k" using j(3) k by auto
    ultimately show ?thesis
      using sm [OF j(1)] holds_mark [OF assms(1-3) j(1,4)] by (auto simp: rs_entry_ok_def)
  qed (simp add: rs_entry_ok_def)
  moreover have "all_held (fl_mark k F) u (st_entries st)"
    using assms(4) sm by (simp add: station_ok_def all_held_def)
  ultimately show ?thesis using assms(4) by (simp add: station_ok_def)
qed

section \<open>Dispatch\<close>

lemma holds_push:
  "flight_ok F \<Longrightarrow> k < length (fl_ins F) \<Longrightarrow> holds (fl_push i F) k e = holds F k e"
  by (simp add: holds_def opnd_ok_push nth_append)

lemma rs_entry_ok_push:
  assumes "flight_ok F" and "rs_entry_ok F u e"
  shows "rs_entry_ok (fl_push i F) u e"
proof (cases "rs_busy e")
  case True
  then obtain k where k: "k < length (fl_ins F)" "state_at F k = ROB_IN_FLIGHT"
      "target_unit (op_at F k) = Some u" "holds F k e"
    using assms(2) by (auto simp: rs_entry_ok_def)
  then have "holds (fl_push i F) k e" using holds_push [OF assms(1)] by simp
  then show ?thesis
    using k flight_okD(2) [OF assms(1)]
    by (auto simp: rs_entry_ok_def nth_append intro!: exI [of _ k])
qed (simp add: rs_entry_ok_def)

lemma station_ok_push_other:
  assumes "flight_ok F" and "station_ok F u st" and "target_unit (in_op i) \<noteq> Some u"
  shows "station_ok (fl_push i F) u st"
proof -
  have "all_held (fl_push i F) u (st_entries st)"
    using assms flight_okD(2) [OF assms(1)]
    by (auto simp: station_ok_def all_held_def nth_append less_Suc_eq)
  then show ?thesis
    using assms(2) rs_entry_ok_push [OF assms(1)] by (auto simp: station_ok_def)
qed

lemma distinct_tags_update:
  assumes "distinct_tags es" and "\<And>q. q < length es \<Longrightarrow> rs_busy (es ! q) \<Longrightarrow> rs_rob_tag e \<noteq> rs_rob_tag (es ! q)"
  shows "distinct_tags (es[p := e])"
  unfolding distinct_tags_def
proof (intro allI impI)
  fix i j
  assume ij: "i < length (es[p := e])" "j < length (es[p := e])"
    and b: "rs_busy (es[p := e] ! i)" "rs_busy (es[p := e] ! j)"
    and t: "rs_rob_tag (es[p := e] ! i) = rs_rob_tag (es[p := e] ! j)"
  show "i = j"
  proof (cases "p = i \<or> p = j")
    case True
    then show ?thesis using ij b t assms(2) [of i] assms(2) [of j] by (cases "i = j") auto
  next
    case False
    then show ?thesis using ij b t assms(1) by (simp add: distinct_tags_def)
  qed
qed

text \<open>Issuing the new instruction to its station: it takes a free slot and finds its operands.\<close>

lemma station_ok_fill_slot:
  assumes "flight_ok F" and "station_ok F u st" and "target_unit (in_op i) = Some u"
    and inj: "inj_on (fl_tag F) {..<Suc (length (fl_ins F))}"
    and p: "p < length (st_entries st)" "\<not> rs_busy (st_entries st ! p)"
    and new: "holds (fl_push i F) (length (fl_ins F)) e" "rs_busy e"
    and st': "st_entries st' = (st_entries st)[p := e]" and wf': "station_wf (fl_fe F) st'"
  shows "station_ok (fl_push i F) u st'"
proof -
  let ?n = "length (fl_ins F)" and ?es = "st_entries st"
  have tag: "rs_rob_tag e = fl_tag F ?n" using new(1) by (simp add: holds_def)
  have "rs_entry_ok (fl_push i F) u (?es[p := e] ! q)" if q: "q < length ?es" for q
  proof (cases "q = p")
    case True
    then show ?thesis
      using new(1) p assms(3) flight_okD(2) [OF assms(1)]
      by (auto simp: rs_entry_ok_def nth_append fresh_rob_entry_def intro!: exI [of _ ?n])
  next
    case False
    then show ?thesis
      using rs_entry_ok_push [OF assms(1) station_ok_entry [OF assms(2) q]] by simp
  qed
  moreover have "fl_tag F ?n \<noteq> rs_rob_tag (?es ! q)" if q: "q < length ?es" "rs_busy (?es ! q)" for q
  proof -
    obtain m where "m < ?n" "rs_rob_tag (?es ! q) = fl_tag F m"
      using station_ok_entry [OF assms(2) q(1)] q(2) by (auto simp: rs_entry_ok_def holds_def)
    then show ?thesis using inj_onD [OF inj, of ?n m] by auto
  qed
  then have "distinct_tags (?es[p := e])"
    using assms(2) tag by (intro distinct_tags_update) (auto simp: station_ok_def)
  moreover have "all_held (fl_push i F) u (?es[p := e])"
    unfolding all_held_def
  proof (intro allI impI)
    fix m assume m: "m < length (fl_ins (fl_push i F))" "state_at (fl_push i F) m = ROB_IN_FLIGHT"
      "target_unit (op_at (fl_push i F) m) = Some u"
    show "\<exists>e' \<in> set (?es[p := e]). rs_busy e' \<and> rs_rob_tag e' = fl_tag (fl_push i F) m"
    proof (cases "m = ?n")
      case True
      then show ?thesis using new(2) tag p set_update_memI [OF p(1), of e] by auto
    next
      case False
      then have m': "m < ?n" "state_at F m = ROB_IN_FLIGHT" "target_unit (op_at F m) = Some u"
        using m flight_okD(2) [OF assms(1)] by (auto simp: nth_append)
      obtain q where q: "q < length ?es" "rs_busy (?es ! q)" "rs_rob_tag (?es ! q) = fl_tag F m"
        using station_ok_held [OF assms(2) m'] .
      then have "?es ! q \<in> set (?es[p := e])"
        using p(2) nth_mem [of q "?es[p := e]"] by (cases "q = p") auto
      then show ?thesis using q by auto
    qed
  qed
  ultimately show ?thesis using wf' st' by (auto simp: station_ok_def in_set_conv_nth)
qed

lemma station_ok_issue:
  assumes "flight_ok F" and "station_ok F u st" and "\<not> rs_full st" and "target_unit (in_op i) = Some u"
    and "wf_instr i" and "\<forall>k < length (fl_ins F). \<not> control (op_at F k)" and "rat_ok F t"
    and "rob_wf b" and "rob_list b = fl_rob F @ [e0]" and "rob_tag_of b = fl_tag F"
    and "fl_good F \<longrightarrow> rf = ar_rf (fl_arch F)"
    and inj: "inj_on (fl_tag F) {..<Suc (length (fl_ins F))}"
  obtains st' where "rs_issue i (fl_tag F (length (fl_ins F))) t rf b st = Inr (True, st')"
    and "station_ok (fl_push i F) u st'"
proof -
  let ?n = "length (fl_ins F)" and ?es = "st_entries st"
  have wf: "station_wf (fl_fe F) st" using assms(2) by (simp add: station_ok_def)
  obtain p where p: "p < st_size st" "\<not> rs_busy (?es ! p)"
    and issue: "rs_issue i (fl_tag F ?n) t rf b st =
       res_bind (rs_fill i (fl_tag F ?n) t rf b (?es ! p)) (\<lambda>e.
         Inr (True, st\<lparr>st_entries := ?es[p := e], st_count := st_count st + 1\<rparr>))"
    using rs_issue_free [OF wf assms(3), of i "fl_tag F ?n" t rf b] by blast
  have rs: "in_rs1 i < 32" "in_rs2 i < 32" using assms(5) by (simp_all add: wf_instr_def)
  obtain vj qj where j: "resolve_operand (in_rs1 i) (in_rs1_fp i) t rf b (rs_vj (?es ! p)) = Inr (vj, qj)"
      "opnd_ok F ?n vj qj (in_rs1 i) (in_rs1_fp i)"
    using resolve_flight [OF assms(1,6-11) rs(1)] by blast
  obtain vk qk where k: "resolve_operand (in_rs2 i) (in_rs2_fp i) t rf b (rs_vk (?es ! p)) = Inr (vk, qk)"
      "opnd_ok F ?n vk qk (in_rs2 i) (in_rs2_fp i)"
    using resolve_flight [OF assms(1,6-11) rs(2)] by blast
  obtain e where fill: "rs_fill i (fl_tag F ?n) t rf b (?es ! p) = Inr e"
    and e: "rs_busy e" "rs_rob_tag e = fl_tag F ?n" "rs_op e = in_op i" "rs_imm e = in_imm i"
      "rs_pc e = in_pc i" "rs_vj e = vj" "rs_qj e = qj" "rs_vk e = vk" "rs_qk e = qk"
    by (simp add: rs_fill_def j(1) k(1))
  let ?st = "st\<lparr>st_entries := ?es[p := e], st_count := st_count st + 1\<rparr>"
  have iss: "rs_issue i (fl_tag F ?n) t rf b st = Inr (True, ?st)" using issue fill by simp
  have p': "p < length ?es" using p wf by (simp add: station_wf_def)
  have "holds (fl_push i F) ?n e"
    using e j(2) k(2) opnd_ok_push [OF assms(1) order_refl] by (simp add: holds_def)
  then have "station_ok (fl_push i F) u ?st"
    using station_ok_fill_slot [OF assms(1,2,4) inj p' p(2) _ e(1)] rs_issue_wf [OF wf iss] by simp
  then show thesis using that iss by blast
qed

section \<open>Retirement\<close>

lemma holds_shift:
  assumes "flight_ok F" and "fl_bus F = []" and "state_at F 0 = ROB_DONE"
    and "Suc k < length (fl_ins F)" and "holds F (Suc k) e"
  shows "holds (fl_shift F) k e"
proof -
  have "fl_ins F \<noteq> []" using assms(4) by auto
  then show ?thesis
    using assms(5) opnd_ok_shift [OF assms(1-4)] by (simp add: holds_def nth_tl_ins)
qed

lemma station_ok_shift:
  assumes "flight_ok F" and "fl_bus F = []" and "state_at F 0 = ROB_DONE" and "fl_ins F \<noteq> []"
    and "station_ok F u st"
  shows "station_ok (fl_shift F) u st"
proof -
  obtain r rs where rob: "fl_rob F = r # rs"
    using flight_okD(2) [OF assms(1)] assms(4) by (cases "fl_rob F") auto
  have "rs_entry_ok (fl_shift F) u e" if e: "e \<in> set (st_entries st)" for e
  proof (cases "rs_busy e")
    case True
    then obtain k where k: "k < length (fl_ins F)" "state_at F k = ROB_IN_FLIGHT"
        "target_unit (op_at F k) = Some u" "holds F k e"
      using e assms(5) by (auto simp: station_ok_def rs_entry_ok_def)
    then obtain k' where k': "k = Suc k'" using assms(3) by (cases k) auto
    have "holds (fl_shift F) k' e" using k k' holds_shift [OF assms(1-3)] by simp
    then show ?thesis
      using k k' rob assms(4) by (auto simp: rs_entry_ok_def nth_tl_ins intro!: exI [of _ k'])
  qed (simp add: rs_entry_ok_def)
  moreover have "all_held (fl_shift F) u (st_entries st)"
    using assms(4,5) rob by (fastforce simp: station_ok_def all_held_def nth_tl_ins)
  ultimately show ?thesis using assms(5) by (simp add: station_ok_def)
qed

end
