(* ===== verification/Flight_Memory.thy ===== *)
theory Flight_Memory
  imports Flight
begin

text \<open>
  The load/store buffer against the instructions in flight: its entries are, in program order,
  the stores that have not retired and the loads that have not been broadcast. Known addresses,
  store data and load results are those of the sequential machine; a load that is not blocked
  reads what the older stores of the flight leave in memory.
\<close>

section \<open>The relation\<close>

definition in_lsb :: "flight \<Rightarrow> nat \<Rightarrow> bool" where
  "in_lsb F k \<longleftrightarrow> is_store (op_at F k) \<or> (is_load (op_at F k) \<and> state_at F k = ROB_IN_FLIGHT)"

definition lsb_slots :: "flight \<Rightarrow> nat list" where
  "lsb_slots F = filter (in_lsb F) [0..<length (fl_ins F)]"

definition lsb_entry_ok :: "flight \<Rightarrow> nat \<Rightarrow> lsb_entry \<Rightarrow> bool" where
  "lsb_entry_ok F k e \<longleftrightarrow>
     l_rob_tag e = fl_tag F k \<and> l_op e = op_at F k \<and> l_imm e = in_imm (fl_ins F ! k) \<and>
     l_state e \<noteq> LSB_IDLE \<and> l_state e \<noteq> LSB_EXECUTING \<and>
     (if l_state e = LSB_WAITING then opnd_ok F k (l_vj e) (l_qj e) (in_rs1 (fl_ins F ! k)) False
      else safe F k \<longrightarrow> l_eff_addr e = isa_addr (fl_ins F ! k) (arch_at F k)) \<and>
     (is_store (op_at F k) \<longrightarrow>
        (if l_state e = LSB_DONE then safe F k \<longrightarrow> l_vk e = src2 (fl_ins F ! k) (arch_at F k)
         else opnd_ok F k (l_vk e) (l_qk e) (in_rs2 (fl_ins F ! k)) (in_rs2_fp (fl_ins F ! k))) \<and>
        (state_at F k = ROB_DONE \<longrightarrow> l_state e = LSB_DONE)) \<and>
     (is_load (op_at F k) \<longrightarrow> l_state e = LSB_DONE \<longrightarrow> result_ok F k (l_result e))"

definition lsb_ok :: "flight \<Rightarrow> lsb_entry list \<Rightarrow> bool" where
  "lsb_ok F L \<longleftrightarrow> list_all2 (lsb_entry_ok F) (lsb_slots F) L"

lemma take_filter_upt:
  "j < length (filter P [0..<n]) \<Longrightarrow> take j (filter P [0..<n]) = filter P [0..<filter P [0..<n] ! j]"
proof (induction n)
  case (Suc n)
  show ?case
  proof (cases "j < length (filter P [0..<n])")
    case True
    then show ?thesis using Suc.IH by (simp add: nth_append)
  next
    case False
    then have "P n" "j = length (filter P [0..<n])" using Suc.prems by (auto split: if_splits)
    then show ?thesis by (simp add: nth_append)
  qed
qed simp

lemma lsb_slots_nth:
  assumes "j < length (lsb_slots F)"
  shows "lsb_slots F ! j < length (fl_ins F) \<and> in_lsb F (lsb_slots F ! j)"
  using nth_mem [OF assms] by (simp add: lsb_slots_def)

lemma src1_int: "\<not> in_rs1_fp i \<Longrightarrow> src1 i a = reg_bits (ar_rf a) (in_rs1 i) False"
  by (simp add: src1_def)

lemma mem_base_int:
  "flight_ok F \<Longrightarrow> k < length (fl_ins F) \<Longrightarrow> in_lsb F k \<Longrightarrow> \<not> in_rs1_fp (fl_ins F ! k)"
  using flight_okD(3) [of F k] by (auto simp: wf_instr_def in_lsb_def)

section \<open>Tick\<close>

lemma lsb_entry_ok_resolved:
  assumes "flight_ok F" and "k < length (fl_ins F)" and "in_lsb F k" and "lsb_entry_ok F k e"
  shows "lsb_entry_ok F k (resolved e)"
proof -
  have settled: "opnd_ok F k v (-1) r fp \<longleftrightarrow> (safe F k \<longrightarrow> v = reg_bits (ar_rf (arch_at F k)) r fp)" for v r fp
    using fl_tag_not_neg [OF assms(1)] by (fastforce simp: opnd_ok_def)
  have ls: "is_load (op_at F k) \<longrightarrow> \<not> is_store (op_at F k)" using load_not_store by blast
  have 1: "lsb_entry_ok F k (lsb_pass1 e)"
    using assms(4) mem_base_int [OF assms(1-3)] settled
    by (auto simp: lsb_pass1_def lsb_entry_ok_def isa_addr_def src1_int)
  have "lsb_entry_ok F k (lsb_pass2 e')" if "lsb_entry_ok F k e'" for e'
    using that settled ls by (auto simp: lsb_pass2_def lsb_entry_ok_def src2_def)
  then show ?thesis using 1 by (simp add: resolved_def)
qed

lemma resolved_settled: "l_state (resolved e) = LSB_ADDR_READY \<Longrightarrow> is_store (l_op e) \<Longrightarrow> l_qk (resolved e) \<noteq> -1"
  by (auto simp: resolved_def lsb_pass2_def lsb_pass1_def split: if_splits)

text \<open>An unblocked load reads what the older stores of the flight leave in memory.\<close>

lemma load_value_flight:
  assumes "flight_ok F" and "fl_good F \<Longrightarrow> mem = ar_mem (fl_arch F)"
    and "k \<le> length (fl_ins F)" and "safe F k" and "mem_addr_ok (length mem) addr"
    and "list_all2 (lsb_entry_ok F) (filter (in_lsb F) [0..<k]) older"
    and "\<not> (\<exists>s \<in> set older. blocks addr s)"
  shows "load_value mem older addr = mem_read (ar_mem (arch_at F k)) addr"
  using assms(3,4,6,7)
proof (induction k arbitrary: older)
  case 0
  then show ?case using assms(2) by (simp add: load_value_def safe_def)
next
  case (Suc k)
  have g: "fl_good F" and sk: "safe F k" and acc: "good_access (fl_ins F ! k) (arch_at F k)"
    using Suc.prems(2) by (simp_all add: safe_Suc) (simp add: safe_def)
  have len: "length (ar_mem (arch_at F k)) = length mem" using assms(2) g by (simp add: arch_at_mem_length)
  have arch: "ar_mem (arch_at F (Suc k)) = (if is_store (op_at F k)
      then mem_write (ar_mem (arch_at F k)) (isa_addr (fl_ins F ! k) (arch_at F k)) (src2 (fl_ins F ! k) (arch_at F k))
      else ar_mem (arch_at F k))"
    using Suc.prems(1) by (simp add: arch_at_Suc isa_exec_mem)
  show ?case
  proof (cases "in_lsb F k")
    case False
    then have "list_all2 (lsb_entry_ok F) (filter (in_lsb F) [0..<k]) older" using Suc.prems(3) by simp
    moreover have "\<not> is_store (op_at F k)" using False by (simp add: in_lsb_def)
    ultimately show ?thesis using Suc sk arch by simp
  next
    case True
    then obtain old e where old: "older = old @ [e]" "lsb_entry_ok F k e"
        "list_all2 (lsb_entry_ok F) (filter (in_lsb F) [0..<k]) old"
      using Suc.prems(3) by (auto simp: list_all2_append1 list_all2_Cons1)
    have IH: "load_value mem old addr = mem_read (ar_mem (arch_at F k)) addr"
      using Suc.IH [OF _ sk old(3)] Suc.prems(1,4) old(1) by simp
    have lv: "load_value mem older addr = (if aliases addr e then l_vk e else load_value mem old addr)"
      using old(1) by (simp add: load_value_def Let_def)
    show ?thesis
    proof (cases "is_store (op_at F k)")
      case False
      then have "\<not> aliases addr e" using old(2) by (simp add: aliases_def lsb_entry_ok_def)
      then show ?thesis using lv IH arch False by simp
    next
      case True
      have op: "l_op e = op_at F k" using old(2) by (simp add: lsb_entry_ok_def)
      have nb: "\<not> blocks addr e" using Suc.prems(4) old(1) by simp
      then have "l_state e \<noteq> LSB_WAITING" using True op by (simp add: blocks_def)
      then have ea: "l_eff_addr e = isa_addr (fl_ins F ! k) (arch_at F k)"
        using old(2) sk by (simp add: lsb_entry_ok_def)
      have "aliases addr e \<Longrightarrow> l_vk e = src2 (fl_ins F ! k) (arch_at F k)"
        using nb old(2) True sk op by (auto simp: aliases_def blocks_def lsb_entry_ok_def)
      moreover have "mem_addr_ok (length mem) (l_eff_addr e)"
        using acc True ea len by (simp add: good_access_def)
      ultimately show ?thesis
        using lv IH arch True ea op assms(5) len
          mem_read_write [of "ar_mem (arch_at F k)" "l_eff_addr e" addr]
        by (auto simp: aliases_def)
    qed
  qed
qed

lemma lsb_ok_tick:
  assumes "flight_ok F" and "fl_good F \<Longrightarrow> mem = ar_mem (fl_arch F)" and "lsb_wf q" and "lsb_ok F (lsb_list q)"
  shows "lsb_ok F (lsb_list (lsb_tick mem q))"
proof -
  let ?L = "map resolved (lsb_list q)" and ?S = "lsb_slots F"
  have len: "length ?S = length (lsb_list q)" using assms(4) by (simp add: lsb_ok_def list_all2_lengthD)
  have R: "list_all2 (lsb_entry_ok F) ?S ?L"
    using assms(4) lsb_entry_ok_resolved [OF assms(1)] lsb_slots_nth
    by (simp add: lsb_ok_def list_all2_conv_all_nth)
  have step: "lsb_entry_ok F (?S ! j) (lsb_pass4 mem (load_step mem (take j ?L) (?L ! j)))"
    if j: "j < length ?L" for j
  proof -
    let ?k = "?S ! j" and ?e = "?L ! j"
    have k: "?k < length (fl_ins F)" "in_lsb F ?k" using lsb_slots_nth [of j F] j len by auto
    have ok: "lsb_entry_ok F ?k ?e" using R j len by (simp add: list_all2_conv_all_nth)
    have nex: "l_state ?e \<noteq> LSB_EXECUTING" using ok by (simp add: lsb_entry_ok_def)
    show ?thesis
    proof (cases "l_state ?e = LSB_ADDR_READY \<and> is_load (l_op ?e) \<and>
        \<not> (\<exists>s \<in> set (take j ?L). blocks (l_eff_addr ?e) s)")
      case False
      then have "load_step mem (take j ?L) ?e = ?e" by (auto simp: load_step_def)
      then show ?thesis using ok nex by (simp add: lsb_pass4_def)
    next
      case True
      let ?e' = "lsb_pass4 mem (load_step mem (take j ?L) ?e)"
      have e': "l_result ?e' = load_value mem (take j ?L) (l_eff_addr ?e)" "l_state ?e' = LSB_DONE"
          "l_op ?e' = l_op ?e" "l_rob_tag ?e' = l_rob_tag ?e" "l_imm ?e' = l_imm ?e" "l_eff_addr ?e' = l_eff_addr ?e"
        using True by (auto simp: load_step_def lsb_pass4_def load_value_def)
      have ld: "is_load (op_at F ?k)" "\<not> is_store (op_at F ?k)"
        using ok True load_not_store by (auto simp: lsb_entry_ok_def)
      have "result_ok F ?k (l_result ?e')"
        unfolding result_ok_def
      proof (intro impI)
        assume s: "safe F (Suc ?k)"
        then have sk: "safe F ?k" and acc: "good_access (fl_ins F ! ?k) (arch_at F ?k)"
          by (simp_all add: safe_Suc)
        have g: "fl_good F" using s by (simp add: safe_def)
        have ea: "l_eff_addr ?e = isa_addr (fl_ins F ! ?k) (arch_at F ?k)"
          using ok True sk by (simp add: lsb_entry_ok_def)
        have "mem_addr_ok (length mem) (l_eff_addr ?e)"
          using acc ld ea assms(2) [OF g] by (simp add: good_access_def arch_at_mem_length)
        moreover have "list_all2 (lsb_entry_ok F) (filter (in_lsb F) [0..<?k]) (take j ?L)"
          using list_all2_takeI [OF R, of j] take_filter_upt [of j "in_lsb F"] j len
          by (simp add: lsb_slots_def)
        ultimately have "load_value mem (take j ?L) (l_eff_addr ?e)
            = mem_read (ar_mem (arch_at F ?k)) (l_eff_addr ?e)"
          using True k(1) sk by (intro load_value_flight [OF assms(1,2)]) auto
        then show "l_result ?e' = isa_result (fl_fe F) (fl_ins F ! ?k) (arch_at F ?k)"
          using e'(1) ea ld control_not_mem by (auto simp: isa_result_def control_def)
      qed
      then show ?thesis
        using ok e' ld True by (simp add: lsb_entry_ok_def)
    qed
  qed
  then show ?thesis
    using lsb_tick_list [OF assms(3), of mem] len
    by (simp add: lsb_ok_def list_all2_conv_all_nth Let_def)
qed

section \<open>Snoop\<close>

lemma lsb_entry_ok_snoop:
  assumes "flight_ok F" and "k < length (fl_ins F)" and "lsb_entry_ok F k e"
  shows "lsb_entry_ok (F\<lparr>fl_bus := []\<rparr>) k (fold lsb_capture (fl_bus F) e)"
proof (cases "l_state e = LSB_DONE")
  case True
  then show ?thesis
    using assms(3) by (simp add: lsb_listener.fold_inactive lsb_entry_ok_def)
next
  case False
  then have act: "l_state e \<noteq> LSB_IDLE \<and> l_state e \<noteq> LSB_DONE" using assms(3) by (simp add: lsb_entry_ok_def)
  note tags = bus_tags_ok [OF assms(1)]
  have r: "in_rs1 (fl_ins F ! k) < 32" "in_rs2 (fl_ins F ! k) < 32"
    using flight_okD(3) [OF assms(1,2)] by (simp_all add: wf_instr_def)
  let ?e = "fold lsb_capture (fl_bus F) e"
  have "opnd_ok F k (l_vj e) (l_qj e) (in_rs1 (fl_ins F ! k)) fp \<Longrightarrow>
      opnd_ok (F\<lparr>fl_bus := []\<rparr>) k (l_vj ?e) (l_qj ?e) (in_rs1 (fl_ins F ! k)) fp" for fp
    using lsb_listener.fold_j [OF act tags] opnd_ok_snoop [OF assms(1,2) r(1)] by blast
  moreover have "opnd_ok F k (l_vk e) (l_qk e) (in_rs2 (fl_ins F ! k)) fp \<Longrightarrow>
      opnd_ok (F\<lparr>fl_bus := []\<rparr>) k (l_vk ?e) (l_qk ?e) (in_rs2 (fl_ins F ! k)) fp" for fp
    using lsb_listener.fold_k [OF act tags] opnd_ok_snoop [OF assms(1,2) r(2)] by blast
  ultimately show ?thesis
    using assms(3) False by (simp add: lsb_entry_ok_def)
qed

lemma lsb_ok_snoop:
  assumes "flight_ok F" and "lsb_ok F L"
  shows "lsb_ok (F\<lparr>fl_bus := []\<rparr>) (map (fold lsb_capture (fl_bus F)) L)"
proof -
  have "lsb_slots (F\<lparr>fl_bus := []\<rparr>) = lsb_slots F" by (simp add: lsb_slots_def in_lsb_def [abs_def])
  then show ?thesis
    using assms(2) lsb_entry_ok_snoop [OF assms(1)] lsb_slots_nth [of _ F]
    by (simp add: lsb_ok_def list_all2_conv_all_nth)
qed

section \<open>Results and stores marked done\<close>

lemma lsb_entry_ok_complete:
  assumes "flight_ok F" and "k < length (fl_ins F)" and "state_at F k = ROB_IN_FLIGHT"
    and "j < length (fl_ins F)" and "j \<noteq> k" and "lsb_entry_ok F j e"
  shows "lsb_entry_ok (fl_complete k v F) j e"
proof -
  have "state_at (fl_complete k v F) j = state_at F j" using assms(5) by (simp add: fl_complete_def)
  then show ?thesis
    using assms(4,6) opnd_ok_complete [OF assms(1-3) less_imp_le [OF assms(4)]]
    by (auto simp: lsb_entry_ok_def)
qed

lemma lsb_slots_complete:
  assumes "flight_ok F" and "k < length (fl_ins F)" and "\<not> is_store (op_at F k)"
  shows "lsb_slots (fl_complete k v F) = filter (\<lambda>j. j \<noteq> k) (lsb_slots F)"
proof -
  have "in_lsb (fl_complete k v F) j \<longleftrightarrow> in_lsb F j \<and> j \<noteq> k" if "j < length (fl_ins F)" for j
    using that assms flight_okD(2) [OF assms(1)]
    by (auto simp: in_lsb_def fl_complete_def nth_list_update)
  then show ?thesis
    by (auto simp: lsb_slots_def intro!: filter_cong)
qed

lemma lsb_ok_complete_other:
  assumes "flight_ok F" and "k < length (fl_ins F)" and "state_at F k = ROB_IN_FLIGHT"
    and "\<not> is_store (op_at F k)" and "\<not> is_load (op_at F k)" and "lsb_ok F L"
  shows "lsb_ok (fl_complete k v F) L"
proof -
  have "j \<noteq> k" if "j \<in> set (lsb_slots F)" for j
    using that assms(4,5) by (auto simp: lsb_slots_def in_lsb_def)
  then have s: "lsb_slots (fl_complete k v F) = lsb_slots F"
    using lsb_slots_complete [OF assms(1,2,4)] by (simp add: filter_id_conv)
  have "lsb_entry_ok (fl_complete k v F) (lsb_slots F ! j) (L ! j)" if "j < length (lsb_slots F)" for j
  proof -
    have "lsb_slots F ! j \<noteq> k" using \<open>\<And>j. j \<in> set (lsb_slots F) \<Longrightarrow> j \<noteq> k\<close> that by simp
    then show ?thesis
      using that assms(6) lsb_slots_nth [OF that]
      by (auto simp: lsb_ok_def list_all2_conv_all_nth intro!: lsb_entry_ok_complete [OF assms(1-3)])
  qed
  then show ?thesis using assms(6) s by (simp add: lsb_ok_def list_all2_conv_all_nth)
qed

lemma distinct_lsb_slots: "distinct (lsb_slots F)"
  by (simp add: lsb_slots_def)

text \<open>The load at the head of the buffer is broadcast and leaves.\<close>

lemma lsb_ok_pop:
  assumes "flight_ok F" and "lsb_ok F (e # L)" and "l_state e = LSB_DONE" and "is_load (l_op e)"
  obtains k where "k < length (fl_ins F)" and "state_at F k = ROB_IN_FLIGHT" and "is_load (op_at F k)"
    and "l_rob_tag e = fl_tag F k" and "result_ok F k (l_result e)"
    and "lsb_ok (fl_complete k (l_result e) F) L"
proof -
  obtain k ks where ks: "lsb_slots F = k # ks" "lsb_entry_ok F k e" "list_all2 (lsb_entry_ok F) ks L"
    using assms(2) by (auto simp: lsb_ok_def list_all2_Cons2)
  have k: "k < length (fl_ins F)" "in_lsb F k" using lsb_slots_nth [of 0 F] ks(1) by auto
  have op: "is_load (op_at F k)" "\<not> is_store (op_at F k)"
    using ks(2) assms(4) load_not_store by (auto simp: lsb_entry_ok_def)
  then have st: "state_at F k = ROB_IN_FLIGHT" using k(2) by (simp add: in_lsb_def)
  have d: "k \<notin> set ks" using distinct_lsb_slots [of F] ks(1) by simp
  have "filter (\<lambda>j. j \<noteq> k) ks = ks" using d by (auto simp: filter_id_conv)
  then have s: "lsb_slots (fl_complete k (l_result e) F) = ks"
    using lsb_slots_complete [OF assms(1) k(1) op(2), of "l_result e"] ks(1) by simp
  have "ks ! j < length (fl_ins F)" "ks ! j \<noteq> k" if "j < length ks" for j
    using that lsb_slots_nth [of "Suc j" F] ks(1) d nth_mem [OF that] by auto
  then have "lsb_ok (fl_complete k (l_result e) F) L"
    using ks(3) s by (auto simp: lsb_ok_def list_all2_conv_all_nth intro!: lsb_entry_ok_complete [OF assms(1) k(1) st])
  then show thesis
    using that k(1) st op(1) ks(2) assms(3) by (auto simp: lsb_entry_ok_def)
qed

lemma lsb_ok_mark:
  assumes "flight_ok F" and "lsb_ok F L" and "j < length L" and "is_store (l_op (L ! j))"
    and "l_state (L ! j) = LSB_DONE"
  shows "lsb_slots F ! j < length (fl_ins F) \<and> is_store (op_at F (lsb_slots F ! j)) \<and>
     l_rob_tag (L ! j) = fl_tag F (lsb_slots F ! j) \<and> lsb_ok (fl_mark (lsb_slots F ! j) F) L"
proof -
  let ?k = "lsb_slots F ! j"
  have len: "length (lsb_slots F) = length L" using assms(2) by (simp add: lsb_ok_def list_all2_lengthD)
  have ent: "lsb_entry_ok F (lsb_slots F ! i) (L ! i)" if "i < length L" for i
    using assms(2) that by (simp add: lsb_ok_def list_all2_conv_all_nth)
  have k: "?k < length (fl_ins F)" using lsb_slots_nth assms(3) len by simp
  have op: "is_store (op_at F ?k)" "l_rob_tag (L ! j) = fl_tag F ?k"
    using ent [OF assms(3)] assms(4) by (simp_all add: lsb_entry_ok_def)
  have st: "state_at (fl_mark ?k F) i = (if i = ?k then ROB_DONE else state_at F i)" if "i < length (fl_ins F)" for i
    using that k flight_okD(2) [OF assms(1)] by (simp add: fl_mark_def nth_list_update)
  have "in_lsb (fl_mark ?k F) i = in_lsb F i" if "i < length (fl_ins F)" for i
    using op(1) st [OF that] load_not_store [of "op_at F i"] by (auto simp: in_lsb_def)
  then have s: "lsb_slots (fl_mark ?k F) = lsb_slots F"
    by (auto simp: lsb_slots_def intro!: filter_cong)
  have "lsb_entry_ok (fl_mark ?k F) (lsb_slots F ! i) (L ! i)" if i: "i < length L" for i
  proof -
    have b: "lsb_slots F ! i < length (fl_ins F)" using lsb_slots_nth i len by simp
    have "lsb_slots F ! i = ?k \<Longrightarrow> i = j"
      using distinct_lsb_slots [of F] i assms(3) len by (simp add: nth_eq_iff_index_eq)
    then show ?thesis
      using ent [OF i] st [OF b] assms(5) opnd_ok_mark [OF assms(1) k op(1) less_imp_le [OF b]]
      by (auto simp: lsb_entry_ok_def)
  qed
  then show ?thesis
    using k op s len by (simp add: lsb_ok_def list_all2_conv_all_nth)
qed

section \<open>Dispatch\<close>

lemma lsb_entry_ok_push:
  assumes "flight_ok F" and "k < length (fl_ins F)"
  shows "lsb_entry_ok (fl_push i F) k e = lsb_entry_ok F k e"
  using assms flight_okD(2) [OF assms(1)]
  by (simp add: lsb_entry_ok_def opnd_ok_push safe_push arch_at_push result_ok_push nth_append)

lemma lsb_slots_push:
  assumes "flight_ok F"
  shows "lsb_slots (fl_push i F) = lsb_slots F @
     (if is_load (in_op i) \<or> is_store (in_op i) then [length (fl_ins F)] else [])"
proof -
  have "filter (in_lsb (fl_push i F)) [0..<length (fl_ins F)] = lsb_slots F"
    unfolding lsb_slots_def using flight_okD(2) [OF assms]
    by (intro filter_cong) (auto simp: in_lsb_def nth_append)
  moreover have "in_lsb (fl_push i F) (length (fl_ins F)) \<longleftrightarrow> is_load (in_op i) \<or> is_store (in_op i)"
    using flight_okD(2) [OF assms] by (auto simp: in_lsb_def nth_append fresh_rob_entry_def)
  ultimately show ?thesis by (simp add: lsb_slots_def)
qed

lemma list_all2_push:
  assumes "flight_ok F" and "lsb_ok F L"
  shows "list_all2 (lsb_entry_ok (fl_push i F)) (lsb_slots F) L"
  using assms(2) lsb_entry_ok_push [OF assms(1)] lsb_slots_nth [of _ F]
  by (auto simp: lsb_ok_def list_all2_conv_all_nth)

lemma lsb_ok_push_other:
  "flight_ok F \<Longrightarrow> lsb_ok F L \<Longrightarrow> \<not> is_load (in_op i) \<Longrightarrow> \<not> is_store (in_op i) \<Longrightarrow> lsb_ok (fl_push i F) L"
  using list_all2_push [of F L i] by (simp add: lsb_ok_def lsb_slots_push)

lemma lsb_ok_issue:
  assumes "flight_ok F" and "lsb_wf q" and "lsb_ok F (lsb_list q)" and "\<not> lsb_full q"
    and "is_load (in_op i) \<or> is_store (in_op i)" and "wf_instr i"
    and "\<forall>k < length (fl_ins F). \<not> control (op_at F k)" and "rat_ok F t"
    and "rob_wf b" and "rob_list b = fl_rob F @ [e0]" and "rob_tag_of b = fl_tag F"
    and "fl_good F \<longrightarrow> rf = ar_rf (fl_arch F)"
  obtains q' where "lsb_issue i (fl_tag F (length (fl_ins F))) t rf b q = Inr (True, q')"
    and "lsb_wf q'" and "lsb_size q' = lsb_size q" and "lsb_ok (fl_push i F) (lsb_list q')"
proof -
  let ?n = "length (fl_ins F)" and ?s = "lsb_entries q ! lsb_tail q"
  have rs: "in_rs1 i < 32" "in_rs2 i < 32" using assms(6) by (simp_all add: wf_instr_def)
  obtain vj qj where j: "resolve_operand (in_rs1 i) False t rf b (l_vj ?s) = Inr (vj, qj)"
      "opnd_ok F ?n vj qj (in_rs1 i) False"
    using resolve_flight [OF assms(1,7-12) rs(1)] by blast
  obtain vk qk where k: "resolve_operand (in_rs2 i) (in_rs2_fp i) t rf b (l_vk ?s) = Inr (vk, qk)"
      "opnd_ok F ?n vk qk (in_rs2 i) (in_rs2_fp i)"
    using resolve_flight [OF assms(1,7-12) rs(2)] by blast
  obtain e where fill: "lsb_fill i (fl_tag F ?n) t rf b ?s = Inr e"
    and e: "l_state e = LSB_WAITING" "l_rob_tag e = fl_tag F ?n" "l_op e = in_op i" "l_imm e = in_imm i"
      "l_vj e = vj" "l_qj e = qj" "l_vk e = vk" "l_qk e = qk"
    by (simp add: lsb_fill_def j(1) k(1))
  obtain q' where q': "lsb_issue i (fl_tag F ?n) t rf b q = Inr (True, q')" "lsb_wf q'"
      "lsb_list q' = lsb_list q @ [e]" "lsb_size q' = lsb_size q"
    using lsb_issue_free [OF assms(2,4) fill] by metis
  have "lsb_entry_ok (fl_push i F) ?n e"
    using e j(2) k(2) opnd_ok_push [OF assms(1) order_refl] flight_okD(2) [OF assms(1)]
    by (simp add: lsb_entry_ok_def nth_append fresh_rob_entry_def)
  then have "lsb_ok (fl_push i F) (lsb_list q')"
    using q'(3) list_all2_push [OF assms(1,3), of i] assms(5)
    by (auto simp: lsb_ok_def lsb_slots_push [OF assms(1)] intro: list_all2_appendI)
  then show thesis using that q' by blast
qed

section \<open>Retirement\<close>

lemma lsb_slots_shift:
  assumes "flight_ok F" and "fl_ins F \<noteq> []"
  shows "lsb_slots F = (if in_lsb F 0 then [0] else []) @ map Suc (lsb_slots (fl_shift F))"
proof -
  obtain r rs where rob: "fl_rob F = r # rs"
    using flight_okD(2) [OF assms(1)] assms(2) by (cases "fl_rob F") auto
  obtain i "is" where ins: "fl_ins F = i # is" using assms(2) by (cases "fl_ins F") auto
  have "in_lsb F (Suc k) = in_lsb (fl_shift F) k" for k
    using rob ins by (simp add: in_lsb_def)
  then have "filter (in_lsb F) (map Suc [0..<length is]) = map Suc (filter (in_lsb (fl_shift F)) [0..<length is])"
    by (simp add: filter_map comp_def)
  moreover have "[0..<length (fl_ins F)] = 0 # map Suc [0..<length is]"
    using ins by (simp add: upt_conv_Cons map_Suc_upt del: upt_Suc)
  ultimately show ?thesis using ins by (simp add: lsb_slots_def)
qed

lemma lsb_entry_ok_shift:
  assumes "flight_ok F" and "fl_bus F = []" and "state_at F 0 = ROB_DONE"
    and "Suc k < length (fl_ins F)" and "lsb_entry_ok F (Suc k) e"
  shows "lsb_entry_ok (fl_shift F) k e"
proof -
  have ne: "fl_ins F \<noteq> []" using assms(4) by auto
  obtain r rs where rob: "fl_rob F = r # rs"
    using flight_okD(2) [OF assms(1)] ne by (cases "fl_rob F") auto
  show ?thesis
    using assms(4,5) ne rob opnd_ok_shift [OF assms(1-4)]
    by (auto simp: lsb_entry_ok_def nth_tl_ins safe_shift arch_at_shift result_ok_shift)
qed

lemma lsb_ok_shift:
  assumes "flight_ok F" and "fl_bus F = []" and "state_at F 0 = ROB_DONE" and "fl_ins F \<noteq> []" and "lsb_ok F L"
  shows "if is_store (op_at F 0)
     then \<exists>e L'. L = e # L' \<and> l_state e = LSB_DONE \<and> is_store (l_op e) \<and> lsb_entry_ok F 0 e \<and> lsb_ok (fl_shift F) L'
     else lsb_ok (fl_shift F) L"
proof -
  have sh: "list_all2 (lsb_entry_ok (fl_shift F)) (lsb_slots (fl_shift F)) L'"
    if "list_all2 (lsb_entry_ok F) (map Suc (lsb_slots (fl_shift F))) L'" for L'
    unfolding list_all2_conv_all_nth
  proof (intro conjI allI impI)
    show "length (lsb_slots (fl_shift F)) = length L'" using list_all2_lengthD [OF that] by simp
    fix j assume j: "j < length (lsb_slots (fl_shift F))"
    then have "Suc (lsb_slots (fl_shift F) ! j) < length (fl_ins F)" using lsb_slots_nth [OF j] by auto
    moreover have "lsb_entry_ok F (Suc (lsb_slots (fl_shift F) ! j)) (L' ! j)"
      using list_all2_nthD [OF that, of j] j by simp
    ultimately show "lsb_entry_ok (fl_shift F) (lsb_slots (fl_shift F) ! j) (L' ! j)"
      by (rule lsb_entry_ok_shift [OF assms(1-3)])
  qed
  have "in_lsb F 0 \<longleftrightarrow> is_store (op_at F 0)" using assms(3) by (simp add: in_lsb_def)
  moreover have "is_store (op_at F 0) \<Longrightarrow> lsb_entry_ok F 0 e \<Longrightarrow> l_state e = LSB_DONE \<and> is_store (l_op e)" for e
    using assms(3) by (simp add: lsb_entry_ok_def)
  ultimately show ?thesis
    using assms(5) sh lsb_slots_shift [OF assms(1,4)]
    by (auto simp: lsb_ok_def list_all2_Cons1)
qed

end
