(* ===== verification/Machine.thy ===== *)
theory Machine
  imports Flight_Stations Flight_Memory
begin

text \<open>
  The invariant of the whole machine, phase by phase. \<open>machine_ok F P base s\<close> ties the state \<open>s\<close>
  of the simulator to the flight \<open>F\<close> of the instructions \<open>base, base + 1, ...\<close> of the program \<open>P\<close>.
  Every phase of a clock cycle returns (no assertion of the source fails) in a state related to
  a flight that has changed only in the expected way: results appear, the bus is snooped, the
  oldest instruction retires, a new one enters.
\<close>

section \<open>The invariant\<close>

definition machine_ok :: "flight \<Rightarrow> instruction list \<Rightarrow> nat \<Rightarrow> sim \<Rightarrow> bool" where
  "machine_ok F P base s \<longleftrightarrow>
     flight_ok F \<and> rob_wf (s_rob s) \<and> fl_rob F = rob_list (s_rob s) \<and> fl_tag F = rob_tag_of (s_rob s) \<and>
     (\<forall>i \<in> set P. wf_instr i) \<and> fl_ins F = map ((!) P) [base..<base + length (fl_ins F)] \<and>
     (fl_ins F = [] \<or> base + length (fl_ins F) \<le> length P) \<and>
     iq_program (s_iq s) = P \<and> iq_wf (s_iq s) \<and>
     (if s_branch_in_flight s then fl_ins F \<noteq> [] \<and> control (in_op (last (fl_ins F)))
      else (\<forall>k < length (fl_ins F). \<not> control (op_at F k)) \<and> iq_window (s_iq s) (base + length (fl_ins F))) \<and>
     rat_ok F (s_rat s) \<and> regfile_wf (s_rf s) \<and> (\<forall>u. station_ok F u (s_rs s u)) \<and>
     lsb_wf (s_lsb s) \<and> lsb_ok F (lsb_list (s_lsb s)) \<and>
     (fl_good F \<longrightarrow> s_rf s = ar_rf (fl_arch F) \<and> s_mem s = ar_mem (fl_arch F) \<and> ar_pc (fl_arch F) = base)"

text \<open>Nothing of the program order and of the architectural state differs.\<close>

definition same_code :: "flight \<Rightarrow> flight \<Rightarrow> bool" where
  "same_code F F' \<longleftrightarrow> fl_fe F' = fl_fe F \<and> fl_good F' = fl_good F \<and> fl_arch F' = fl_arch F \<and> fl_ins F' = fl_ins F"

lemma same_code_refl [simp]: "same_code F F"
  by (simp add: same_code_def)

lemma same_code_trans: "same_code F G \<Longrightarrow> same_code G H \<Longrightarrow> same_code F H"
  by (simp add: same_code_def)

lemma same_code_updates [simp]:
  "same_code F (fl_complete k v F)" "same_code F (fl_mark k F)" "same_code F (F\<lparr>fl_bus := c\<rparr>)"
  by (simp_all add: same_code_def)

lemma machine_ok_length: "machine_ok F P base s \<Longrightarrow> length (fl_ins F) = rob_count (s_rob s)"
  using flight_okD(2) [of F] by (simp add: machine_ok_def)

section \<open>Phase 1: execution\<close>

lemma machine_ok_execute:
  assumes "machine_ok F P base s"
  shows "machine_ok F P base (phase_execute (fl_fe F) s)"
proof -
  have "lsb_ok F (lsb_list (lsb_tick (s_mem s) (s_lsb s)))" "lsb_wf (lsb_tick (s_mem s) (s_lsb s))"
    using assms lsb_ok_tick [of F "s_mem s" "s_lsb s"] lsb_tick_list [of "s_lsb s" "s_mem s"]
    by (auto simp: machine_ok_def)
  then show ?thesis
    using assms station_ok_tick by (simp add: machine_ok_def phase_execute_def)
qed

section \<open>Phase 2: stores are marked done\<close>

lemma machine_ok_mark:
  assumes "machine_ok F P base s" and "j < lsb_count (s_lsb s)" and "is_store (l_op (lsb_list (s_lsb s) ! j))"
    and "l_state (lsb_list (s_lsb s) ! j) = LSB_DONE"
  shows "\<exists>k re. rob_peek (l_rob_tag (lsb_list (s_lsb s) ! j)) (s_rob s) = Inr re \<and>
     (r_state re = ROB_IN_FLIGHT \<longrightarrow> (\<exists>b. rob_write_result (l_rob_tag (lsb_list (s_lsb s) ! j)) 0 (s_rob s) = Inr b \<and>
        machine_ok (fl_mark k F) P base (s\<lparr>s_rob := b\<rparr>)))"
proof -
  let ?L = "lsb_list (s_lsb s)"
  have fo: "flight_ok F" and lo: "lsb_ok F ?L" and rw: "rob_wf (s_rob s)"
    and rl: "fl_rob F = rob_list (s_rob s)" and tg: "fl_tag F = rob_tag_of (s_rob s)"
    using assms(1) by (simp_all add: machine_ok_def)
  define k where "k = lsb_slots F ! j"
  have k: "k < length (fl_ins F)" "is_store (op_at F k)" "l_rob_tag (?L ! j) = fl_tag F k"
      "lsb_ok (fl_mark k F) ?L"
    using lsb_ok_mark [OF fo lo _ assms(3,4)] assms(2) by (auto simp: k_def)
  have kc: "k < rob_count (s_rob s)" using k(1) machine_ok_length [OF assms(1)] by simp
  have pk: "rob_peek (l_rob_tag (?L ! j)) (s_rob s) = Inr (fl_rob F ! k)"
    using rob_peek_tag_of [OF rw kc] k(3) tg rl by simp
  have "\<exists>b. rob_write_result (l_rob_tag (?L ! j)) 0 (s_rob s) = Inr b \<and>
      machine_ok (fl_mark k F) P base (s\<lparr>s_rob := b\<rparr>)" if st: "state_at F k = ROB_IN_FLIGHT"
  proof -
    obtain b where b: "rob_write_result (rob_tag_of (s_rob s) k) 0 (s_rob s) = Inr b" "rob_wf b"
        "rob_list b = (rob_list (s_rob s))[k := complete_entry 0 (rob_list (s_rob s) ! k)]"
        "rob_size b = rob_size (s_rob s)" "rob_head b = rob_head (s_rob s)"
      using rob_write_result_tag_of [OF rw kc] st rl by metis
    have "rob_tag_of b = rob_tag_of (s_rob s)" using b by (auto simp: rob_tag_of_def)
    then have "machine_ok (fl_mark k F) P base (s\<lparr>s_rob := b\<rparr>)"
      using assms(1) b rl tg flight_ok_mark [OF fo k(1) st k(2)] k(4) station_ok_mark [OF fo k(1,2)]
      by (auto simp: machine_ok_def rat_ok_fields) (simp_all add: fl_mark_def)
    then show ?thesis using b(1) k(3) tg by auto
  qed
  then show ?thesis using pk by blast
qed

lemma machine_ok_stores:
  assumes "machine_ok F P base s"
  shows "returns (phase_stores s) (\<lambda>s'. \<exists>F'. same_code F F' \<and> fl_bus F' = fl_bus F \<and> machine_ok F' P base s' \<and>
     s_halted s' = s_halted s \<and> s_cdb s' = s_cdb s)"
proof -
  let ?q = "s_lsb s"
  define I where "I = (\<lambda>b. \<exists>F'. same_code F F' \<and> fl_bus F' = fl_bus F \<and> machine_ok F' P base (s\<lparr>s_rob := b\<rparr>))"
  have 0: "I (s_rob s)" using assms by (auto simp: I_def intro!: exI [of _ F])
  have "returns (lsb_update_rob ?q (s_rob s)) I"
    unfolding lsb_update_rob_def
  proof (rule returns_res_fold [where I = I, OF 0])
    fix j b assume j: "j \<in> set [0..<lsb_count ?q]" and Ib: "I b"
    obtain F' where F': "same_code F F'" "fl_bus F' = fl_bus F" "machine_ok F' P base (s\<lparr>s_rob := b\<rparr>)"
      using Ib by (auto simp: I_def)
    have at: "lsb_entries ?q ! lsb_phys ?q j = lsb_list ?q ! j"
      using assms j by (simp add: lsb_entry_at machine_ok_def)
    let ?e = "lsb_list ?q ! j"
    show "returns (let e = lsb_entries ?q ! lsb_phys ?q j in
        if is_store (l_op e) \<and> l_state e = LSB_DONE then
          res_bind (rob_peek (l_rob_tag e) b) (\<lambda>re.
            if r_state re = ROB_IN_FLIGHT then rob_write_result (l_rob_tag e) 0 b else Inr b)
        else Inr b) I"
    proof (cases "is_store (l_op ?e) \<and> l_state ?e = LSB_DONE")
      case False
      then show ?thesis using Ib by (auto simp: at Let_def)
    next
      case True
      obtain k re where re: "rob_peek (l_rob_tag ?e) b = Inr re"
        and wr: "r_state re = ROB_IN_FLIGHT \<longrightarrow> (\<exists>b'. rob_write_result (l_rob_tag ?e) 0 b = Inr b' \<and>
          machine_ok (fl_mark k F') P base (s\<lparr>s_rob := b'\<rparr>))"
        using machine_ok_mark [OF F'(3), of j] True j by auto
      have "I b'" if "machine_ok (fl_mark k F') P base (s\<lparr>s_rob := b'\<rparr>)" for b'
        using that F' same_code_trans [OF F'(1)] by (auto simp: I_def intro!: exI [of _ "fl_mark k F'"])
      then show ?thesis using True re wr Ib by (auto simp: at Let_def)
    qed
  qed
  then show ?thesis
    by (elim returnsE) (auto simp: phase_stores_def I_def)
qed

section \<open>Phase 3: broadcast\<close>

lemma machine_ok_complete:
  assumes "machine_ok F P base s" and "k < length (fl_ins F)" and "state_at F k = ROB_IN_FLIGHT"
    and "result_ok F k v" and "\<And>u. station_ok (fl_complete k v F) u (rs' u)"
    and "lsb_wf q'" and "lsb_ok (fl_complete k v F) (lsb_list q')"
  shows "\<exists>b. rob_write_result (fl_tag F k) v (s_rob s) = Inr b \<and>
     machine_ok (fl_complete k v F) P base (s\<lparr>s_rs := rs', s_rob := b, s_cdb := c, s_lsb := q'\<rparr>)"
proof -
  have fo: "flight_ok F" and rw: "rob_wf (s_rob s)"
    and rl: "fl_rob F = rob_list (s_rob s)" and tg: "fl_tag F = rob_tag_of (s_rob s)"
    using assms(1) by (simp_all add: machine_ok_def)
  have kc: "k < rob_count (s_rob s)" using assms(2) machine_ok_length [OF assms(1)] by simp
  obtain b where b: "rob_write_result (rob_tag_of (s_rob s) k) v (s_rob s) = Inr b" "rob_wf b"
      "rob_list b = (rob_list (s_rob s))[k := complete_entry v (rob_list (s_rob s) ! k)]"
      "rob_size b = rob_size (s_rob s)" "rob_head b = rob_head (s_rob s)"
    using rob_write_result_tag_of [OF rw kc] assms(3) rl by metis
  have "rob_tag_of b = rob_tag_of (s_rob s)" using b by (auto simp: rob_tag_of_def)
  then have "machine_ok (fl_complete k v F) P base (s\<lparr>s_rs := rs', s_rob := b, s_cdb := c, s_lsb := q'\<rparr>)"
    using assms b rl tg flight_ok_complete [OF fo assms(2-4)]
    by (auto simp: machine_ok_def rat_ok_fields) (simp_all add: fl_complete_def)
  then show ?thesis using b(1) tg by auto
qed

definition bus_pending :: "flight \<Rightarrow> sim \<Rightarrow> bool" where
  "bus_pending F s \<longleftrightarrow> fl_bus F = cdb_results (s_cdb s)"

lemma fl_bus_complete: "fl_bus F = cdb_results c \<Longrightarrow>
    fl_bus (fl_complete k v F) = cdb_results (cdb_broadcast (fl_tag F k) v c)"
  by (simp add: fl_complete_def cdb_ops)

text \<open>One iteration of \<open>while (rs->has_result())\<close>.\<close>

lemma broadcast_station_step:
  assumes "machine_ok F P base s" and "bus_pending F s" and "rs_has_result (s_rs s u)"
  obtains e st' b' F' where "rs_pop_result (s_rs s u) = Inr (e, st')"
    and "rob_write_result (rs_rob_tag e) (rs_result e) (s_rob s) = Inr b'" and "same_code F F'"
    and "machine_ok F' P base (s\<lparr>s_rs := (s_rs s)(u := st'), s_rob := b',
           s_cdb := cdb_broadcast (rs_rob_tag e) (rs_result e) (s_cdb s)\<rparr>)"
    and "bus_pending F' (s\<lparr>s_rs := (s_rs s)(u := st'), s_rob := b',
           s_cdb := cdb_broadcast (rs_rob_tag e) (rs_result e) (s_cdb s)\<rparr>)"
proof -
  have fo: "flight_ok F" and so: "\<And>u. station_ok F u (s_rs s u)"
    and lw: "lsb_wf (s_lsb s)" and lo: "lsb_ok F (lsb_list (s_lsb s))"
    using assms(1) by (simp_all add: machine_ok_def)
  obtain k e st' where k: "k < length (fl_ins F)" "state_at F k = ROB_IN_FLIGHT"
      "target_unit (op_at F k) = Some u" and pop: "rs_pop_result (s_rs s u) = Inr (e, st')"
    and e: "rs_rob_tag e = fl_tag F k" "result_ok F k (rs_result e)"
    and st': "station_ok (fl_complete k (rs_result e) F) u st'"
    using station_ok_pop [OF fo so assms(3)] .
  let ?F = "fl_complete k (rs_result e) F"
  have other: "station_ok ?F u' (s_rs s u')" if "u' \<noteq> u" for u'
  proof (rule station_ok_complete [OF fo k(1,2) so], rule ballI, rule impI)
    fix e' assume "e' \<in> set (st_entries (s_rs s u'))" "rs_busy e'"
    then obtain j where "j < length (fl_ins F)" "target_unit (op_at F j) = Some u'" "rs_rob_tag e' = fl_tag F j"
      using so [of u'] by (auto simp: station_ok_def rs_entry_ok_def holds_def)
    then show "rs_rob_tag e' \<noteq> fl_tag F k" using k(1,3) that fl_tag_inject [OF fo] by auto
  qed
  have nm: "\<not> is_store (op_at F k)" "\<not> is_load (op_at F k)"
    using k(3) by (auto simp: target_unit_def split: if_splits)
  have "\<And>u'. station_ok ?F u' (((s_rs s)(u := st')) u')" using other st' by simp
  from machine_ok_complete [OF assms(1) k(1,2) e(2) this lw lsb_ok_complete_other [OF fo k(1,2) nm lo],
      of "cdb_broadcast (rs_rob_tag e) (rs_result e) (s_cdb s)"]
  obtain b where b: "rob_write_result (fl_tag F k) (rs_result e) (s_rob s) = Inr b"
    and mo: "machine_ok ?F P base (s\<lparr>s_rs := (s_rs s)(u := st'), s_rob := b,
        s_cdb := cdb_broadcast (rs_rob_tag e) (rs_result e) (s_cdb s), s_lsb := s_lsb s\<rparr>)" by blast
  show thesis
    using that [OF pop, of b ?F] b mo e(1) fl_bus_complete [of F "s_cdb s"] assms(2)
    by (simp add: bus_pending_def)
qed

lemma machine_ok_broadcast_station:
  assumes "machine_ok F P base s" and "bus_pending F s"
  shows "returns (broadcast_station (s_rs s u) (s_rob s) (s_cdb s)) (\<lambda>(st, b, c). \<exists>F'. same_code F F' \<and>
     machine_ok F' P base (s\<lparr>s_rs := (s_rs s)(u := st), s_rob := b, s_cdb := c\<rparr>) \<and>
     bus_pending F' (s\<lparr>s_rs := (s_rs s)(u := st), s_rob := b, s_cdb := c\<rparr>))"
  using assms
proof (induction "length (filter (\<lambda>e. rs_busy e \<and> rs_done e) (st_entries (s_rs s u)))"
    arbitrary: s F rule: less_induct)
  case less
  show ?case
  proof (cases "rs_has_result (s_rs s u)")
    case False
    then show ?thesis
      using less.prems by (subst broadcast_station.simps) (auto intro!: exI [of _ F])
  next
    case True
    obtain e st' b' F' where pop: "rs_pop_result (s_rs s u) = Inr (e, st')"
      and wr: "rob_write_result (rs_rob_tag e) (rs_result e) (s_rob s) = Inr b'" and F': "same_code F F'"
      and mo: "machine_ok F' P base (s\<lparr>s_rs := (s_rs s)(u := st'), s_rob := b',
             s_cdb := cdb_broadcast (rs_rob_tag e) (rs_result e) (s_cdb s)\<rparr>)"
      and bp: "bus_pending F' (s\<lparr>s_rs := (s_rs s)(u := st'), s_rob := b',
             s_cdb := cdb_broadcast (rs_rob_tag e) (rs_result e) (s_cdb s)\<rparr>)"
      using broadcast_station_step [OF less.prems True] .
    let ?s = "s\<lparr>s_rs := (s_rs s)(u := st'), s_rob := b',
             s_cdb := cdb_broadcast (rs_rob_tag e) (rs_result e) (s_cdb s)\<rparr>"
    have "returns (broadcast_station (s_rs ?s u) (s_rob ?s) (s_cdb ?s)) (\<lambda>(st, b, c). \<exists>G. same_code F' G \<and>
       machine_ok G P base (?s\<lparr>s_rs := (s_rs ?s)(u := st), s_rob := b, s_cdb := c\<rparr>) \<and>
       bus_pending G (?s\<lparr>s_rs := (s_rs ?s)(u := st), s_rob := b, s_cdb := c\<rparr>))"
      using less.hyps [OF _ mo bp] rs_pop_result_decreases [OF pop] by simp
    then have "returns (broadcast_station st' b' (cdb_broadcast (rs_rob_tag e) (rs_result e) (s_cdb s)))
      (\<lambda>(st, b, c). \<exists>G. same_code F G \<and>
         machine_ok G P base (s\<lparr>s_rs := (s_rs s)(u := st), s_rob := b, s_cdb := c\<rparr>) \<and>
         bus_pending G (s\<lparr>s_rs := (s_rs s)(u := st), s_rob := b, s_cdb := c\<rparr>))"
      using same_code_trans [OF F'] by (elim returnsE) auto
    then show ?thesis
      using True pop wr by (subst broadcast_station.simps) simp
  qed
qed

lemma machine_ok_broadcast_unit:
  assumes "machine_ok F P base s" and "bus_pending F s"
  shows "returns (broadcast_unit u s) (\<lambda>s'. \<exists>F'. same_code F F' \<and> machine_ok F' P base s' \<and>
     bus_pending F' s' \<and> s_halted s' = s_halted s)"
  using machine_ok_broadcast_station [OF assms, of u]
  by (elim returnsE) (auto simp: broadcast_unit_def)

lemma machine_ok_broadcast_units:
  assumes "machine_ok F P base s" and "bus_pending F s"
  shows "returns (res_fold broadcast_unit us s) (\<lambda>s'. \<exists>F'. same_code F F' \<and> machine_ok F' P base s' \<and>
     bus_pending F' s' \<and> s_halted s' = s_halted s)"
proof (rule returns_res_fold)
  show "\<exists>F'. same_code F F' \<and> machine_ok F' P base s \<and> bus_pending F' s \<and> s_halted s = s_halted s"
    using assms by (auto intro!: exI [of _ F])
next
  fix u s1
  assume "\<exists>F'. same_code F F' \<and> machine_ok F' P base s1 \<and> bus_pending F' s1 \<and> s_halted s1 = s_halted s"
  then obtain F' where F': "same_code F F'" "machine_ok F' P base s1" "bus_pending F' s1"
    "s_halted s1 = s_halted s" by blast
  from machine_ok_broadcast_unit [OF F'(2,3), of u] same_code_trans [OF F'(1)] F'(4)
  show "returns (broadcast_unit u s1) (\<lambda>s'. \<exists>F'. same_code F F' \<and> machine_ok F' P base s' \<and>
     bus_pending F' s' \<and> s_halted s' = s_halted s)"
    by (elim returnsE) auto
qed

text \<open>One iteration of \<open>while (lsb.has_load_result())\<close>, and the loop.\<close>

lemma broadcast_loads_step:
  assumes "machine_ok F P base s" and "bus_pending F s" and "lsb_has_load_result (s_lsb s)"
  obtains e q' b' F' where "lsb_pop_load_result (s_lsb s) = Inr (e, q')"
    and "rob_write_result (l_rob_tag e) (l_result e) (s_rob s) = Inr b'" and "same_code F F'"
    and "machine_ok F' P base (s\<lparr>s_lsb := q', s_rob := b',
           s_cdb := cdb_broadcast (l_rob_tag e) (l_result e) (s_cdb s)\<rparr>)"
    and "bus_pending F' (s\<lparr>s_lsb := q', s_rob := b',
           s_cdb := cdb_broadcast (l_rob_tag e) (l_result e) (s_cdb s)\<rparr>)"
proof -
  have fo: "flight_ok F" and so: "\<And>u. station_ok F u (s_rs s u)"
    and lw: "lsb_wf (s_lsb s)" and lo: "lsb_ok F (lsb_list (s_lsb s))"
    using assms(1) by (simp_all add: machine_ok_def)
  obtain e L where l: "lsb_list (s_lsb s) = e # L" "l_state e = LSB_DONE" "is_load (l_op e)"
    using assms(3) lsb_has_load_result_iff [OF lw] by auto
  have pop: "lsb_pop_load_result (s_lsb s) = Inr (e, lsb_drop_head (s_lsb s))"
    using lsb_pop_load_result_head [OF lw l] .
  obtain k where k: "k < length (fl_ins F)" "state_at F k = ROB_IN_FLIGHT" "is_load (op_at F k)"
    and e: "l_rob_tag e = fl_tag F k" "result_ok F k (l_result e)"
    and L: "lsb_ok (fl_complete k (l_result e) F) L"
    using lsb_ok_pop [OF fo lo [unfolded l(1)] l(2,3)] .
  let ?F = "fl_complete k (l_result e) F"
  have "target_unit (op_at F k) = None" using k(3) by (simp add: target_unit_def)
  then have "station_ok ?F u (s_rs s u)" for u
    using so [of u] k(1) fl_tag_inject [OF fo]
    by (intro station_ok_complete [OF fo k(1,2)])
       (fastforce simp: station_ok_def rs_entry_ok_def holds_def)+
  moreover have "lsb_wf (lsb_drop_head (s_lsb s))" "lsb_list (lsb_drop_head (s_lsb s)) = L"
    using lsb_drop_head_props [OF lw l(1)] by simp_all
  ultimately obtain b where b: "rob_write_result (fl_tag F k) (l_result e) (s_rob s) = Inr b"
    and mo: "machine_ok ?F P base (s\<lparr>s_rs := s_rs s, s_rob := b,
        s_cdb := cdb_broadcast (l_rob_tag e) (l_result e) (s_cdb s), s_lsb := lsb_drop_head (s_lsb s)\<rparr>)"
    using machine_ok_complete [OF assms(1) k(1,2) e(2), of "s_rs s" "lsb_drop_head (s_lsb s)"
        "cdb_broadcast (l_rob_tag e) (l_result e) (s_cdb s)"] L by auto
  have "s\<lparr>s_rs := s_rs s, s_rob := b, s_cdb := c, s_lsb := q\<rparr> = s\<lparr>s_lsb := q, s_rob := b, s_cdb := c\<rparr>" for c q
    by (cases s) simp
  note mo' = mo [unfolded this]
  show thesis
    using that [OF pop, of b ?F] b mo' e(1) fl_bus_complete [of F "s_cdb s"] assms(2)
    by (simp add: bus_pending_def)
qed

lemma machine_ok_broadcast_loads:
  assumes "machine_ok F P base s" and "bus_pending F s"
  shows "returns (broadcast_loads (s_lsb s) (s_rob s) (s_cdb s)) (\<lambda>(q, b, c). \<exists>F'. same_code F F' \<and>
     machine_ok F' P base (s\<lparr>s_lsb := q, s_rob := b, s_cdb := c\<rparr>) \<and>
     bus_pending F' (s\<lparr>s_lsb := q, s_rob := b, s_cdb := c\<rparr>))"
  using assms
proof (induction "lsb_count (s_lsb s)" arbitrary: s F rule: less_induct)
  case less
  show ?case
  proof (cases "lsb_has_load_result (s_lsb s)")
    case False
    then show ?thesis
      using less.prems by (subst broadcast_loads.simps) (auto intro!: exI [of _ F])
  next
    case True
    obtain e q' b' F' where pop: "lsb_pop_load_result (s_lsb s) = Inr (e, q')"
      and wr: "rob_write_result (l_rob_tag e) (l_result e) (s_rob s) = Inr b'" and F': "same_code F F'"
      and mo: "machine_ok F' P base (s\<lparr>s_lsb := q', s_rob := b',
             s_cdb := cdb_broadcast (l_rob_tag e) (l_result e) (s_cdb s)\<rparr>)"
      and bp: "bus_pending F' (s\<lparr>s_lsb := q', s_rob := b',
             s_cdb := cdb_broadcast (l_rob_tag e) (l_result e) (s_cdb s)\<rparr>)"
      using broadcast_loads_step [OF less.prems True] .
    let ?s = "s\<lparr>s_lsb := q', s_rob := b', s_cdb := cdb_broadcast (l_rob_tag e) (l_result e) (s_cdb s)\<rparr>"
    have "returns (broadcast_loads (s_lsb ?s) (s_rob ?s) (s_cdb ?s)) (\<lambda>(q, b, c). \<exists>G. same_code F' G \<and>
       machine_ok G P base (?s\<lparr>s_lsb := q, s_rob := b, s_cdb := c\<rparr>) \<and>
       bus_pending G (?s\<lparr>s_lsb := q, s_rob := b, s_cdb := c\<rparr>))"
      using less.hyps [OF _ mo bp] lsb_pop_decreases [OF True pop] by simp
    then have "returns (broadcast_loads q' b' (cdb_broadcast (l_rob_tag e) (l_result e) (s_cdb s)))
      (\<lambda>(q, b, c). \<exists>G. same_code F G \<and>
         machine_ok G P base (s\<lparr>s_lsb := q, s_rob := b, s_cdb := c\<rparr>) \<and>
         bus_pending G (s\<lparr>s_lsb := q, s_rob := b, s_cdb := c\<rparr>))"
      using same_code_trans [OF F'] by (elim returnsE) auto
    then show ?thesis
      using True pop wr by (subst broadcast_loads.simps) simp
  qed
qed

lemma machine_ok_broadcast:
  assumes "machine_ok F P base s" and "bus_pending F s"
  shows "returns (phase_broadcast s) (\<lambda>s'. \<exists>F'. same_code F F' \<and> machine_ok F' P base s' \<and>
     bus_pending F' s' \<and> s_halted s' = s_halted s)"
  unfolding phase_broadcast_def
proof (rule returns_bindI [OF machine_ok_broadcast_units [OF assms]])
  fix s1
  assume "\<exists>F'. same_code F F' \<and> machine_ok F' P base s1 \<and> bus_pending F' s1 \<and> s_halted s1 = s_halted s"
  then obtain F' where F': "same_code F F'" "machine_ok F' P base s1" "bus_pending F' s1"
    "s_halted s1 = s_halted s" by blast
  from machine_ok_broadcast_loads [OF F'(2,3)] same_code_trans [OF F'(1)] F'(4)
  show "returns (res_bind (broadcast_loads (s_lsb s1) (s_rob s1) (s_cdb s1))
      (\<lambda>(q, b, c). Inr (s1\<lparr>s_lsb := q, s_rob := b, s_cdb := c\<rparr>)))
    (\<lambda>s'. \<exists>F'. same_code F F' \<and> machine_ok F' P base s' \<and> bus_pending F' s' \<and> s_halted s' = s_halted s)"
    by (elim returnsE) fastforce
qed

section \<open>Phase 4: snoop\<close>

lemma phase_snoop_eq:
  "phase_snoop s = s\<lparr>s_rs := (\<lambda>u. rs_snoop (s_cdb s) (s_rs s u)), s_lsb := lsb_snoop (s_cdb s) (s_lsb s)\<rparr>"
proof -
  have "fold (\<lambda>u s. s\<lparr>s_rs := (s_rs s)(u := rs_snoop (s_cdb s) (s_rs s u))\<rparr>) us s
      = s\<lparr>s_rs := (\<lambda>u. if u \<in> set us then rs_snoop (s_cdb s) (s_rs s u) else s_rs s u)\<rparr>"
    if "distinct us" for us
    using that by (induction us arbitrary: s) (auto simp: fun_eq_iff intro!: arg_cong2 [of _ _ _ _ "\<lambda>f s. s_rs_update (\<lambda>_. f) s"])
  moreover have "distinct all_units" "u \<in> set all_units" for u
    by (cases u; simp add: all_units_def)+
  ultimately show ?thesis by (simp add: phase_snoop_def Let_def)
qed

lemma machine_ok_snoop:
  assumes "machine_ok F P base s" and "bus_pending F s"
  shows "machine_ok (F\<lparr>fl_bus := []\<rparr>) P base (phase_snoop s)"
proof -
  have fo: "flight_ok F" and lw: "lsb_wf (s_lsb s)" and lo: "lsb_ok F (lsb_list (s_lsb s))"
    and so: "\<And>u. station_ok F u (s_rs s u)" and bus: "cdb_results (s_cdb s) = fl_bus F"
    using assms by (simp_all add: machine_ok_def bus_pending_def)
  show ?thesis
    using assms(1) flight_ok_snooped [OF fo] station_ok_snoop [OF fo so bus] lsb_ok_snoop [OF fo lo]
      lsb_snoop_props [OF lw, of "s_cdb s"] bus
    by (simp add: machine_ok_def phase_snoop_eq rat_ok_fields)
qed

end
