(* ===== verification/Refinement.thy ===== *)
theory Refinement
  imports Machine
begin

text \<open>
  Commit and dispatch keep the invariant of the machine; a clock cycle as a whole performs at
  most one step of the sequential machine on the committed state; and so does a run of the
  clock loop, for any number of cycles.
\<close>

lemma machine_ok_fetch:
  "machine_ok F P base s \<Longrightarrow> if s_branch_in_flight s then fl_ins F \<noteq> [] \<and> control (in_op (last (fl_ins F)))
     else (\<forall>k < length (fl_ins F). \<not> control (op_at F k)) \<and> iq_window (s_iq s) (base + length (fl_ins F))"
  by (simp add: machine_ok_def)

section \<open>Phase 5: commit\<close>

text \<open>Retiring the oldest instruction, whatever its kind: the parts of the new state that the kinds
  differ in are hypotheses.\<close>

lemma machine_ok_shift:
  assumes "machine_ok F P base s" and "fl_bus F = []" and "fl_ins F \<noteq> []" and "state_at F 0 = ROB_DONE"
    and "s_rs s' = s_rs s" and "rob_wf (s_rob s')" and "rob_list (s_rob s') = tl (fl_rob F)"
    and "rob_tag_of (s_rob s') = (\<lambda>k. fl_tag F (Suc k))"
    and "rat_ok (fl_shift F) (s_rat s')" and "regfile_wf (s_rf s')"
    and "safe F 1 \<Longrightarrow> s_rf s' = ar_rf (isa_exec (fl_fe F) (hd (fl_ins F)) (fl_arch F)) \<and>
           s_mem s' = ar_mem (isa_exec (fl_fe F) (hd (fl_ins F)) (fl_arch F)) \<and>
           base' = ar_pc (isa_exec (fl_fe F) (hd (fl_ins F)) (fl_arch F))"
    and "lsb_wf (s_lsb s')" and "lsb_ok (fl_shift F) (lsb_list (s_lsb s'))"
    and "iq_program (s_iq s') = P" and "iq_wf (s_iq s')"
    and "if control (op_at F 0) then \<not> s_branch_in_flight s' \<and> iq_window (s_iq s') base'
         else s_branch_in_flight s' = s_branch_in_flight s \<and> s_iq s' = s_iq s \<and> base' = Suc base"
  shows "machine_ok (fl_shift F) P base' s'"
proof -
  have fo: "flight_ok F" and so: "\<And>u. station_ok F u (s_rs s u)"
    and ins: "fl_ins F = map ((!) P) [base..<base + length (fl_ins F)]"
    using assms(1) by (simp_all add: machine_ok_def)
  obtain i "is" where i: "fl_ins F = i # is" using assms(3) by (cases "fl_ins F") auto
  have st: "station_ok (fl_shift F) u (s_rs s' u)" for u
    using station_ok_shift [OF fo assms(2,4,3) so] assms(5) by simp
  have fs: "flight_ok (fl_shift F)" by (rule flight_ok_shift [OF fo assms(2,3)])
  have tag: "fl_tag (fl_shift F) = rob_tag_of (s_rob s')" using assms(8) by (auto simp: fun_eq_iff)
  have "(is = map ((!) P) [base'..<base' + length is]) \<and> (is = [] \<or> base' + length is \<le> length P) \<and>
      (if s_branch_in_flight s' then is \<noteq> [] \<and> control (in_op (last is))
       else (\<forall>k < length is. \<not> control (in_op (is ! k))) \<and> iq_window (s_iq s') (base' + length is))"
  proof (cases "control (op_at F 0)")
    case True
    then have "is = []" using flight_okD(6) [OF fo, of 0] i by simp
    then show ?thesis using assms(16) True by simp
  next
    case False
    have "i # is = P ! base # map ((!) P) [Suc base..<Suc base + length is]"
      using ins i by (simp add: upt_conv_Cons del: upt_Suc)
    then have seg: "is = map ((!) P) [Suc base..<Suc base + length is]" by (simp only: list.inject)
    have len: "Suc base + length is \<le> length P" using assms(1) i by (simp add: machine_ok_def)
    have "\<not> control (in_op i)" using False i by simp
    moreover have "if s_branch_in_flight s then control (in_op (last (i # is)))
        else (\<forall>k < Suc (length is). \<not> control (in_op ((i # is) ! k))) \<and> iq_window (s_iq s) (Suc base + length is)"
      using machine_ok_fetch [OF assms(1)] i by (cases "s_branch_in_flight s") simp_all
    ultimately have "if s_branch_in_flight s then is \<noteq> [] \<and> control (in_op (last is))
        else (\<forall>k < length is. \<not> control (in_op (is ! k))) \<and> iq_window (s_iq s) (Suc base + length is)"
      by (auto split: if_splits)
    moreover have "s_branch_in_flight s' = s_branch_in_flight s" "s_iq s' = s_iq s" "base' = Suc base"
      using assms(16) False by simp_all
    ultimately show ?thesis using seg len by (simp only: disj_comms simp_thms)
  qed
  note code = this
  have tl: "fl_ins (fl_shift F) = is" using i by simp
  have good: "fl_good (fl_shift F) \<longrightarrow> s_rf s' = ar_rf (fl_arch (fl_shift F)) \<and>
      s_mem s' = ar_mem (fl_arch (fl_shift F)) \<and> ar_pc (fl_arch (fl_shift F)) = base'"
    using assms(11) by simp
  have "\<forall>i \<in> set P. wf_instr i" using assms(1) by (simp add: machine_ok_def)
  then show ?thesis
    unfolding machine_ok_def tl using fs tag assms(6,7,9,10,12-15) st good code by (auto simp only: fl_shift_fields)
qed

text \<open>What is common to all kinds of the oldest instruction \<open>i\<close>: it has the entry \<open>e\<close>, and \<open>b'\<close> is the
  buffer without it.\<close>

definition retiring :: "flight \<Rightarrow> instruction list \<Rightarrow> nat \<Rightarrow> sim \<Rightarrow> instruction \<Rightarrow> rob_entry \<Rightarrow> rob \<Rightarrow> bool" where
  "retiring F P base s i e b' \<longleftrightarrow> machine_ok F P base s \<and> fl_bus F = [] \<and> fl_ins F \<noteq> [] \<and>
     hd (fl_ins F) = i \<and> fl_rob F = e # rob_list b' \<and> r_state e = ROB_DONE \<and>
     rob_wf b' \<and> rob_tag_of b' = (\<lambda>k. fl_tag F (Suc k))"

lemma retiringD:
  assumes "retiring F P base s i e b'"
  shows "flight_ok F" and "wf_instr i" and "fl_ins F = i # tl (fl_ins F)" and "state_at F 0 = ROB_DONE"
    and "r_op e = in_op i" and "r_rd e = in_rd i" and "r_rd_fp e = in_rd_fp i" and "r_pc e = in_pc i"
    and "op_at F 0 = in_op i"
    and "safe F 1 \<Longrightarrow> \<not> is_store (in_op i) \<Longrightarrow> r_result e = isa_result (fl_fe F) i (fl_arch F)"
    and "safe F 1 \<Longrightarrow> s_rf s = ar_rf (fl_arch F) \<and> s_mem s = ar_mem (fl_arch F) \<and> ar_pc (fl_arch F) = base"
proof -
  show fo: "flight_ok F" using assms by (simp add: retiring_def machine_ok_def)
  show ins: "fl_ins F = i # tl (fl_ins F)" using assms by (cases "fl_ins F") (auto simp: retiring_def)
  have i0: "fl_ins F ! 0 = i" by (subst ins) simp
  have len: "0 < length (fl_ins F)" using assms by (simp add: retiring_def)
  show "op_at F 0 = in_op i" using i0 by simp
  show "wf_instr i" using flight_okD(3) [OF fo len] i0 by simp
  have e0: "fl_rob F ! 0 = e" using assms by (simp add: retiring_def)
  then show st: "state_at F 0 = ROB_DONE" using assms by (simp add: retiring_def)
  have "rob_key e = instr_key i" using flight_okD(4) [OF fo len] e0 i0 by simp
  then show "r_op e = in_op i" "r_rd e = in_rd i" "r_rd_fp e = in_rd_fp i" "r_pc e = in_pc i"
    by (simp_all add: rob_key_def instr_key_def)
  show "safe F 1 \<Longrightarrow> \<not> is_store (in_op i) \<Longrightarrow> r_result e = isa_result (fl_fe F) i (fl_arch F)"
    using flight_okD(7) [OF fo len st] e0 i0 by (simp add: result_ok_def)
  show "safe F 1 \<Longrightarrow> s_rf s = ar_rf (fl_arch F) \<and> s_mem s = ar_mem (fl_arch F) \<and> ar_pc (fl_arch F) = base"
    using assms by (simp add: retiring_def machine_ok_def safe_def)
qed

text \<open>The form of \<open>machine_ok_shift\<close> the four cases use.\<close>

lemma retire_shift:
  assumes r: "retiring F P base s i e b'" and "s_rs s' = s_rs s" and "s_rob s' = b'"
    and "rat_ok (fl_shift F) (s_rat s')" and "regfile_wf (s_rf s')"
    and "safe F 1 \<Longrightarrow> s_rf s' = ar_rf (isa_exec (fl_fe F) i (fl_arch F)) \<and>
           s_mem s' = ar_mem (isa_exec (fl_fe F) i (fl_arch F))"
    and "lsb_wf (s_lsb s')" and "lsb_ok (fl_shift F) (lsb_list (s_lsb s'))"
    and "if control (in_op i) then \<not> s_branch_in_flight s' \<and> s_iq s' = iq_seek (r_result e) (s_iq s)
         else s_branch_in_flight s' = s_branch_in_flight s \<and> s_iq s' = s_iq s"
  shows "machine_ok (fl_shift F) P (if control (in_op i) then unat (drop_bit 2 (r_result e)) else Suc base) s'"
proof -
  note D = retiringD [OF r]
  have m: "machine_ok F P base s" "fl_bus F = []" "fl_ins F \<noteq> []" "hd (fl_ins F) = i"
    "fl_rob F = e # rob_list b'" "rob_wf b'" "rob_tag_of b' = (\<lambda>k. fl_tag F (Suc k))"
    using r by (simp_all add: retiring_def)
  have iq: "iq_wf (s_iq s)" "iq_program (s_iq s) = P" using m(1) by (simp_all add: machine_ok_def)
  have nst: "control (in_op i) \<Longrightarrow> \<not> is_store (in_op i)" using control_not_mem by (auto simp: control_def)
  let ?base = "if control (in_op i) then unat (drop_bit 2 (r_result e)) else Suc base"
  have pc: "safe F 1 \<Longrightarrow> ?base = ar_pc (isa_exec (fl_fe F) i (fl_arch F))"
    using D(10,11) nst by (auto simp: isa_exec_pc)
  have iq': "iq_program (s_iq s') = P" "iq_wf (s_iq s')"
    using assms(9) iq iq_seek_window [OF iq(1), of "r_result e"] by (auto split: if_splits)
  show ?thesis
    using assms iq' pc m D(4,9) iq_seek_window [OF iq(1), of "r_result e"]
    by (intro machine_ok_shift [OF m(1-3) D(4)]) auto
qed

lemma retire_lsb:
  assumes "retiring F P base s i e b'" and "\<not> is_store (in_op i)"
  shows "lsb_wf (s_lsb s) \<and> lsb_ok (fl_shift F) (lsb_list (s_lsb s))"
proof -
  note D = retiringD [OF assms(1)]
  have m: "fl_bus F = []" "fl_ins F \<noteq> []" "lsb_wf (s_lsb s)" "lsb_ok F (lsb_list (s_lsb s))"
    using assms(1) by (simp_all add: retiring_def machine_ok_def)
  show ?thesis using lsb_ok_shift [OF D(1) m(1) D(4) m(2,4)] D(9) assms(2) m(3) by simp
qed

text \<open>The renaming table and the register file of an instruction that writes \<open>v\<close>.\<close>

lemma retire_rat:
  assumes "retiring F P base s i e b'" and "0 \<le> in_rd i"
  obtains t' where "rat_commit (in_rd i) (in_rd_fp i) (fl_tag F 0) (s_rat s) = Inr t'"
    and "rat_ok (fl_shift F) t'"
proof -
  have "rat_ok F (s_rat s)" using assms(1) by (simp add: retiring_def machine_ok_def)
  from rat_ok_shift [OF retiringD(1) [OF assms(1)] this retiringD(3) [OF assms(1)] assms(2)] that
  show thesis by blast
qed

lemma retire_rat_none:
  assumes "retiring F P base s i e b'" and "in_rd i < 0"
  shows "rat_ok (fl_shift F) (s_rat s)"
proof -
  have "rat_ok F (s_rat s)" using assms(1) by (simp add: retiring_def machine_ok_def)
  then show ?thesis by (rule rat_ok_shift_unwritten [OF _ retiringD(3) [OF assms(1)] assms(2)])
qed

abbreviation retire_args :: "sim \<Rightarrow> rob_entry \<Rightarrow> rob \<Rightarrow> commit_state" where
  "retire_args s e b' \<equiv> (commit_args s)\<lparr>cs_rob := b', cs_last := record_of e\<rparr>"

definition commit_redirect :: "commit_state \<Rightarrow> sim \<Rightarrow> sim" where
  "commit_redirect c s = (let s1 = commit_results c s in
     if is_branch (cr_op (s_last s1)) \<or> is_jump (cr_op (s_last s1))
     then s1\<lparr>s_branch_in_flight := False, s_iq := iq_seek (cs_next_pc c) (s_iq s1)\<rparr> else s1)"

text \<open>A commit that returns and keeps the invariant.\<close>

definition retires :: "flight \<Rightarrow> instruction list \<Rightarrow> sim \<Rightarrow> rob_entry \<Rightarrow> rob \<Rightarrow> bool" where
  "retires F P s e b' \<longleftrightarrow> (\<exists>c' base'. cu_retire (fl_tag F 0) e (retire_args s e b') = Inr (True, c') \<and>
     s_halted (commit_redirect c' s) = s_halted s \<and> machine_ok (fl_shift F) P base' (commit_redirect c' s))"

lemmas retire_defs = commit_redirect_def commit_results_def commit_args_def record_of_def Let_def

lemma retire_branch:
  assumes r: "retiring F P base s i e b'" and br: "is_branch (in_op i)"
  shows "retires F P s e b'"
proof -
  note D = retiringD [OF r]
  have op: "\<not> is_store (in_op i)" "\<not> is_jump (in_op i)" "in_op i \<noteq> Op_HALT"
    using br by (auto simp: class_defs)
  have rd: "in_rd i < 0" using D(2) br by (simp add: wf_instr_def)
  let ?c = "(retire_args s e b')\<lparr>cs_next_pc := r_result e\<rparr>"
  have ret: "cu_retire (fl_tag F 0) e (retire_args s e b') = Inr (True, ?c)"
    using D(5) br op by (simp add: cu_retire_def)
  have rf: "regfile_wf (s_rf s)" using r by (simp add: retiring_def machine_ok_def)
  have isa: "ar_rf (isa_exec (fl_fe F) i (fl_arch F)) = ar_rf (fl_arch F)"
      "ar_mem (isa_exec (fl_fe F) i (fl_arch F)) = ar_mem (fl_arch F)"
    using br by (simp_all add: isa_exec_def Let_def)
  have "machine_ok (fl_shift F) P (if control (in_op i) then unat (drop_bit 2 (r_result e)) else Suc base)
      (commit_redirect ?c s)"
    using retire_rat_none [OF r rd] retire_lsb [OF r op(1)] rf isa D(5,11) br
    by (intro retire_shift [OF r]) (auto simp: retire_defs control_def)
  then show ?thesis using ret by (auto simp: retires_def retire_defs)
qed

lemma retire_jump:
  assumes r: "retiring F P base s i e b'" and jp: "is_jump (in_op i)"
  shows "retires F P s e b'"
proof -
  note D = retiringD [OF r]
  have op: "\<not> is_store (in_op i)" "\<not> is_branch (in_op i)" "in_op i \<noteq> Op_HALT"
    using jp by (auto simp: class_defs)
  have fp: "\<not> in_rd_fp i" and rd: "in_rd i < 32" using D(2) jp by (simp_all add: wf_instr_def)
  have rf: "regfile_wf (s_rf s)" using r by (simp add: retiring_def machine_ok_def)
  define rf' where "rf' = write_reg (in_rd i) False (in_pc i + 4) (s_rf s)"
  obtain t' where t': "rat_ok (fl_shift F) t'"
    and ret: "cu_retire (fl_tag F 0) e (retire_args s e b') = Inr (True, (retire_args s e b')
      \<lparr>cs_next_pc := r_result e, cs_rf := rf', cs_rat := t'\<rparr>)"
  proof (cases "0 \<le> in_rd i")
    case True
    obtain t' where "rat_commit (in_rd i) (in_rd_fp i) (fl_tag F 0) (s_rat s) = Inr t'" "rat_ok (fl_shift F) t'"
      using retire_rat [OF r True] .
    then show thesis
      using that [of t'] D(5,6,8) jp op fp write_int_reg [OF True rd] True
      by (simp add: cu_retire_def Let_def rf'_def commit_args_def)
  next
    case False
    then show thesis
      using that [of "s_rat s"] D(5,6) jp op retire_rat_none [OF r]
      by (simp add: cu_retire_def Let_def rf'_def write_reg_def commit_args_def)
  qed
  have isa: "ar_rf (isa_exec (fl_fe F) i (fl_arch F)) = write_reg (in_rd i) False (in_pc i + 4) (ar_rf (fl_arch F))"
      "ar_mem (isa_exec (fl_fe F) i (fl_arch F)) = ar_mem (fl_arch F)"
    using jp op fp by (simp_all add: isa_exec_def Let_def)
  have "machine_ok (fl_shift F) P (if control (in_op i) then unat (drop_bit 2 (r_result e)) else Suc base)
      (commit_redirect ((retire_args s e b')\<lparr>cs_next_pc := r_result e, cs_rf := rf', cs_rat := t'\<rparr>) s)"
    using t' retire_lsb [OF r op(1)] regfile_wf_write_reg [OF rf] isa D(5,11) jp
    by (intro retire_shift [OF r]) (auto simp: retire_defs control_def rf'_def)
  then show ?thesis using ret by (auto simp: retires_def retire_defs)
qed

lemma retire_store:
  assumes r: "retiring F P base s i e b'" and sw: "is_store (in_op i)"
  shows "retires F P s e b'"
proof -
  note D = retiringD [OF r]
  have op: "\<not> control (in_op i)" "\<not> is_branch (in_op i)" "\<not> is_jump (in_op i)" "in_op i \<noteq> Op_HALT"
    using sw by (auto simp: class_defs control_def)
  have rd: "in_rd i < 0" using D(2) sw by (simp add: wf_instr_def)
  have m: "fl_bus F = []" "fl_ins F \<noteq> []" "lsb_wf (s_lsb s)" "lsb_ok F (lsb_list (s_lsb s))" "regfile_wf (s_rf s)"
    using r by (simp_all add: retiring_def machine_ok_def)
  obtain l L where l: "lsb_list (s_lsb s) = l # L" "l_state l = LSB_DONE" "is_store (l_op l)"
      "lsb_entry_ok F 0 l" "lsb_ok (fl_shift F) L"
    using lsb_ok_shift [OF D(1) m(1) D(4) m(2,4)] D(9) sw by auto
  let ?mem = "mem_write (s_mem s) (l_eff_addr l) (l_vk l)" and ?q = "lsb_drop_head (s_lsb s)"
  let ?c = "(retire_args s e b')\<lparr>cs_mem := ?mem, cs_lsb := ?q\<rparr>"
  have "lsb_can_commit_store (s_lsb s)" using l m(3) by (simp add: lsb_can_commit_store_iff)
  then have ret: "cu_retire (fl_tag F 0) e (retire_args s e b') = Inr (True, ?c)"
    using D(5) sw op lsb_commit_store_head [OF m(3) l(1-3), of "s_mem s"]
    by (simp add: cu_retire_def commit_args_def)
  have i0: "fl_ins F ! 0 = i" using D(3) by (metis nth_Cons_0)
  have isa: "safe F 1 \<Longrightarrow> ar_rf (isa_exec (fl_fe F) i (fl_arch F)) = s_rf s \<and>
      ar_mem (isa_exec (fl_fe F) i (fl_arch F)) = ?mem"
  proof -
    assume s1: "safe F 1"
    then have "safe F 0" by (rule safe_mono) simp
    then have "l_eff_addr l = isa_addr i (fl_arch F)" "l_vk l = src2 i (fl_arch F)"
      using l(2,4) i0 sw by (simp_all add: lsb_entry_ok_def)
    then show "ar_rf (isa_exec (fl_fe F) i (fl_arch F)) = s_rf s \<and>
        ar_mem (isa_exec (fl_fe F) i (fl_arch F)) = ?mem"
      using D(11) [OF s1] sw op by (simp add: isa_exec_mem) (simp add: isa_exec_def Let_def)
  qed
  have "machine_ok (fl_shift F) P (if control (in_op i) then unat (drop_bit 2 (r_result e)) else Suc base)
      (commit_redirect ?c s)"
    using retire_rat_none [OF r rd] l(5) lsb_drop_head_props [OF m(3) l(1)] m(5) isa D(5) op
    by (intro retire_shift [OF r]) (auto simp: retire_defs)
  then show ?thesis using ret D(5) op by (auto simp: retires_def retire_defs)
qed

lemma retire_other:
  assumes r: "retiring F P base s i e b'" and "\<not> is_store (in_op i)" and "\<not> control (in_op i)"
    and "in_op i \<noteq> Op_HALT"
  shows "retires F P s e b'"
proof -
  note D = retiringD [OF r]
  have op: "\<not> is_branch (in_op i)" "\<not> is_jump (in_op i)" using assms(3) by (simp_all add: control_def)
  have rd: "in_rd i < 32" using D(2) by (simp add: wf_instr_def)
  have rf: "regfile_wf (s_rf s)" using r by (simp add: retiring_def machine_ok_def)
  define rf' where "rf' = write_reg (in_rd i) (in_rd_fp i) (r_result e) (s_rf s)"
  obtain t' where t': "rat_ok (fl_shift F) t'"
    and ret: "cu_retire (fl_tag F 0) e (retire_args s e b') = Inr (True, (retire_args s e b')
      \<lparr>cs_rf := rf', cs_rat := t'\<rparr>)"
  proof (cases "0 \<le> in_rd i")
    case True
    obtain t' where "rat_commit (in_rd i) (in_rd_fp i) (fl_tag F 0) (s_rat s) = Inr t'" "rat_ok (fl_shift F) t'"
      using retire_rat [OF r True] .
    then show thesis
      using that [of t'] D(5,6,7) assms(2,4) op write_int_reg [OF True rd] write_fp_reg [OF True rd] True
      by (auto simp add: cu_retire_def rf'_def commit_args_def)
  next
    case False
    then show thesis
      using that [of "s_rat s"] D(5,6) assms(2,4) op retire_rat_none [OF r]
      by (simp add: cu_retire_def rf'_def write_reg_def commit_args_def)
  qed
  have isa: "safe F 1 \<Longrightarrow> rf' = ar_rf (isa_exec (fl_fe F) i (fl_arch F)) \<and>
      s_mem s = ar_mem (isa_exec (fl_fe F) i (fl_arch F))"
    using D(10,11) assms(2) isa_exec_rf [OF assms(3,2), of "fl_fe F" "fl_arch F"]
    by (simp add: rf'_def isa_exec_mem)
  have "machine_ok (fl_shift F) P (if control (in_op i) then unat (drop_bit 2 (r_result e)) else Suc base)
      (commit_redirect ((retire_args s e b')\<lparr>cs_rf := rf', cs_rat := t'\<rparr>) s)"
    using t' retire_lsb [OF r assms(2)] regfile_wf_write_reg [OF rf] isa D(5) op assms(3)
    by (intro retire_shift [OF r]) (auto simp: retire_defs rf'_def)
  then show ?thesis using ret by (auto simp: retires_def retire_defs)
qed

text \<open>The whole phase: nothing retires, or the oldest instruction does, or it is \<open>HALT\<close> and the
  machine stops with the committed state untouched.\<close>

lemma machine_ok_commit:
  assumes "machine_ok F P base s" and "fl_bus F = []" and "\<not> s_halted s"
  shows "returns (phase_commit s) (\<lambda>s'.
     (\<not> rob_head_ready (s_rob s) \<and> s' = s\<lparr>s_last := empty_commit_record\<rparr> \<and> machine_ok F P base s') \<or>
     (fl_ins F \<noteq> [] \<and> op_at F 0 \<noteq> Op_HALT \<and> \<not> s_halted s' \<and> (\<exists>base'. machine_ok (fl_shift F) P base' s')) \<or>
     (fl_ins F \<noteq> [] \<and> op_at F 0 = Op_HALT \<and> s_halted s' \<and> s_rf s' = s_rf s \<and> s_mem s' = s_mem s))"
proof (cases "rob_head_ready (s_rob s)")
  case False
  then have "phase_commit s = Inr (s\<lparr>s_last := empty_commit_record\<rparr>)"
    using cu_tick_idle [of "commit_args s"] by (cases s) (simp add: phase_commit_def commit_args_def commit_results_def)
  then show ?thesis using assms False by (simp add: machine_ok_def)
next
  case True
  have m: "rob_wf (s_rob s)" "fl_rob F = rob_list (s_rob s)" "fl_tag F = rob_tag_of (s_rob s)" "flight_ok F"
    using assms(1) by (simp_all add: machine_ok_def)
  obtain e es where e: "rob_list (s_rob s) = e # es" "r_state e = ROB_DONE"
    using True rob_head_ready_iff [OF m(1)] by auto
  obtain b' where tick: "cu_tick (commit_args s) = cu_retire (fl_tag F 0) e (retire_args s e b')"
    and b': "rob_wf b'" "rob_list b' = es" "rob_tag_of b' = (\<lambda>k. fl_tag F (Suc k))"
    using cu_tick_head [of "commit_args s" e es] m e by (auto simp: commit_args_def)
  obtain i "is" where ins: "fl_ins F = i # is"
    using flight_okD(2) [OF m(4)] m(2) e(1) by (cases "fl_ins F") auto
  have r: "retiring F P base s i e b'"
    using assms ins m e b' by (simp add: retiring_def)
  note D = retiringD [OF r]
  show ?thesis
  proof (cases "in_op i = Op_HALT")
    case halt: True
    have "cu_tick (commit_args s) = Inr (True, (retire_args s e b')\<lparr>cs_halted := True\<rparr>)"
      using tick D(5) halt by (simp add: cu_retire_def)
    then show ?thesis
      using halt ins D(5) by (simp add: phase_commit_def retire_defs class_defs)
  next
    case False
    then have "retires F P s e b'"
      using retire_branch [OF r] retire_jump [OF r] retire_store [OF r] retire_other [OF r]
      by (auto simp: control_def)
    then obtain c' base' where c': "cu_tick (commit_args s) = Inr (True, c')"
        "s_halted (commit_redirect c' s) = s_halted s" "machine_ok (fl_shift F) P base' (commit_redirect c' s)"
      using tick by (auto simp: retires_def)
    have "phase_commit s = Inr (commit_redirect c' s)"
      using c'(1) by (simp add: phase_commit_def commit_redirect_def Let_def)
    then show ?thesis using c' ins False assms(3) by auto
  qed
qed

section \<open>Phase 6: dispatch\<close>

lemma machine_ok_push:
  assumes m: "machine_ok F P base s" and nb: "\<not> s_branch_in_flight s"
    and "base + length (fl_ins F) < length P" and "i = P ! (base + length (fl_ins F))" and "wf_instr i"
    and inj: "inj_on (fl_tag F) {..<Suc (length (fl_ins F))}"
    and "rob_wf (s_rob s')" and "rob_list (s_rob s') = fl_rob F @ [fresh_rob_entry i]"
    and "rob_tag_of (s_rob s') = fl_tag F" and "rat_ok (fl_push i F) (s_rat s')"
    and "s_rf s' = s_rf s" and "s_mem s' = s_mem s" and "\<And>u. station_ok (fl_push i F) u (s_rs s' u)"
    and "lsb_wf (s_lsb s')" and "lsb_ok (fl_push i F) (lsb_list (s_lsb s'))"
    and "iq_wf (s_iq s')" and "iq_program (s_iq s') = P"
    and "if control (in_op i) then s_branch_in_flight s'
         else \<not> s_branch_in_flight s' \<and> iq_window (s_iq s') (Suc (base + length (fl_ins F)))"
  shows "machine_ok (fl_push i F) P base s'"
proof -
  let ?n = "length (fl_ins F)"
  have fo: "flight_ok F" and nc: "\<forall>k < ?n. \<not> control (op_at F k)"
    using m nb by (simp_all add: machine_ok_def)
  have fp: "flight_ok (fl_push i F)" by (rule flight_ok_push [OF fo assms(5) nc inj])
  have "fl_ins F = map ((!) P) [base..<base + ?n]" using m by (simp add: machine_ok_def)
  then have "fl_ins F @ [i] = map ((!) P) [base..<base + length (fl_ins F @ [i])]" using assms(4) by simp
  moreover have "if s_branch_in_flight s' then fl_ins F @ [i] \<noteq> [] \<and> control (in_op (last (fl_ins F @ [i])))
      else (\<forall>k < length (fl_ins F @ [i]). \<not> control (in_op ((fl_ins F @ [i]) ! k))) \<and>
        iq_window (s_iq s') (base + length (fl_ins F @ [i]))"
    using assms(18) nc by (auto simp: nth_append less_Suc_eq split: if_splits)
  moreover have "base + length (fl_ins F @ [i]) \<le> length P" using assms(3) by simp
  moreover have "regfile_wf (s_rf s)" "\<forall>i \<in> set P. wf_instr i"
    "fl_good F \<longrightarrow> s_rf s = ar_rf (fl_arch F) \<and> s_mem s = ar_mem (fl_arch F) \<and> ar_pc (fl_arch F) = base"
    using m by (simp_all add: machine_ok_def)
  ultimately show ?thesis
    unfolding machine_ok_def fl_push_fields
    using fp assms(7-17) by (auto simp only: fl_push_fields)
qed

text \<open>Dispatching one instruction: a structural hazard leaves the state alone; otherwise the next
  instruction of the program enters the flight. A branch or jump closes the fetch window.\<close>

definition redirect_fetch :: "bool \<Rightarrow> u32 \<Rightarrow> sim \<Rightarrow> sim" where
  "redirect_fetch br a s = (if br then s\<lparr>s_branch_in_flight := True, s_iq := iq_seek a (s_iq s)\<rparr> else s)"

lemma alloc_props:
  assumes "machine_ok F P base s" and "\<not> rob_full (s_rob s)"
  obtains b' where "rob_allocate i (s_rob s) = (fl_tag F (length (fl_ins F)), b')" and "rob_wf b'"
    and "rob_list b' = fl_rob F @ [fresh_rob_entry i]" and "rob_tag_of b' = fl_tag F"
    and "inj_on (fl_tag F) {..<Suc (length (fl_ins F))}"
proof -
  have m: "rob_wf (s_rob s)" "fl_rob F = rob_list (s_rob s)" "fl_tag F = rob_tag_of (s_rob s)"
    using assms(1) by (simp_all add: machine_ok_def)
  have n: "length (fl_ins F) = rob_count (s_rob s)" by (rule machine_ok_length [OF assms(1)])
  obtain b' where b': "rob_allocate i (s_rob s) = (rob_tag_of (s_rob s) (rob_count (s_rob s)), b')" "rob_wf b'"
      "rob_list b' = rob_list (s_rob s) @ [fresh_rob_entry i]" "rob_size b' = rob_size (s_rob s)"
      "rob_head b' = rob_head (s_rob s)"
    using rob_allocate_not_full [OF m(1) assms(2)] by metis
  have "rob_count (s_rob s) < rob_size (s_rob s)" using assms(2) m(1) by (simp add: rob_full_def rob_wf_def)
  then have "inj_on (fl_tag F) {..<Suc (length (fl_ins F))}"
    using rob_tag_of_inject [OF m(1)] n m(3) by (auto simp: inj_on_def)
  moreover have "rob_tag_of b' = fl_tag F" using b'(4,5) m(3) by (auto simp: rob_tag_of_def)
  ultimately show thesis using that b' m n by auto
qed

lemma dispatch_station:
  assumes m: "machine_ok F P base s" and nb: "\<not> s_branch_in_flight s"
    and b: "rob_allocate i (s_rob s) = (fl_tag F (length (fl_ins F)), b')" "rob_wf b'"
      "rob_list b' = fl_rob F @ [fresh_rob_entry i]" "rob_tag_of b' = fl_tag F"
      "inj_on (fl_tag F) {..<Suc (length (fl_ins F))}"
    and i: "base + length (fl_ins F) < length P" "i = P ! (base + length (fl_ins F))" "wf_instr i"
    and q: "iq_wf q'" "iq_window q' (Suc (base + length (fl_ins F)))" "iq_program q' = P"
    and u: "target_unit (in_op i) = Some u" "\<not> rs_full (s_rs s u)"
  shows "\<exists>st' t'. rs_issue i (fl_tag F (length (fl_ins F))) (s_rat s) (s_rf s) b' (s_rs s u) = Inr (True, st') \<and>
     map_destination i (fl_tag F (length (fl_ins F))) (s_rat s) = Inr t' \<and>
     machine_ok (fl_push i F) P base (redirect_fetch (control (in_op i)) a
       (s\<lparr>s_rob := b', s_rs := (s_rs s)(u := st'), s_rat := t', s_iq := q'\<rparr>))"
proof -
  have fo: "flight_ok F" and nc: "\<forall>k < length (fl_ins F). \<not> control (op_at F k)" and ro: "rat_ok F (s_rat s)"
    and so: "\<And>u. station_ok F u (s_rs s u)" and rf: "fl_good F \<longrightarrow> s_rf s = ar_rf (fl_arch F)"
    and lw: "lsb_wf (s_lsb s)" and lo: "lsb_ok F (lsb_list (s_lsb s))"
    using m nb by (simp_all add: machine_ok_def)
  obtain st' where st': "rs_issue i (fl_tag F (length (fl_ins F))) (s_rat s) (s_rf s) b' (s_rs s u) = Inr (True, st')"
      "station_ok (fl_push i F) u st'"
    using station_ok_issue [OF fo so u(2,1) i(3) nc ro b(2-4) rf b(5)] .
  obtain t' where t': "map_destination i (fl_tag F (length (fl_ins F))) (s_rat s) = Inr t'"
      "rat_ok (fl_push i F) t'"
    using rat_ok_push [OF ro i(3)] .
  have sts: "station_ok (fl_push i F) v (((s_rs s)(u := st')) v)" for v
    using st'(2) station_ok_push_other [OF fo so, of i v] u(1) by auto
  have nm: "\<not> is_load (in_op i)" "\<not> is_store (in_op i)" using u(1) by (auto simp: target_unit_def split: if_splits)
  have "machine_ok (fl_push i F) P base (redirect_fetch (control (in_op i)) a
       (s\<lparr>s_rob := b', s_rs := (s_rs s)(u := st'), s_rat := t', s_iq := q'\<rparr>))"
    using b t'(2) sts lw lsb_ok_push_other [OF fo lo nm] q iq_seek_window [OF q(1), of a] nb
    by (intro machine_ok_push [OF m nb i b(5)]) (auto simp: redirect_fetch_def)
  then show ?thesis using st'(1) t'(1) by blast
qed

lemma dispatch_memory:
  assumes m: "machine_ok F P base s" and nb: "\<not> s_branch_in_flight s"
    and b: "rob_allocate i (s_rob s) = (fl_tag F (length (fl_ins F)), b')" "rob_wf b'"
      "rob_list b' = fl_rob F @ [fresh_rob_entry i]" "rob_tag_of b' = fl_tag F"
      "inj_on (fl_tag F) {..<Suc (length (fl_ins F))}"
    and i: "base + length (fl_ins F) < length P" "i = P ! (base + length (fl_ins F))" "wf_instr i"
    and q: "iq_wf q'" "iq_window q' (Suc (base + length (fl_ins F)))" "iq_program q' = P"
    and u: "target_unit (in_op i) = None" "\<not> lsb_full (s_lsb s)"
  shows "\<exists>l' t'. lsb_issue i (fl_tag F (length (fl_ins F))) (s_rat s) (s_rf s) b' (s_lsb s) = Inr (True, l') \<and>
     map_destination i (fl_tag F (length (fl_ins F))) (s_rat s) = Inr t' \<and>
     machine_ok (fl_push i F) P base (redirect_fetch (control (in_op i)) a
       (s\<lparr>s_rob := b', s_lsb := l', s_rat := t', s_iq := q'\<rparr>))"
proof -
  have fo: "flight_ok F" and nc: "\<forall>k < length (fl_ins F). \<not> control (op_at F k)" and ro: "rat_ok F (s_rat s)"
    and so: "\<And>u. station_ok F u (s_rs s u)" and rf: "fl_good F \<longrightarrow> s_rf s = ar_rf (fl_arch F)"
    and lw: "lsb_wf (s_lsb s)" and lo: "lsb_ok F (lsb_list (s_lsb s))"
    using m nb by (simp_all add: machine_ok_def)
  have mem: "is_load (in_op i) \<or> is_store (in_op i)"
    using u(1) by (auto simp: target_unit_def split: if_splits opcode.splits)
  obtain l' where l': "lsb_issue i (fl_tag F (length (fl_ins F))) (s_rat s) (s_rf s) b' (s_lsb s) = Inr (True, l')"
      "lsb_wf l'" "lsb_ok (fl_push i F) (lsb_list l')"
    using lsb_ok_issue [OF fo lw lo u(2) mem i(3) nc ro b(2-4) rf] .
  obtain t' where t': "map_destination i (fl_tag F (length (fl_ins F))) (s_rat s) = Inr t'"
      "rat_ok (fl_push i F) t'"
    using rat_ok_push [OF ro i(3)] .
  have sts: "station_ok (fl_push i F) v (s_rs s v)" for v
    using station_ok_push_other [OF fo so, of i v] u(1) by simp
  have "machine_ok (fl_push i F) P base (redirect_fetch (control (in_op i)) a
       (s\<lparr>s_rob := b', s_lsb := l', s_rat := t', s_iq := q'\<rparr>))"
    using b t'(2) sts l'(2,3) q iq_seek_window [OF q(1), of a] nb
    by (intro machine_ok_push [OF m nb i b(5)]) (auto simp: redirect_fetch_def)
  then show ?thesis using l'(1) t'(1) by blast
qed

lemma machine_ok_try_dispatch:
  assumes m: "machine_ok F P base s" and nb: "\<not> s_branch_in_flight s"
  shows "returns (try_dispatch s) (\<lambda>(issued, br, s1). if issued
     then (\<exists>i. machine_ok (fl_push i F) P base (redirect_fetch br a s1)) \<and> s_halted s1 = s_halted s \<and>
       s_branch_in_flight s1 = s_branch_in_flight s
     else s1 = s)"
proof (cases "iq_can_dispatch (s_iq s)")
  case False
  then show ?thesis by (simp add: try_dispatch_def)
next
  case True
  let ?n = "base + length (fl_ins F)"
  have iq: "iq_wf (s_iq s)" "iq_window (s_iq s) ?n" "iq_program (s_iq s) = P" and wf: "\<forall>i \<in> set P. wf_instr i"
    using m nb by (simp_all add: machine_ok_def)
  obtain i q' where i: "?n < length P" "i = P ! ?n" "wf_instr i" and pk: "iq_peek (s_iq s) = Inr i"
    and q': "iq_dispatch (s_iq s) = Inr (i, q')" "iq_wf q'" "iq_window q' (Suc ?n)" "iq_program q' = P"
    using iq_dispatch_window [OF iq(1,2) True] iq(3) wf by auto
  show ?thesis
  proof (cases "rob_full (s_rob s)")
    case True
    then show ?thesis
      using \<open>iq_can_dispatch (s_iq s)\<close> pk by (simp add: try_dispatch_def Let_def split: option.splits)
  next
    case False
    obtain b' where b: "rob_allocate i (s_rob s) = (fl_tag F (length (fl_ins F)), b')" "rob_wf b'"
        "rob_list b' = fl_rob F @ [fresh_rob_entry i]" "rob_tag_of b' = fl_tag F"
        "inj_on (fl_tag F) {..<Suc (length (fl_ins F))}"
      using alloc_props [OF m False] .
    have ctl: "(is_branch (in_op i) \<or> is_jump (in_op i)) = control (in_op i)" by (simp add: control_def)
    show ?thesis
    proof (cases "target_unit (in_op i)")
      case None
      show ?thesis
      proof (cases "lsb_full (s_lsb s)")
        case False
        from dispatch_memory [OF m nb b i q'(2-4) None this, of a]
        show ?thesis
          using True \<open>\<not> rob_full (s_rob s)\<close> pk None False b(1) q'(1)
          by (auto simp: try_dispatch_def Let_def ctl)
      qed (use True pk None in \<open>simp add: try_dispatch_def Let_def\<close>)
    next
      case (Some u)
      show ?thesis
      proof (cases "rs_full (s_rs s u)")
        case False
        from dispatch_station [OF m nb b i q'(2-4) Some this, of a]
        show ?thesis
          using True \<open>\<not> rob_full (s_rob s)\<close> pk Some False b(1) q'(1)
          by (auto simp: try_dispatch_def Let_def ctl)
      qed (use True pk Some in \<open>simp add: try_dispatch_def Let_def\<close>)
    qed
  qed
qed

definition grown :: "flight \<Rightarrow> flight \<Rightarrow> bool" where
  "grown F F' \<longleftrightarrow> fl_fe F' = fl_fe F \<and> fl_good F' = fl_good F \<and> fl_arch F' = fl_arch F \<and> fl_bus F' = fl_bus F"

lemma machine_ok_dispatch_loop:
  assumes "machine_ok F P base s" and "\<not> s_branch_in_flight s"
  shows "returns (dispatch_loop w s) (\<lambda>s'. \<exists>F'. grown F F' \<and> machine_ok F' P base s' \<and> s_halted s' = s_halted s)"
  using assms
proof (induction w arbitrary: s F)
  case 0
  then show ?case by (auto simp: grown_def intro!: exI [of _ F])
next
  case (Suc w)
  have iq: "iq_wf (s_iq s)" "iq_window (s_iq s) (base + length (fl_ins F))"
    using Suc.prems by (simp_all add: machine_ok_def)
  obtain a where a: "(if iq_can_dispatch (s_iq s) then res_bind (iq_peek (s_iq s)) (\<lambda>i. Inr (in_pc i)) else Inr 0) = Inr a"
    using iq_dispatch_window [OF iq] by (cases "iq_can_dispatch (s_iq s)") auto
  obtain issued br s1 where td: "try_dispatch s = Inr (issued, br, s1)"
    and res: "if issued then (\<exists>i. machine_ok (fl_push i F) P base (redirect_fetch br (a + 4) s1)) \<and>
        s_halted s1 = s_halted s \<and> s_branch_in_flight s1 = s_branch_in_flight s else s1 = s"
    using machine_ok_try_dispatch [OF Suc.prems, of "a + 4"] by (elim returnsE) auto
  show ?case
  proof (cases issued)
    case False
    then show ?thesis using Suc.prems a td res by (auto simp: grown_def intro!: exI [of _ F])
  next
    case True
    then obtain i where i: "machine_ok (fl_push i F) P base (redirect_fetch br (a + 4) s1)"
        "s_halted s1 = s_halted s" "s_branch_in_flight s1 = s_branch_in_flight s" using res by auto
    have g: "grown F (fl_push i F)" by (simp add: grown_def)
    show ?thesis
    proof (cases br)
      case br: True
      then show ?thesis using True a td i g by (auto simp: redirect_fetch_def)
    next
      case False
      have "returns (dispatch_loop w s1) (\<lambda>s'. \<exists>F'. grown (fl_push i F) F' \<and> machine_ok F' P base s' \<and>
          s_halted s' = s_halted s1)"
        using Suc.IH [of "fl_push i F" s1] i False Suc.prems(2) by (simp add: redirect_fetch_def)
      then have "returns (dispatch_loop w s1) (\<lambda>s'. \<exists>F'. grown F F' \<and> machine_ok F' P base s' \<and>
          s_halted s' = s_halted s)"
        using i(2) by (elim returnsE) (auto simp: grown_def)
      then show ?thesis using True False a td by simp
    qed
  qed
qed

lemma machine_ok_dispatch:
  assumes "machine_ok F P base s"
  shows "returns (phase_dispatch s) (\<lambda>s'. \<exists>F'. grown F F' \<and> machine_ok F' P base s' \<and> s_halted s' = s_halted s)"
proof (cases "\<not> s_branch_in_flight s \<and> \<not> s_halted s")
  case False
  then show ?thesis using assms by (auto simp: phase_dispatch_def grown_def intro!: exI [of _ F])
next
  case True
  have iq: "iq_wf (s_iq s)" "iq_window (s_iq s) (base + length (fl_ins F))"
    using assms True by (simp_all add: machine_ok_def)
  have "machine_ok F P base (s\<lparr>s_iq := iq_tick (s_iq s)\<rparr>)"
    using assms True iq_tick_window [OF iq] by (simp add: machine_ok_def)
  then show ?thesis
    using machine_ok_dispatch_loop [of F P base "s\<lparr>s_iq := iq_tick (s_iq s)\<rparr>" IQ_FETCH_WIDTH] True
    by (simp add: phase_dispatch_def)
qed

section \<open>A clock cycle\<close>

definition cycle_ok :: "flight \<Rightarrow> instruction list \<Rightarrow> nat \<Rightarrow> sim \<Rightarrow> bool" where
  "cycle_ok F P base s \<longleftrightarrow> machine_ok F P base s \<and> fl_bus F = [] \<and> cdb_pending (s_cdb s) = [] \<and> \<not> s_halted s"

text \<open>The committed state takes one step of the sequential machine, or none.\<close>

definition isa_step :: "instruction list \<Rightarrow> nat \<Rightarrow> flight \<Rightarrow> flight \<Rightarrow> bool" where
  "isa_step P base F F' \<longleftrightarrow> base < length P \<and> in_op (P ! base) \<noteq> Op_HALT \<and>
     fl_arch F' = isa_exec (fl_fe F) (P ! base) (fl_arch F) \<and>
     fl_good F' = (fl_good F \<and> good_access (P ! base) (fl_arch F))"

definition isa_idle :: "flight \<Rightarrow> flight \<Rightarrow> bool" where
  "isa_idle F F' \<longleftrightarrow> fl_arch F' = fl_arch F \<and> fl_good F' = fl_good F"

definition isa_advance :: "instruction list \<Rightarrow> nat \<Rightarrow> flight \<Rightarrow> flight \<Rightarrow> bool" where
  "isa_advance P base F F' \<longleftrightarrow> fl_fe F' = fl_fe F \<and> (isa_idle F F' \<or> isa_step P base F F')"

lemmas isa_advance_defs = isa_advance_def isa_idle_def isa_step_def

lemma isa_advance_refl: "isa_advance P base F F"
  by (simp add: isa_advance_defs)

definition halts_with :: "instruction list \<Rightarrow> nat \<Rightarrow> flight \<Rightarrow> sim \<Rightarrow> bool" where
  "halts_with P base F s \<longleftrightarrow> base < length P \<and> in_op (P ! base) = Op_HALT \<and>
     (fl_good F \<longrightarrow> s_rf s = ar_rf (fl_arch F) \<and> s_mem s = ar_mem (fl_arch F))"

lemma phases_123:
  assumes "cycle_ok F P base s"
  shows "returns (res_bind (phase_stores (phase_execute (fl_fe F) s)) phase_broadcast)
     (\<lambda>s3. \<exists>F'. same_code F F' \<and> machine_ok F' P base s3 \<and> bus_pending F' s3 \<and> \<not> s_halted s3)"
proof -
  let ?s1 = "phase_execute (fl_fe F) s"
  have 1: "machine_ok F P base ?s1" "\<not> s_halted ?s1" "s_cdb ?s1 = s_cdb s"
    using assms machine_ok_execute by (auto simp: cycle_ok_def phase_execute_def)
  show ?thesis
  proof (rule returns_bindI [OF machine_ok_stores [OF 1(1)]])
    fix s2
    assume "\<exists>F'. same_code F F' \<and> fl_bus F' = fl_bus F \<and> machine_ok F' P base s2 \<and>
      s_halted s2 = s_halted ?s1 \<and> s_cdb s2 = s_cdb ?s1"
    then obtain F' where F': "same_code F F'" "fl_bus F' = fl_bus F" "machine_ok F' P base s2"
      "s_halted s2 = s_halted ?s1" "s_cdb s2 = s_cdb ?s1" by blast
    then have "bus_pending F' s2" using assms 1(3) by (simp add: bus_pending_def cycle_ok_def cdb_results_def)
    from machine_ok_broadcast [OF F'(3) this] same_code_trans [OF F'(1)] F'(4) 1(2)
    show "returns (phase_broadcast s2)
      (\<lambda>s3. \<exists>F'. same_code F F' \<and> machine_ok F' P base s3 \<and> bus_pending F' s3 \<and> \<not> s_halted s3)"
      by (elim returnsE) fastforce
  qed
qed

lemma commit_advance:
  assumes "machine_ok F P base s" and "fl_ins F \<noteq> []" and "op_at F 0 \<noteq> Op_HALT"
  shows "isa_step P base F (fl_shift F)"
proof -
  have ins: "fl_ins F = map ((!) P) [base..<base + length (fl_ins F)]" and l: "base + length (fl_ins F) \<le> length P"
    using assms(1,2) by (auto simp: machine_ok_def)
  have b: "base < length P" using l assms(2) by (cases "fl_ins F") auto
  have h: "hd (fl_ins F) = P ! base" "fl_ins F ! 0 = P ! base"
    using assms(2) by (subst ins; simp add: hd_map)+
  show ?thesis using b h assms(3) by (simp add: isa_step_def safe_def)
qed

lemma halting_head:
  assumes "machine_ok F P base s" and "fl_ins F \<noteq> []" and "op_at F 0 = Op_HALT"
    and "s_rf s' = s_rf s" and "s_mem s' = s_mem s"
  shows "halts_with P base F s'"
proof -
  have ins: "fl_ins F = map ((!) P) [base..<base + length (fl_ins F)]" and l: "base + length (fl_ins F) \<le> length P"
    using assms(1,2) by (auto simp: machine_ok_def)
  have b: "base < length P" using l assms(2) by (cases "fl_ins F") auto
  have h: "fl_ins F ! 0 = P ! base" using assms(2) by (subst ins) simp
  show ?thesis using b h assms by (simp add: halts_with_def machine_ok_def)
qed

text \<open>A cycle up to its commit phase: nothing commits, or the oldest instruction does, or it is
  \<open>HALT\<close>.\<close>

lemma sim_cycle_phases:
  assumes "cycle_ok F P base s"
  obtains s2 s3 s5 G where "phase_stores (phase_execute (fl_fe F) s) = Inr s2" and "phase_broadcast s2 = Inr s3"
    and "phase_commit (phase_snoop s3) = Inr s5"
    and "sim_cycle (fl_fe F) s = res_bind (phase_dispatch s5) (\<lambda>s6. Inr (phase_end s6))"
    and "same_code F G" and "fl_bus G = []" and "machine_ok G P base (phase_snoop s3)"
    and "(\<not> rob_head_ready (s_rob s3) \<and> s5 = (phase_snoop s3)\<lparr>s_last := empty_commit_record\<rparr> \<and>
            \<not> s_halted s5 \<and> machine_ok G P base s5) \<or>
         (fl_ins F \<noteq> [] \<and> op_at F 0 \<noteq> Op_HALT \<and> \<not> s_halted s5 \<and> (\<exists>base'. machine_ok (fl_shift G) P base' s5)) \<or>
         (s_halted s5 \<and> halts_with P base F s5)"
proof -
  obtain s2 s3 F3 where s: "phase_stores (phase_execute (fl_fe F) s) = Inr s2" "phase_broadcast s2 = Inr s3"
    and F3: "same_code F F3" "machine_ok F3 P base s3" "bus_pending F3 s3" "\<not> s_halted s3"
    using phases_123 [OF assms] by (elim returnsE) auto
  let ?G = "F3\<lparr>fl_bus := []\<rparr>" and ?s4 = "phase_snoop s3"
  have 4: "machine_ok ?G P base ?s4" "fl_bus ?G = []" "\<not> s_halted ?s4" "s_rob ?s4 = s_rob s3"
    using machine_ok_snoop [OF F3(2,3)] F3(4) by (simp_all add: phase_snoop_eq)
  have same: "halts_with P base ?G = halts_with P base F" "fl_ins ?G = fl_ins F" "same_code F ?G"
    using F3(1) by (simp_all add: halts_with_def same_code_def fun_eq_iff)
  obtain s5 where s5: "phase_commit ?s4 = Inr s5" and c:
    "(\<not> rob_head_ready (s_rob s3) \<and> s5 = ?s4\<lparr>s_last := empty_commit_record\<rparr> \<and> machine_ok ?G P base s5) \<or>
     (fl_ins ?G \<noteq> [] \<and> op_at ?G 0 \<noteq> Op_HALT \<and> \<not> s_halted s5 \<and> (\<exists>base'. machine_ok (fl_shift ?G) P base' s5)) \<or>
     (fl_ins ?G \<noteq> [] \<and> op_at ?G 0 = Op_HALT \<and> s_halted s5 \<and> s_rf s5 = s_rf ?s4 \<and> s_mem s5 = s_mem ?s4)"
    using machine_ok_commit [OF 4(1-3)] 4(4) by (elim returnsE) auto
  have cyc: "sim_cycle (fl_fe F) s = res_bind (phase_dispatch s5) (\<lambda>s6. Inr (phase_end s6))"
    by (simp add: sim_cycle_def s s5)
  show thesis
    using c 4(3) halting_head [OF 4(1), of s5] same(1,2)
    by (intro that [OF s s5 cyc same(3) 4(2,1)]) auto
qed

lemma sim_cycle_step:
  assumes "cycle_ok F P base s"
  shows "returns (sim_cycle (fl_fe F) s) (\<lambda>s'. if s_halted s' then halts_with P base F s'
     else \<exists>F' base'. cycle_ok F' P base' s' \<and> isa_advance P base F F')"
proof -
  obtain s2 s3 s5 G where cyc: "sim_cycle (fl_fe F) s = res_bind (phase_dispatch s5) (\<lambda>s6. Inr (phase_end s6))"
    and G: "same_code F G" "fl_bus G = []" "machine_ok G P base (phase_snoop s3)"
    and c: "(\<not> rob_head_ready (s_rob s3) \<and> s5 = (phase_snoop s3)\<lparr>s_last := empty_commit_record\<rparr> \<and>
            \<not> s_halted s5 \<and> machine_ok G P base s5) \<or>
         (fl_ins F \<noteq> [] \<and> op_at F 0 \<noteq> Op_HALT \<and> \<not> s_halted s5 \<and> (\<exists>base'. machine_ok (fl_shift G) P base' s5)) \<or>
         (s_halted s5 \<and> halts_with P base F s5)"
    using sim_cycle_phases [OF assms] .
  have same: "isa_advance P base G H = isa_advance P base F H" "fl_ins G = fl_ins F" for H
    using G(1) by (simp_all add: isa_advance_defs same_code_def)
  have adv: "fl_ins F \<noteq> [] \<Longrightarrow> op_at F 0 \<noteq> Op_HALT \<Longrightarrow> isa_advance P base F (fl_shift G)"
    using commit_advance [OF G(3)] same(2) by (simp only: same(1) [symmetric]) (simp add: isa_advance_def)
  show ?thesis
  proof (cases "s_halted s5")
    case True
    then have "halts_with P base F (phase_end s5)"
      using c by (auto simp: halts_with_def phase_end_def)
    then show ?thesis using True cyc by (simp add: phase_dispatch_def) (simp add: phase_end_def)
  next
    case False
    then obtain H base' where H: "machine_ok H P base' s5" "fl_bus H = []" "isa_advance P base F H"
      using c G(2) adv same(1) [of G] isa_advance_refl [of P base G] by auto
    have "returns (phase_dispatch s5) (\<lambda>s6. \<exists>F'. grown H F' \<and> machine_ok F' P base' s6 \<and> s_halted s6 = s_halted s5)"
      by (rule machine_ok_dispatch [OF H(1)])
    then obtain s6 F' where s6: "phase_dispatch s5 = Inr s6" "grown H F'" "machine_ok F' P base' s6" "\<not> s_halted s6"
      using False by (elim returnsE) auto
    have "cycle_ok F' P base' (phase_end s6)" "isa_advance P base F F'"
      using s6 H by (simp_all add: cycle_ok_def phase_end_def machine_ok_def grown_def cdb_flush_def isa_advance_defs)
    moreover have "\<not> s_halted (phase_end s6)" using s6(4) by (simp add: phase_end_def)
    ultimately show ?thesis using cyc s6(1) by auto
  qed
qed

end
