(* ===== verification/Runs.thy ===== *)
theory Runs
  imports Refinement
begin

text \<open>
  Runs of the simulator: the reachable states of the clock loop, from the state \<open>main\<close> builds for
  a program, and what the invariant of the machine says about them. \<open>program_of\<close> is the program
  with the addresses \<open>load_program\<close> stamps on it, \<open>isa_init\<close> the architectural state it starts in.
\<close>

section \<open>Programs\<close>

definition program_of :: "instruction list \<Rightarrow> instruction list" where
  "program_of prog = map (\<lambda>i. (prog ! i)\<lparr>in_pc := word_of_nat i * 4\<rparr>) [0..<length prog]"

definition wf_program :: "instruction list \<Rightarrow> bool" where
  "wf_program prog \<longleftrightarrow> (\<forall>i \<in> set prog. wf_instr i)"

definition isa_init :: arch where
  "isa_init = \<lparr>ar_rf = init_regfile, ar_mem = replicate MEM_SIZE 0, ar_pc = 0\<rparr>"

text \<open>No access of the sequential machine is misaligned or out of range.\<close>

definition isa_safe :: "fp_env \<Rightarrow> instruction list \<Rightarrow> bool" where
  "isa_safe fe P \<longleftrightarrow> (\<forall>n a. isa_run fe P n isa_init = Some a \<longrightarrow> \<not> isa_stopped P a \<longrightarrow>
     good_access (P ! ar_pc a) a)"

text \<open>A terminating run can be checked by executing it.\<close>

fun isa_check :: "fp_env \<Rightarrow> instruction list \<Rightarrow> nat \<Rightarrow> arch \<Rightarrow> bool" where
  "isa_check fe P 0 a = isa_stopped P a"
| "isa_check fe P (Suc n) a = (isa_stopped P a \<or>
     (good_access (P ! ar_pc a) a \<and> isa_check fe P n (isa_exec fe (P ! ar_pc a) a)))"

lemma isa_check_run:
  "isa_check fe P n a \<Longrightarrow> isa_run fe P m a = Some b \<Longrightarrow> \<not> isa_stopped P b \<Longrightarrow> good_access (P ! ar_pc b) b"
proof (induction m arbitrary: n a)
  case 0
  then show ?case by (cases n) auto
next
  case (Suc m)
  then obtain k where "n = Suc k" "isa_check fe P k (isa_exec fe (P ! ar_pc a) a)"
    by (cases n) (auto split: if_splits)
  then show ?case using Suc by (auto split: if_splits)
qed

lemma isa_check_safe: "isa_check fe P n isa_init \<Longrightarrow> isa_safe fe P"
  using isa_check_run by (auto simp: isa_safe_def)

lemma isa_run_snoc:
  "isa_run fe P n a = Some b \<Longrightarrow> \<not> isa_stopped P b \<Longrightarrow> isa_run fe P (Suc n) a = Some (isa_exec fe (P ! ar_pc b) b)"
proof (induction n arbitrary: a)
  case (Suc n)
  then have a: "\<not> isa_stopped P a" "isa_run fe P n (isa_exec fe (P ! ar_pc a) a) = Some b"
    by (auto split: if_splits)
  have "isa_run fe P (Suc (Suc n)) a = isa_run fe P (Suc n) (isa_exec fe (P ! ar_pc a) a)"
    using a(1) by (subst isa_run.simps(2)) (rule if_not_P)
  then show ?case using Suc.IH [OF a(2) Suc.prems(2)] by (rule trans)
qed simp

text \<open>The sequential machine is deterministic: it stops in one state at most.\<close>

lemma isa_run_stop_unique:
  "isa_run fe P n a = Some b \<Longrightarrow> isa_run fe P m a = Some c \<Longrightarrow> isa_stopped P b \<Longrightarrow> isa_stopped P c \<Longrightarrow> n = m \<and> b = c"
proof (induction n arbitrary: a m)
  case 0
  then show ?case by (cases m) (auto split: if_splits)
next
  case (Suc n)
  then show ?case by (cases m) (auto split: if_splits)
qed

section \<open>The initial state\<close>

lemma wf_program_of: "wf_program prog \<Longrightarrow> \<forall>i \<in> set (program_of prog). wf_instr i"
  by (auto simp: wf_program_def program_of_def wf_instr_def)

lemma station_ok_new:
  assumes "fl_ins F = []"
  shows "station_ok F u (new_station n)"
  using assms new_station_wf [of "fl_fe F" n]
  by (auto simp: station_ok_def all_held_def distinct_tags_def rs_entry_ok_def)
     (simp_all add: new_station_def empty_rs_entry_def)

lemma sim_init_ok:
  assumes "wf_program prog"
  obtains s F where "sim_init prog = Inr s" and "cycle_ok F (program_of prog) 0 s" and "fl_fe F = fe"
    and "fl_good F = g" and "fl_arch F = isa_init"
proof -
  obtain rob where rob: "new_rob ROB_SIZE = Inr rob" by (simp add: new_rob_def ROB_SIZE_def)
  obtain lsb where lsb: "new_lsb LSB_SIZE = Inr lsb" by (simp add: new_lsb_def LSB_SIZE_def)
  obtain iq where iq: "new_iq IQ_CAPACITY = Inr iq" by (simp add: new_iq_def IQ_CAPACITY_def)
  let ?s = "\<lparr>s_mem = replicate MEM_SIZE 0, s_rf = init_regfile, s_rat = init_rat, s_rob = rob,
          s_cdb = new_cdb, s_rs = (\<lambda>u. new_station (unit_size u)), s_lsb = lsb,
          s_iq = iq_load_program prog iq, s_last = empty_commit_record, s_halted = False,
          s_branch_in_flight = False, s_cycle = 1\<rparr>"
  let ?F = "\<lparr>fl_fe = fe, fl_good = g, fl_arch = isa_init, fl_ins = [], fl_rob = [], fl_tag = rob_tag_of rob,
             fl_bus = []\<rparr>"
  have init: "sim_init prog = Inr ?s" by (simp add: sim_init_def rob lsb iq)
  have r: "rob_wf rob" "rob_list rob = []" using new_rob_wf [OF rob] by auto
  have l: "lsb_wf lsb" "lsb_list lsb = []" using new_lsb_wf [OF lsb] by auto
  have iqw: "iq_wf iq" using new_iq_wf [OF iq] by simp
  have fo: "flight_ok ?F"
    by (simp add: flight_ok_def bus_ok_def isa_init_def init_regfile_wf rob_tag_of_def)
  have ro: "rat_ok ?F init_rat"
    using init_rat_wf by (auto simp: rat_ok_def init_rat_def rat_producer_flush)
  have lo: "lsb_ok ?F []" by (simp add: lsb_ok_def lsb_slots_def)
  have "machine_ok ?F (program_of prog) 0 ?s"
    using fo r l ro lo station_ok_new [of ?F] iq_load_program_wf [OF iqw, of prog] wf_program_of [OF assms]
      init_regfile_wf
    by (simp add: machine_ok_def isa_init_def) (simp add: iq_load_program_def program_of_def)
  then have "cycle_ok ?F (program_of prog) 0 ?s"
    by (simp add: cycle_ok_def new_cdb_def)
  then show thesis using that init by simp
qed

section \<open>Reachable states\<close>

inductive sim_reach :: "fp_env \<Rightarrow> instruction list \<Rightarrow> sim \<Rightarrow> bool" for fe prog where
  reach_init: "sim_init prog = Inr s \<Longrightarrow> sim_reach fe prog s"
| reach_cycle: "sim_reach fe prog s \<Longrightarrow> \<not> s_halted s \<Longrightarrow> sim_cycle fe s = Inr s' \<Longrightarrow> sim_reach fe prog s'"

text \<open>The invariant of a reachable state, for either choice of the flag that switches the claims
  about values on.\<close>

definition reach_ok :: "fp_env \<Rightarrow> instruction list \<Rightarrow> bool \<Rightarrow> sim \<Rightarrow> bool" where
  "reach_ok fe P g s \<longleftrightarrow> (if s_halted s
     then \<exists>F base. fl_fe F = fe \<and> halts_with P base F s \<and>
       (g \<longrightarrow> fl_good F \<and> ar_pc (fl_arch F) = base \<and> (\<exists>n. isa_run fe P n isa_init = Some (fl_arch F)))
     else \<exists>F base. cycle_ok F P base s \<and> fl_fe F = fe \<and>
       (g \<longrightarrow> fl_good F \<and> (\<exists>n. isa_run fe P n isa_init = Some (fl_arch F))))"

lemma reach_ok_init:
  assumes "wf_program prog" and "sim_init prog = Inr s"
  shows "reach_ok fe (program_of prog) g s"
proof -
  obtain F where "cycle_ok F (program_of prog) 0 s" "fl_fe F = fe" "fl_good F = g" "fl_arch F = isa_init"
    using sim_init_ok [OF assms(1)] assms(2) by (metis Inr_inject)
  moreover from this have "\<not> s_halted s" by (simp add: cycle_ok_def)
  moreover have "isa_run fe P 0 isa_init = Some isa_init" for P by simp
  ultimately show ?thesis
    unfolding reach_ok_def by (simp only: if_False) metis
qed

lemma isa_advance_run:
  assumes "isa_advance P base F F'" and "isa_safe fe P" and "fl_fe F = fe" and "fl_good F"
    and "ar_pc (fl_arch F) = base" and "isa_run fe P n isa_init = Some (fl_arch F)"
  shows "fl_good F' \<and> (\<exists>m. isa_run fe P m isa_init = Some (fl_arch F'))"
proof (cases "fl_arch F' = fl_arch F \<and> fl_good F' = fl_good F")
  case True
  then show ?thesis using assms(4,6) by auto
next
  case False
  then have adv: "base < length P" "in_op (P ! base) \<noteq> Op_HALT" "fl_arch F' = isa_exec fe (P ! base) (fl_arch F)"
      "fl_good F' = (fl_good F \<and> good_access (P ! base) (fl_arch F))"
    using assms(1,3) by (auto simp: isa_advance_defs)
  have ns: "\<not> isa_stopped P (fl_arch F)" using adv assms(5) by (simp add: isa_stopped_def)
  then have "good_access (P ! base) (fl_arch F)" using assms(2,5,6) by (auto simp: isa_safe_def)
  then have "fl_good F'" using adv(4) assms(4) by simp
  moreover have "isa_run fe P (Suc n) isa_init = Some (fl_arch F')"
    using isa_run_snoc [OF assms(6) ns] adv(3) assms(5) by (simp only:)
  ultimately show ?thesis by blast
qed

lemma reach_ok_cycle:
  assumes "reach_ok fe P g s" and "g \<Longrightarrow> isa_safe fe P" and "\<not> s_halted s"
  shows "returns (sim_cycle fe s) (reach_ok fe P g)"
proof -
  obtain F base where F: "cycle_ok F P base s" "fl_fe F = fe"
    and g: "g \<Longrightarrow> fl_good F \<and> (\<exists>n. isa_run fe P n isa_init = Some (fl_arch F))"
    using assms(1,3) by (auto simp: reach_ok_def)
  have pc: "fl_good F \<Longrightarrow> ar_pc (fl_arch F) = base" using F(1) by (simp add: cycle_ok_def machine_ok_def)
  have step: "returns (sim_cycle fe s) (\<lambda>s'. if s_halted s' then halts_with P base F s'
     else \<exists>F' base'. cycle_ok F' P base' s' \<and> isa_advance P base F F')"
    using sim_cycle_step [OF F(1)] F(2) by simp
  show ?thesis
  proof (rule returns_mono [OF step])
    fix s' assume s': "if s_halted s' then halts_with P base F s'
      else \<exists>F' base'. cycle_ok F' P base' s' \<and> isa_advance P base F F'"
    show "reach_ok fe P g s'"
    proof (cases "s_halted s'")
      case True
      then show ?thesis using s' F(2) g pc by (auto simp: reach_ok_def intro!: exI [of _ F])
    next
      case False
      then obtain F' base' where F': "cycle_ok F' P base' s'" "isa_advance P base F F'" using s' by auto
      then have "g \<longrightarrow> fl_good F' \<and> (\<exists>n. isa_run fe P n isa_init = Some (fl_arch F'))"
        using g pc isa_advance_run [OF F'(2) assms(2) F(2)] by blast
      moreover have "fl_fe F' = fe" using F' F(2) by (simp add: isa_advance_def)
      ultimately show ?thesis using F'(1) False by (auto simp: reach_ok_def)
    qed
  qed
qed

lemma sim_reach_ok:
  assumes "sim_reach fe prog s" and "wf_program prog" and "g \<Longrightarrow> isa_safe fe (program_of prog)"
  shows "reach_ok fe (program_of prog) g s"
  using assms(1)
proof (induction rule: sim_reach.induct)
  case (reach_init s)
  then show ?case by (rule reach_ok_init [OF assms(2)])
next
  case (reach_cycle s s')
  then show ?case using reach_ok_cycle [OF reach_cycle.IH assms(3)] by simp
qed

text \<open>What the invariant says about the committed state.\<close>

lemma reach_ok_committed:
  assumes "reach_ok fe P True s"
  shows "\<exists>n a. isa_run fe P n isa_init = Some a \<and> s_rf s = ar_rf a \<and> s_mem s = ar_mem a \<and>
     (s_halted s \<longrightarrow> ar_pc a < length P \<and> in_op (P ! ar_pc a) = Op_HALT) \<and>
     (sim_drained s \<longrightarrow> length P \<le> ar_pc a)"
proof (cases "s_halted s")
  case True
  then show ?thesis
    using assms by (auto simp: reach_ok_def halts_with_def sim_drained_def)
next
  case False
  then obtain F base n where F: "cycle_ok F P base s" "fl_good F" "isa_run fe P n isa_init = Some (fl_arch F)"
    using assms by (auto simp: reach_ok_def)
  have mo: "machine_ok F P base s" using F(1) by (simp add: cycle_ok_def)
  have m: "s_rf s = ar_rf (fl_arch F)" "s_mem s = ar_mem (fl_arch F)" "ar_pc (fl_arch F) = base"
    "iq_program (s_iq s) = P"
    using mo F(2) unfolding machine_ok_def by blast+
  have "length P \<le> base" if d: "sim_drained s"
  proof -
    have e: "fl_ins F = []"
      using d machine_ok_length [OF mo] by (simp add: sim_drained_def rob_empty_def)
    then have "iq_window (s_iq s) base"
      using machine_ok_fetch [OF mo] by (cases "s_branch_in_flight s") simp_all
    then show ?thesis using d m(4) by (auto simp: sim_drained_def iq_done_def iq_window_def)
  qed
  then show ?thesis
    using F(3) m(1-3) False by (intro exI [of _ n] exI [of _ "fl_arch F"]) simp
qed

section \<open>The clock loop\<close>

text \<open>The loop returns, in a state reached by whole cycles, for one of its three reasons.\<close>

lemma sim_loop_returns:
  assumes "wf_program prog" and "sim_reach fe prog s"
  shows "returns (sim_loop fe s) (\<lambda>s'. sim_reach fe prog s' \<and>
     (s_halted s' \<or> sim_drained s' \<or> MAX_CYCLES < s_cycle s'))"
  using assms(2)
proof (induction fe s rule: sim_loop.induct)
  case (1 fe s)
  show ?case
  proof (cases "s_halted s \<or> MAX_CYCLES < s_cycle s")
    case True
    then show ?thesis using "1.prems" by (subst sim_loop.simps) auto
  next
    case False
    have "reach_ok fe (program_of prog) False s" by (rule sim_reach_ok [OF "1.prems" assms(1)]) simp
    then have "returns (sim_cycle fe s) (reach_ok fe (program_of prog) False)"
      by (rule reach_ok_cycle) (use False in simp_all)
    then obtain s' where s': "sim_cycle fe s = Inr s'" by (elim returnsE)
    then have r: "sim_reach fe prog s'" using "1.prems" False by (auto intro: reach_cycle)
    show ?thesis
    proof (cases "sim_drained s'")
      case True
      then show ?thesis using False s' r by (subst sim_loop.simps) simp
    next
      case nd: False
      from "1.IH" [OF False s' nd r] False s' nd show ?thesis
        by (subst sim_loop.simps) simp
    qed
  qed
qed

end
