(* ===== verification/Progress.thy ===== *)
theory Progress
  imports Runs
begin

text \<open>
  The machine never stalls. A potential bounds the cycles the instructions in flight still need:
  the remaining latency of every occupied station slot, and a constant for every free slot of the
  reorder buffer. Each cycle that retires nothing lowers it; each retirement raises it by at most
  a constant. So a program of \<open>n\<close> instructions takes a number of cycles linear in \<open>n\<close>.
\<close>

section \<open>The potential\<close>

definition rs_weight :: "rs_entry \<Rightarrow> int" where
  "rs_weight e = (if rs_busy e \<and> \<not> rs_done e then (if 0 < rs_cycles_rem e then rs_cycles_rem e else 9) else 0)"

definition station_weight :: "station \<Rightarrow> int" where
  "station_weight st = sum_list (map rs_weight (st_entries st))"

definition work :: "sim \<Rightarrow> int" where
  "work s = sum_list (map (\<lambda>u. station_weight (s_rs s u)) all_units)"

definition potential :: "sim \<Rightarrow> int" where
  "potential s = work s + 10 * (int (rob_size (s_rob s)) - int (rob_count (s_rob s)))"

lemma rs_weight_nonneg: "0 \<le> rs_weight e"
  by (simp add: rs_weight_def)

lemma work_nonneg: "0 \<le> work s"
  by (auto simp: work_def station_weight_def rs_weight_nonneg intro!: sum_list_nonneg)

lemma sum_list_pointwise:
  fixes f g :: "'a \<Rightarrow> int"
  assumes "length xs = length ys" and "\<And>i. i < length xs \<Longrightarrow> f (xs ! i) \<le> g (ys ! i)"
  shows "sum_list (map f xs) \<le> sum_list (map g ys)"
    and "j < length xs \<Longrightarrow> f (xs ! j) < g (ys ! j) \<Longrightarrow> sum_list (map f xs) < sum_list (map g ys)"
proof -
  have s: "sum_list (map h zs) = (\<Sum>i \<in> {0..<length zs}. h (zs ! i))" for h :: "'a \<Rightarrow> int" and zs
    by (simp add: sum_list_sum_nth)
  show "sum_list (map f xs) \<le> sum_list (map g ys)"
    unfolding s using assms by (auto intro!: sum_mono)
  show "j < length xs \<Longrightarrow> f (xs ! j) < g (ys ! j) \<Longrightarrow> sum_list (map f xs) < sum_list (map g ys)"
    unfolding s using assms by (auto intro!: sum_strict_mono_ex1)
qed

section \<open>Execution lowers the weight\<close>

lemma latency_bound: "latency_of op \<le> 8"
  by (cases op) (simp_all add: latency_of_def latency_defs)

lemma rs_weight_countdown: "rs_executing e \<Longrightarrow> rs_weight (rs_countdown fe e) < rs_weight e"
  by (auto simp: rs_weight_def rs_countdown_def rs_executing_def Let_def)

lemma rs_weight_begin: "rs_ready e \<Longrightarrow> rs_weight (rs_begin fe e) < rs_weight e"
  using latency_bound [of "rs_op e"] by (auto simp: rs_weight_def rs_begin_def rs_ready_def)

lemma rs_weight_tick:
  assumes "station_wf fe s" and "i < length (st_entries s)"
  shows "rs_weight (st_entries (rs_tick fe s) ! i) \<le> rs_weight (st_entries s ! i)"
proof -
  have "0 \<le> rs_cycles_rem (st_entries s ! i)" using assms by (simp add: station_wf_def rs_entry_wf_def)
  from rs_tick_entry [OF assms(2) this, of fe] show ?thesis
    using rs_weight_countdown [of "st_entries s ! i" fe] rs_weight_begin [of "st_entries s ! i" fe]
    by (auto split: if_splits)
qed

text \<open>A ready slot that does not start is held up by one that makes progress.\<close>

lemma rs_tick_held_up:
  assumes "station_wf fe s" and "i < length (st_entries s)" and "rs_ready (st_entries s ! i)"
    and "st_entries (rs_tick fe s) ! i = st_entries s ! i"
  shows "\<exists>j < length (st_entries s). rs_weight (st_entries (rs_tick fe s) ! j) < rs_weight (st_entries s ! j)"
proof -
  let ?es = "st_entries s" and ?xs = "fold (rs_start fe) [0..<i] (map (rs_countdown fe) (st_entries s))"
  have nn: "0 \<le> rs_cycles_rem (?es ! j)" if "j < length ?es" for j
    using that assms(1) by (simp add: station_wf_def rs_entry_wf_def)
  have xi: "?xs ! i = ?es ! i"
    using assms(2,3) rs_countdown_cases [OF nn [OF assms(2)], of fe]
    by (simp add: fold_rs_start_nth rs_ready_def rs_executing_def)
  have "st_entries (rs_tick fe s) ! i = rs_start fe i ?xs ! i"
    using assms(2) by (simp add: rs_tick_def Let_def fold_rs_start_nth)
  also have "\<dots> = (if is_pipelined (rs_op (?es ! i)) \<or> \<not> rs_fu_busy i ?xs then rs_begin fe (?es ! i) else ?es ! i)"
    using rs_start_same [of i ?xs fe] assms(2,3) xi by simp
  finally have "rs_fu_busy i ?xs"
    using assms(4) rs_weight_begin [OF assms(3), of fe] by (auto split: if_splits)
  then obtain j where j: "j < length ?es" "j \<noteq> i" "rs_executing (?xs ! j)" by (auto simp: rs_fu_busy_iff)
  have xj: "?xs ! j = (if j < i then st_entries (rs_tick fe s) ! j else rs_countdown fe (?es ! j))"
    using j(1,2) assms(2)
    by (auto simp: rs_tick_def Let_def fold_rs_start_nth [of j])
  note tick = rs_tick_entry [OF j(1) nn [OF j(1)], of fe]
  show ?thesis
  proof (cases "rs_executing (?es ! j)")
    case True
    then show ?thesis using j(1) tick rs_weight_countdown [OF True, of fe] by auto
  next
    case False
    then have "rs_countdown fe (?es ! j) = ?es ! j" using rs_countdown_cases [OF nn [OF j(1)], of fe] by simp
    then have "st_entries (rs_tick fe s) ! j \<noteq> ?es ! j" using False j(3) xj by (auto split: if_splits)
    then have "rs_ready (?es ! j)" "st_entries (rs_tick fe s) ! j = rs_begin fe (?es ! j)"
      using False tick by (auto split: if_splits)
    then show ?thesis using j(1) rs_weight_begin [of "?es ! j" fe] by auto
  qed
qed

lemma station_weight_tick:
  assumes "station_wf fe s"
  shows "station_weight (rs_tick fe s) \<le> station_weight s"
  unfolding station_weight_def by (rule sum_list_pointwise) (simp_all add: rs_weight_tick [OF assms])

text \<open>The station of an entry that has its operands and is still not done works.\<close>

lemma station_weight_tick_less:
  assumes "station_wf fe s" and "i < length (st_entries s)" and "rs_busy (st_entries s ! i)"
    and "rs_qj (st_entries s ! i) = -1" and "rs_qk (st_entries s ! i) = -1"
    and "\<not> rs_done (st_entries (rs_tick fe s) ! i)"
  shows "station_weight (rs_tick fe s) < station_weight s"
proof -
  let ?e = "st_entries s ! i"
  have nn: "0 \<le> rs_cycles_rem ?e" using assms(1,2) by (simp add: station_wf_def rs_entry_wf_def)
  note tick = rs_tick_entry [OF assms(2) nn, of fe]
  have "\<exists>j < length (st_entries s). rs_weight (st_entries (rs_tick fe s) ! j) < rs_weight (st_entries s ! j)"
  proof (cases "rs_executing ?e")
    case True
    then show ?thesis using assms(2) tick rs_weight_countdown [OF True, of fe] by auto
  next
    case False
    have "rs_ready ?e"
      using False assms(3-6) tick nn by (auto simp: rs_ready_def rs_executing_def split: if_splits)
    then show ?thesis
      using False tick assms(2) rs_weight_begin [of ?e fe] rs_tick_held_up [OF assms(1,2)]
      by (cases "st_entries (rs_tick fe s) ! i = ?e") auto
  qed
  then obtain j where j: "j < length (st_entries s)"
      "rs_weight (st_entries (rs_tick fe s) ! j) < rs_weight (st_entries s ! j)" by blast
  then show ?thesis
    unfolding station_weight_def
    by (intro sum_list_pointwise(2) [of _ _ _ _ j]) (simp_all add: rs_weight_tick [OF assms(1)])
qed

lemma work_pointwise:
  assumes "\<And>u. station_weight (f u) \<le> station_weight (g u)"
  shows "sum_list (map (\<lambda>u. station_weight (f u)) all_units) \<le> sum_list (map (\<lambda>u. station_weight (g u)) all_units)"
    and "station_weight (f u) < station_weight (g u) \<Longrightarrow>
      sum_list (map (\<lambda>u. station_weight (f u)) all_units) < sum_list (map (\<lambda>u. station_weight (g u)) all_units)"
proof -
  show "sum_list (map (\<lambda>u. station_weight (f u)) all_units) \<le> sum_list (map (\<lambda>u. station_weight (g u)) all_units)"
    by (rule sum_list_pointwise) (simp_all add: assms)
  have "u \<in> set all_units" by (cases u) (simp_all add: all_units_def)
  then obtain j where "j < length all_units" "all_units ! j = u" by (auto simp: in_set_conv_nth)
  then show "station_weight (f u) < station_weight (g u) \<Longrightarrow>
      sum_list (map (\<lambda>u. station_weight (f u)) all_units) < sum_list (map (\<lambda>u. station_weight (g u)) all_units)"
    by (intro sum_list_pointwise(2) [of _ _ _ _ j]) (simp_all add: assms)
qed

section \<open>Results reach the reorder buffer\<close>

definition rob_settled :: "rob \<Rightarrow> int \<Rightarrow> bool" where
  "rob_settled b t \<longleftrightarrow> r_state (rob_entries b ! nat t) \<noteq> ROB_IN_FLIGHT"

definition rob_advances :: "rob \<Rightarrow> rob \<Rightarrow> bool" where
  "rob_advances b b' \<longleftrightarrow> rob_wf b' \<and> rob_size b' = rob_size b \<and> rob_head b' = rob_head b \<and>
     rob_count b' = rob_count b \<and> (\<forall>t. rob_settled b t \<longrightarrow> rob_settled b' t)"

lemma rob_advances_refl: "rob_wf b \<Longrightarrow> rob_advances b b"
  by (simp add: rob_advances_def)

lemma rob_advances_trans: "rob_advances b b' \<Longrightarrow> rob_advances b' b'' \<Longrightarrow> rob_advances b b''"
  by (simp add: rob_advances_def)

lemma rob_write_result_advances:
  assumes "rob_write_result t v b = Inr b'" and "rob_wf b"
  shows "rob_advances b b' \<and> rob_settled b' t"
proof -
  have t: "0 \<le> t" "t < int (rob_size b)" and b': "b' = b\<lparr>rob_entries := (rob_entries b)[nat t :=
      (rob_entries b ! nat t)\<lparr>r_result := v, r_state := ROB_DONE\<rparr>]\<rparr>"
    using assms(1) by (auto simp: rob_write_result_def)
  then have "rob_settled b' t" and "rob_settled b u \<Longrightarrow> rob_settled b' u" for u
    using assms(2) by (auto simp: rob_settled_def rob_wf_def nth_list_update)
  then show ?thesis
    using rob_write_result_keeps [OF assms(2,1)] b' by (simp add: rob_advances_def)
qed

text \<open>A loop over the reorder buffer advances it when every iteration does, and what one iteration
  completes stays complete.\<close>

lemma res_fold_advances:
  assumes "\<And>x b b'. x \<in> set xs \<Longrightarrow> f x b = Inr b' \<Longrightarrow> rob_wf b \<Longrightarrow> rob_advances b b' \<and> (Q x \<longrightarrow> rob_settled b' (t x))"
    and "res_fold f xs b = Inr b'" and "rob_wf b"
  shows "rob_advances b b' \<and> (\<forall>x \<in> set xs. Q x \<longrightarrow> rob_settled b' (t x))"
  using assms
proof (induction xs arbitrary: b)
  case Nil
  then show ?case by (simp add: rob_advances_refl)
next
  case (Cons x xs)
  obtain b1 where b1: "f x b = Inr b1" "res_fold f xs b1 = Inr b'" using Cons.prems(2) by auto
  have x: "rob_advances b b1" "Q x \<longrightarrow> rob_settled b1 (t x)" using Cons.prems(1) [OF _ b1(1)] Cons.prems(3) by auto
  then have "rob_advances b1 b'" "\<forall>x \<in> set xs. Q x \<longrightarrow> rob_settled b' (t x)"
    using Cons.IH [OF _ b1(2)] Cons.prems(1) by (auto simp: rob_advances_def)
  then show ?case using x rob_advances_trans [OF x(1)] by (auto simp: rob_advances_def)
qed

lemma lsb_update_rob_effect:
  assumes "lsb_update_rob q b = Inr b'" and "rob_wf b" and "lsb_wf q"
  shows "rob_advances b b' \<and> (\<forall>j < lsb_count q. is_store (l_op (lsb_list q ! j)) \<longrightarrow>
     l_state (lsb_list q ! j) = LSB_DONE \<longrightarrow> rob_settled b' (l_rob_tag (lsb_list q ! j)))"
proof -
  let ?Q = "\<lambda>j. is_store (l_op (lsb_list q ! j)) \<and> l_state (lsb_list q ! j) = LSB_DONE"
  have "rob_advances b b' \<and> (\<forall>j \<in> set [0..<lsb_count q]. ?Q j \<longrightarrow> rob_settled b' (l_rob_tag (lsb_list q ! j)))"
  proof (rule res_fold_advances [OF _ assms(1) [unfolded lsb_update_rob_def] assms(2)])
    fix j b1 b2
    assume j: "j \<in> set [0..<lsb_count q]" and wf: "rob_wf b1"
      and step: "(let e = lsb_entries q ! lsb_phys q j in
        if is_store (l_op e) \<and> l_state e = LSB_DONE then
          res_bind (rob_peek (l_rob_tag e) b1) (\<lambda>re.
            if r_state re = ROB_IN_FLIGHT then rob_write_result (l_rob_tag e) 0 b1 else Inr b1)
        else Inr b1) = Inr b2"
    have at: "lsb_entries q ! lsb_phys q j = lsb_list q ! j"
      using assms(3) j by (simp add: lsb_entry_at)
    show "rob_advances b1 b2 \<and> (?Q j \<longrightarrow> rob_settled b2 (l_rob_tag (lsb_list q ! j)))"
      using step rob_write_result_advances [OF _ wf] rob_advances_refl [OF wf]
      by (auto simp: at Let_def rob_peek_def rob_settled_def split: if_splits)
  qed
  then show ?thesis by simp
qed

text \<open>The broadcast loops.\<close>

lemma rs_weight_empty: "rs_weight empty_rs_entry = 0"
  by (simp add: rs_weight_def empty_rs_entry_def)

lemma sum_list_map_update:
  fixes f :: "'a \<Rightarrow> int"
  shows "i < length xs \<Longrightarrow> sum_list (map f (xs[i := x])) = sum_list (map f xs) - f (xs ! i) + f x"
  by (induction xs arbitrary: i) (auto split: nat.splits)

lemma station_weight_update:
  "i < length (st_entries st) \<Longrightarrow> station_weight (st\<lparr>st_entries := (st_entries st)[i := e], st_count := n\<rparr>) =
     station_weight st - rs_weight (st_entries st ! i) + rs_weight e"
  by (simp add: station_weight_def sum_list_map_update)

lemma broadcast_station_effect:
  "broadcast_station st b c = Inr (st', b', c') \<Longrightarrow> rob_wf b \<Longrightarrow> rob_advances b b' \<and>
     station_weight st' = station_weight st \<and> length (st_entries st') = length (st_entries st) \<and>
     (\<forall>e \<in> set (st_entries st). rs_busy e \<longrightarrow> rs_done e \<longrightarrow> rob_settled b' (rs_rob_tag e))"
proof (induction st b c rule: broadcast_station.induct)
  case (1 st b c)
  show ?case
  proof (cases "rs_has_result st")
    case False
    then have "st' = st" "b' = b" using "1.prems"(1) by (simp_all add: broadcast_station.simps [of st])
    then show ?thesis using False "1.prems"(2) by (auto simp: rob_advances_refl rs_has_result_def list_ex_iff)
  next
    case True
    obtain i st1 where i: "i < length (st_entries st)" "rs_busy (st_entries st ! i)" "rs_done (st_entries st ! i)"
      and pop: "rs_pop_result st = Inr (st_entries st ! i, st1)"
      and st1: "st1 = st\<lparr>st_entries := (st_entries st)[i := empty_rs_entry], st_count := st_count st - 1\<rparr>"
      using rs_pop_result_cases [OF True] .
    let ?e = "st_entries st ! i"
    obtain b1 where b1: "rob_write_result (rs_rob_tag ?e) (rs_result ?e) b = Inr b1"
      and rest: "broadcast_station st1 b1 (cdb_broadcast (rs_rob_tag ?e) (rs_result ?e) c) = Inr (st', b', c')"
      using "1.prems"(1) True pop by (subst (asm) broadcast_station.simps) (auto split: sum.splits)
    note adv = rob_write_result_advances [OF b1 "1.prems"(2)]
    have w: "station_weight st1 = station_weight st"
      using i by (simp add: st1 station_weight_update rs_weight_empty) (simp add: rs_weight_def)
    have IH: "rob_advances b1 b' \<and> station_weight st' = station_weight st1 \<and>
       length (st_entries st') = length (st_entries st1) \<and>
       (\<forall>e \<in> set (st_entries st1). rs_busy e \<longrightarrow> rs_done e \<longrightarrow> rob_settled b' (rs_rob_tag e))"
      using "1.IH" [OF True pop _ b1 rest] adv by (simp add: rob_advances_def)
    have "rob_settled b' (rs_rob_tag (st_entries st ! j))"
      if "j < length (st_entries st)" "rs_busy (st_entries st ! j)" "rs_done (st_entries st ! j)" for j
    proof (cases "j = i")
      case True
      then show ?thesis using adv IH by (simp add: rob_advances_def)
    next
      case False
      then have "st_entries st ! j \<in> set (st_entries st1)"
        using that(1) by (auto simp: st1 in_set_conv_nth intro!: exI [of _ j])
      then show ?thesis using IH that by blast
    qed
    then show ?thesis
      using IH adv w st1 rob_advances_trans [of b b1 b'] by (auto simp: in_set_conv_nth)
  qed
qed

lemma broadcast_loads_effect:
  "broadcast_loads q b c = Inr (q', b', c') \<Longrightarrow> rob_wf b \<Longrightarrow> lsb_wf q \<Longrightarrow> rob_advances b b' \<and>
     (\<forall>e L. lsb_list q = e # L \<longrightarrow> is_load (l_op e) \<longrightarrow> l_state e = LSB_DONE \<longrightarrow> rob_settled b' (l_rob_tag e))"
proof (induction q b c rule: broadcast_loads.induct)
  case (1 q b c)
  show ?case
  proof (cases "lsb_has_load_result q")
    case False
    then have "b' = b" using "1.prems"(1) by (simp add: broadcast_loads.simps [of q])
    then show ?thesis
      using False "1.prems"(2,3) by (auto simp: rob_advances_refl lsb_has_load_result_iff)
  next
    case True
    obtain e L where l: "lsb_list q = e # L" "l_state e = LSB_DONE" "is_load (l_op e)"
      using True lsb_has_load_result_iff [OF "1.prems"(3)] by auto
    have pop: "lsb_pop_load_result q = Inr (e, lsb_drop_head q)"
      using lsb_pop_load_result_head [OF "1.prems"(3) l] .
    obtain b1 where b1: "rob_write_result (l_rob_tag e) (l_result e) b = Inr b1"
      and rest: "broadcast_loads (lsb_drop_head q) b1 (cdb_broadcast (l_rob_tag e) (l_result e) c) = Inr (q', b', c')"
      using "1.prems"(1) True pop by (subst (asm) broadcast_loads.simps) (auto split: sum.splits)
    note adv = rob_write_result_advances [OF b1 "1.prems"(2)]
    have "rob_advances b1 b'"
      using "1.IH" [OF True pop _ b1 rest] adv lsb_drop_head_props [OF "1.prems"(3) l(1)]
      by (simp add: rob_advances_def)
    then show ?thesis using adv l(1) rob_advances_trans [of b b1 b'] by (auto simp: rob_advances_def)
  qed
qed

text \<open>The stations do the same amount of work in both states.\<close>

definition same_work :: "sim \<Rightarrow> sim \<Rightarrow> bool" where
  "same_work s s' \<longleftrightarrow> (\<forall>u. station_weight (s_rs s' u) = station_weight (s_rs s u) \<and>
     length (st_entries (s_rs s' u)) = length (st_entries (s_rs s u)))"

lemma same_work_trans: "same_work s s' \<Longrightarrow> same_work s' s'' \<Longrightarrow> same_work s s''"
  by (simp add: same_work_def)

lemma same_work_work: "same_work s s' \<Longrightarrow> work s' = work s"
  by (simp add: same_work_def work_def)

lemma broadcast_unit_effect:
  assumes "broadcast_unit u s = Inr s'" and "rob_wf (s_rob s)"
  shows "rob_advances (s_rob s) (s_rob s')" and "same_work s s'" and "s_lsb s' = s_lsb s"
    and "v \<noteq> u \<Longrightarrow> s_rs s' v = s_rs s v"
    and "e \<in> set (st_entries (s_rs s u)) \<Longrightarrow> rs_busy e \<Longrightarrow> rs_done e \<Longrightarrow> rob_settled (s_rob s') (rs_rob_tag e)"
  using assms broadcast_station_effect [of "s_rs s u" "s_rob s" "s_cdb s"]
  by (auto simp: broadcast_unit_def same_work_def)

lemma broadcast_units_effect:
  assumes "res_fold broadcast_unit us s = Inr s'" and "rob_wf (s_rob s)" and "distinct us"
  shows "rob_advances (s_rob s) (s_rob s') \<and> same_work s s' \<and> s_lsb s' = s_lsb s \<and>
    (\<forall>u \<in> set us. \<forall>e \<in> set (st_entries (s_rs s u)). rs_busy e \<longrightarrow> rs_done e \<longrightarrow> rob_settled (s_rob s') (rs_rob_tag e))"
  using assms
proof (induction us arbitrary: s)
  case Nil
  then show ?case by (simp add: rob_advances_refl same_work_def)
next
  case (Cons u us)
  obtain s1 where s1: "broadcast_unit u s = Inr s1" "res_fold broadcast_unit us s1 = Inr s'"
    using Cons.prems(1) by auto
  note e = broadcast_unit_effect [OF s1(1) Cons.prems(2)]
  have IH: "rob_advances (s_rob s1) (s_rob s')" "same_work s1 s'" "s_lsb s' = s_lsb s1"
    "\<forall>u \<in> set us. \<forall>e \<in> set (st_entries (s_rs s1 u)). rs_busy e \<longrightarrow> rs_done e \<longrightarrow> rob_settled (s_rob s') (rs_rob_tag e)"
    using Cons.IH [OF s1(2)] e(1) Cons.prems(3) by (simp_all add: rob_advances_def)
  have "rob_settled (s_rob s') (rs_rob_tag x)"
    if "v \<in> set (u # us)" "x \<in> set (st_entries (s_rs s v))" "rs_busy x" "rs_done x" for v x
    using that IH(1,4) e(4) [of v] e(5) [of x] by (cases "v = u") (auto simp: rob_advances_def)
  then show ?case
    using rob_advances_trans [OF e(1) IH(1)] same_work_trans [OF e(2) IH(2)] IH(3) e(3) by simp
qed

lemma all_units: "distinct all_units" "u \<in> set all_units"
  by (cases u; simp add: all_units_def)+

lemma phase_broadcast_effect:
  assumes "phase_broadcast s = Inr s'" and "rob_wf (s_rob s)" and "lsb_wf (s_lsb s)"
  shows "rob_advances (s_rob s) (s_rob s')" and "same_work s s'"
    and "e \<in> set (st_entries (s_rs s u)) \<Longrightarrow> rs_busy e \<Longrightarrow> rs_done e \<Longrightarrow> rob_settled (s_rob s') (rs_rob_tag e)"
    and "lsb_list (s_lsb s) = l # L \<Longrightarrow> is_load (l_op l) \<Longrightarrow> l_state l = LSB_DONE \<Longrightarrow>
      rob_settled (s_rob s') (l_rob_tag l)"
proof -
  obtain s1 q b c where s1: "res_fold broadcast_unit all_units s = Inr s1"
      "broadcast_loads (s_lsb s1) (s_rob s1) (s_cdb s1) = Inr (q, b, c)"
    and s': "s' = s1\<lparr>s_lsb := q, s_rob := b, s_cdb := c\<rparr>"
    using assms(1) by (auto simp: phase_broadcast_def)
  note u = broadcast_units_effect [OF s1(1) assms(2) all_units(1)]
  have l: "rob_advances (s_rob s1) b" "\<forall>e L. lsb_list (s_lsb s) = e # L \<longrightarrow> is_load (l_op e) \<longrightarrow>
      l_state e = LSB_DONE \<longrightarrow> rob_settled b (l_rob_tag e)"
    using broadcast_loads_effect [OF s1(2)] u assms(3) by (simp_all add: rob_advances_def)
  show "rob_advances (s_rob s) (s_rob s')" using u l(1) rob_advances_trans by (auto simp: s')
  show "same_work s s'" using u by (simp add: same_work_def s')
  show "e \<in> set (st_entries (s_rs s u)) \<Longrightarrow> rs_busy e \<Longrightarrow> rs_done e \<Longrightarrow> rob_settled (s_rob s') (rs_rob_tag e)"
    using u l(1) all_units(2) [of u] by (auto simp: s' rob_advances_def)
  show "lsb_list (s_lsb s) = l # L \<Longrightarrow> is_load (l_op l) \<Longrightarrow> l_state l = LSB_DONE \<Longrightarrow>
      rob_settled (s_rob s') (l_rob_tag l)"
    using l(2) by (simp add: s')
qed

lemma phase_snoop_work: "same_work s (phase_snoop s)"
proof -
  have "rs_weight (fold rs_capture rs e) = rs_weight e" for rs e
    by (simp add: rs_weight_def)
  then show ?thesis
    by (simp add: same_work_def phase_snoop_eq station_weight_def rs_snoop_entries comp_def)
qed

section \<open>The oldest instruction\<close>

text \<open>Nothing in flight writes its operands, so they are settled; a load or store is done after one
  tick.\<close>

lemma opnd_ok_head: "opnd_ok F 0 v q r fp \<Longrightarrow> q = -1"
  by (auto simp: opnd_ok_def)

lemma lsb_tick_head:
  assumes "lsb_entry_ok F 0 e" and "is_load (op_at F 0) \<or> is_store (op_at F 0)"
  shows "l_state (lsb_pass4 mem (load_step mem [] (resolved e))) = LSB_DONE"
  using assms load_not_store [of "op_at F 0"]
  by (cases "l_state e")
     (auto simp: lsb_entry_ok_def resolved_def lsb_pass1_def lsb_pass2_def load_step_def lsb_pass4_def
       dest!: opnd_ok_head split: if_splits)

lemma head_memory_done:
  assumes "lsb_ok F (lsb_list q)" and "lsb_wf q" and "fl_ins F \<noteq> []" and "state_at F 0 = ROB_IN_FLIGHT"
    and "target_unit (op_at F 0) = None"
  obtains e L where "lsb_list (lsb_tick mem q) = e # L" and "l_state e = LSB_DONE"
    and "l_rob_tag e = fl_tag F 0" and "l_op e = op_at F 0"
proof -
  have op: "is_load (op_at F 0) \<or> is_store (op_at F 0)"
    using assms(5) by (auto simp: target_unit_def split: if_splits opcode.splits)
  have "[0..<length (fl_ins F)] = 0 # [1..<length (fl_ins F)]" using assms(3) by (simp add: upt_conv_Cons)
  then have "lsb_slots F = 0 # filter (in_lsb F) [1..<length (fl_ins F)]"
    using op assms(4) by (auto simp: lsb_slots_def in_lsb_def)
  then obtain x xs where x: "lsb_list q = x # xs" "lsb_entry_ok F 0 x"
    using assms(1) by (auto simp: lsb_ok_def list_all2_Cons1)
  let ?e = "lsb_pass4 mem (load_step mem [] (resolved x))"
  have "lsb_list (lsb_tick mem q) ! 0 = ?e" "lsb_list (lsb_tick mem q) \<noteq> []"
    using lsb_tick_list [OF assms(2), of mem] x(1) by (simp_all add: Let_def upt_conv_Cons del: upt_Suc)
  then have "lsb_list (lsb_tick mem q) = ?e # tl (lsb_list (lsb_tick mem q))"
    by (cases "lsb_list (lsb_tick mem q)") auto
  moreover have "l_rob_tag ?e = l_rob_tag x" "l_op ?e = l_op x"
    using lsb_tick_entry_key [of mem "[]" x] by (simp_all add: lsb_key_def)
  ultimately show thesis
    using that lsb_tick_head [OF x(2) op] x(2) by (simp add: lsb_entry_ok_def)
qed

lemma work_execute:
  assumes "machine_ok F P base s"
  shows "work (phase_execute (fl_fe F) s) \<le> work s"
    and "station_weight (rs_tick (fl_fe F) (s_rs s u)) < station_weight (s_rs s u) \<Longrightarrow>
      work (phase_execute (fl_fe F) s) < work s"
proof -
  have le: "station_weight (rs_tick (fl_fe F) (s_rs s v)) \<le> station_weight (s_rs s v)" for v
    using assms by (intro station_weight_tick) (simp add: machine_ok_def station_ok_def)
  show "work (phase_execute (fl_fe F) s) \<le> work s"
    unfolding work_def using work_pointwise(1) [OF le] by (simp add: phase_execute_def)
  show "station_weight (rs_tick (fl_fe F) (s_rs s u)) < station_weight (s_rs s u) \<Longrightarrow>
      work (phase_execute (fl_fe F) s) < work s"
    unfolding work_def using work_pointwise(2) [OF le] by (simp add: phase_execute_def)
qed

lemma head_station_works:
  assumes m: "machine_ok F P base s" and "fl_ins F \<noteq> []" and "state_at F 0 = ROB_IN_FLIGHT"
    and u: "target_unit (op_at F 0) = Some u"
    and nd: "\<And>e. e \<in> set (st_entries (rs_tick (fl_fe F) (s_rs s u))) \<Longrightarrow> rs_busy e \<Longrightarrow> rs_done e \<Longrightarrow> rs_rob_tag e \<noteq> fl_tag F 0"
  shows "work (phase_execute (fl_fe F) s) < work s"
proof (rule work_execute(2) [OF m])
  have fo: "flight_ok F" and so: "station_ok F u (s_rs s u)" using m by (simp_all add: machine_ok_def)
  have wf: "station_wf (fl_fe F) (s_rs s u)" using so by (simp add: station_ok_def)
  have n: "0 < length (fl_ins F)" using assms(2) by simp
  obtain i where i: "i < length (st_entries (s_rs s u))" "rs_busy (st_entries (s_rs s u) ! i)"
      "rs_rob_tag (st_entries (s_rs s u) ! i) = fl_tag F 0"
    using station_ok_held [OF so n assms(3) u] .
  let ?e = "st_entries (s_rs s u) ! i" and ?e' = "st_entries (rs_tick (fl_fe F) (s_rs s u)) ! i"
  obtain k where k: "k < length (fl_ins F)" "holds F k ?e"
    using station_ok_entry [OF so i(1)] i(2) by (auto simp: rs_entry_ok_def)
  then have "k = 0" using i(3) fl_tag_inject [OF fo k(1) n] by (simp add: holds_def)
  then have q: "rs_qj ?e = -1" "rs_qk ?e = -1" using k(2) by (auto simp: holds_def dest!: opnd_ok_head)
  have "rs_busy ?e'" "rs_rob_tag ?e' = fl_tag F 0"
    using rs_tick_core [OF wf i(1)] i(2,3) by (simp_all add: rs_core_def)
  then have "\<not> rs_done ?e'" using nd [of ?e'] i(1) by auto
  then show "station_weight (rs_tick (fl_fe F) (s_rs s u)) < station_weight (s_rs s u)"
    by (rule station_weight_tick_less [OF wf i(1,2) q])
qed

text \<open>The first three phases of a cycle lower the work, or the oldest instruction has completed.\<close>

lemma phases_123_work:
  assumes m: "machine_ok F P base s"
    and s2: "phase_stores (phase_execute (fl_fe F) s) = Inr s2" and s3: "phase_broadcast s2 = Inr s3"
  shows "rob_advances (s_rob s) (s_rob s3)" and "work s3 \<le> work s"
    and "length (st_entries (s_rs s3 u)) = length (st_entries (s_rs s u))"
    and "fl_ins F \<noteq> [] \<Longrightarrow> \<not> rob_settled (s_rob s3) (fl_tag F 0) \<Longrightarrow> work s3 < work s"
proof -
  let ?s1 = "phase_execute (fl_fe F) s"
  have wf: "rob_wf (s_rob s)" "lsb_wf (s_lsb s)" and tg: "fl_tag F = rob_tag_of (s_rob s)"
    and rl: "fl_rob F = rob_list (s_rob s)" and fo: "flight_ok F" and lo: "lsb_ok F (lsb_list (s_lsb s))"
    using m by (simp_all add: machine_ok_def)
  have lw: "lsb_wf (s_lsb ?s1)" using lsb_tick_list [OF wf(2)] by (simp add: phase_execute_def)
  obtain b where b: "lsb_update_rob (s_lsb ?s1) (s_rob ?s1) = Inr b" and s2': "s2 = ?s1\<lparr>s_rob := b\<rparr>"
    using s2 by (auto simp: phase_stores_def)
  have st: "rob_advances (s_rob s) b" "\<forall>j < lsb_count (s_lsb ?s1). is_store (l_op (lsb_list (s_lsb ?s1) ! j)) \<longrightarrow>
     l_state (lsb_list (s_lsb ?s1) ! j) = LSB_DONE \<longrightarrow> rob_settled b (l_rob_tag (lsb_list (s_lsb ?s1) ! j))"
    using lsb_update_rob_effect [OF b _ lw] wf(1) by (simp_all add: phase_execute_def)
  have wf2: "rob_wf (s_rob s2)" "lsb_wf (s_lsb s2)" using st(1) lw by (simp_all add: s2' rob_advances_def)
  note bc = phase_broadcast_effect [OF s3 wf2]
  show adv: "rob_advances (s_rob s) (s_rob s3)" using bc(1) st(1) rob_advances_trans by (auto simp: s2')
  have w: "work s3 = work ?s1" using same_work_work [OF bc(2)] by (simp add: s2' work_def)
  then show "work s3 \<le> work s" using work_execute(1) [OF m] by simp
  show "length (st_entries (s_rs s3 u)) = length (st_entries (s_rs s u))"
    using bc(2) by (simp add: same_work_def s2' phase_execute_def)
  assume ne: "fl_ins F \<noteq> []" and ns: "\<not> rob_settled (s_rob s3) (fl_tag F 0)"
  then have "0 < rob_count (s_rob s)" using machine_ok_length [OF m] by (cases "fl_ins F") auto
  then have "rob_settled (s_rob s) (fl_tag F 0) \<longleftrightarrow> state_at F 0 \<noteq> ROB_IN_FLIGHT"
    using rob_entry_at [OF wf(1), of 0] tg rl by (simp add: rob_settled_def)
  then have fl: "state_at F 0 = ROB_IN_FLIGHT" using ns adv by (auto simp: rob_advances_def)
  show "work s3 < work s"
  proof (cases "target_unit (op_at F 0)")
    case (Some u)
    have "work ?s1 < work s"
    proof (rule head_station_works [OF m ne fl Some])
      fix e assume "e \<in> set (st_entries (rs_tick (fl_fe F) (s_rs s u)))" "rs_busy e" "rs_done e"
      then show "rs_rob_tag e \<noteq> fl_tag F 0"
        using bc(3) [of e u] ns by (auto simp: s2' phase_execute_def)
    qed
    then show ?thesis using w by simp
  next
    case None
    obtain e L where e: "lsb_list (lsb_tick (s_mem s) (s_lsb s)) = e # L" "l_state e = LSB_DONE"
        "l_rob_tag e = fl_tag F 0" "l_op e = op_at F 0"
      using head_memory_done [OF lo wf(2) ne fl None] .
    have q: "lsb_list (s_lsb ?s1) = e # L" using e(1) by (simp add: phase_execute_def)
    have "is_load (op_at F 0) \<or> is_store (op_at F 0)"
      using None by (auto simp: target_unit_def split: if_splits opcode.splits)
    moreover have "is_load (op_at F 0) \<Longrightarrow> rob_settled (s_rob s3) (fl_tag F 0)"
      using bc(4) [of e L] q e by (simp add: s2')
    moreover have "0 < lsb_count (s_lsb ?s1)"
      using q length_lsb_list [of "s_lsb ?s1"] by simp
    then have "is_store (op_at F 0) \<Longrightarrow> rob_settled (s_rob s3) (fl_tag F 0)"
      using spec [OF st(2), of 0] q e bc(1) by (simp add: rob_advances_def s2')
    ultimately show ?thesis using ns by blast
  qed
qed

section \<open>Dispatch\<close>

lemma rs_fill_weight: "rs_fill instr tag t rf b e = Inr e' \<Longrightarrow> rs_weight e' \<le> 9"
  by (auto simp: rs_fill_def rs_weight_def split: prod.splits)

lemma rs_issue_weight:
  assumes "station_wf fe s" and "\<not> rs_full s" and "rs_issue instr tag t rf b s = Inr (ok, s')"
  shows "station_weight s' \<le> station_weight s + 9 \<and> length (st_entries s') = length (st_entries s)"
proof -
  obtain i e where i: "i < st_size s" "\<not> rs_busy (st_entries s ! i)"
    and e: "rs_fill instr tag t rf b (st_entries s ! i) = Inr e"
    and s': "s' = s\<lparr>st_entries := (st_entries s)[i := e], st_count := st_count s + 1\<rparr>"
    using rs_issue_free [OF assms(1,2), of instr tag t rf b] assms(3) by auto
  have "i < length (st_entries s)" using assms(1) i(1) by (simp add: station_wf_def)
  then show ?thesis
    using rs_fill_weight [OF e] rs_weight_nonneg [of "st_entries s ! i"] by (simp add: s' station_weight_update)
qed

lemma rob_allocate_counts:
  "\<not> rob_full b \<Longrightarrow> rob_size (snd (rob_allocate i b)) = rob_size b \<and>
     rob_count (snd (rob_allocate i b)) = Suc (rob_count b)"
  by (simp add: rob_allocate_def Let_def)

definition same_slots :: "sim \<Rightarrow> sim \<Rightarrow> bool" where
  "same_slots s s' \<longleftrightarrow> (\<forall>u. length (st_entries (s_rs s' u)) = length (st_entries (s_rs s u))) \<and>
     rob_size (s_rob s') = rob_size (s_rob s)"

lemma same_slots_refl [simp]: "same_slots s s"
  by (simp add: same_slots_def)

lemma same_slots_trans: "same_slots s s' \<Longrightarrow> same_slots s' s'' \<Longrightarrow> same_slots s s''"
  by (simp add: same_slots_def)

lemma work_upd:
  assumes "station_weight st' \<le> station_weight (s_rs s u) + 9"
  shows "(\<Sum>v\<leftarrow>all_units. station_weight (((s_rs s)(u := st')) v)) \<le> work s + 9"
  using assms by (cases u) (simp_all add: work_def all_units_def)

lemma try_dispatch_potential:
  assumes "machine_ok F P base s" and "try_dispatch s = Inr (True, br, s1)"
  shows "potential s1 < potential s \<and> same_slots s s1"
proof -
  have wf: "station_wf (fl_fe F) (s_rs s u)" for u using assms(1) by (simp add: machine_ok_def station_ok_def)
  obtain i where c: "iq_can_dispatch (s_iq s)" "iq_peek (s_iq s) = Inr i"
    using assms(2) by (auto simp: try_dispatch_def split: if_splits)
  obtain tag b where b: "rob_allocate i (s_rob s) = (tag, b)" by fastforce
  show ?thesis
  proof (cases "target_unit (in_op i)")
    case None
    then have nf: "\<not> rob_full (s_rob s)" and s1: "s_rob s1 = b" "s_rs s1 = s_rs s"
      using assms(2) c b by (auto simp: try_dispatch_def Let_def split: if_splits)
    then show ?thesis
      using rob_allocate_counts [OF nf, of i] b by (simp add: potential_def work_def same_slots_def)
  next
    case (Some u)
    then obtain st' ok where nf: "\<not> rob_full (s_rob s)" "\<not> rs_full (s_rs s u)" and s1: "s_rob s1 = b"
      and st': "rs_issue i tag (s_rat s) (s_rf s) b (s_rs s u) = Inr (ok, st')" "s_rs s1 = (s_rs s)(u := st')"
      using assms(2) c b by (auto simp: try_dispatch_def Let_def split: if_splits)
    note w = rs_issue_weight [OF wf nf(2) st'(1)]
    show ?thesis
      using rob_allocate_counts [OF nf(1), of i] b w work_upd [of st' s u] s1 st'(2)
      by (auto simp: potential_def same_slots_def work_def [of s1])
  qed
qed

lemma potential_fields [simp]:
  "potential (s\<lparr>s_branch_in_flight := x\<rparr>) = potential s" "potential (s\<lparr>s_iq := q\<rparr>) = potential s"
  "potential (s\<lparr>s_last := l\<rparr>) = potential s" "potential (s\<lparr>s_cycle := n\<rparr>) = potential s"
  "potential (s\<lparr>s_cdb := c\<rparr>) = potential s"
  by (simp_all add: potential_def work_def)

lemma same_slots_fields [simp]:
  "same_slots s (t\<lparr>s_branch_in_flight := x\<rparr>) = same_slots s t" "same_slots s (t\<lparr>s_iq := q\<rparr>) = same_slots s t"
  "same_slots (s\<lparr>s_iq := q\<rparr>) t = same_slots s t" "same_slots s (t\<lparr>s_last := l\<rparr>) = same_slots s t"
  "same_slots s (t\<lparr>s_cycle := n\<rparr>) = same_slots s t" "same_slots s (t\<lparr>s_cdb := c\<rparr>) = same_slots s t"
  by (simp_all add: same_slots_def)

lemma dispatch_loop_potential:
  assumes "machine_ok F P base s" and "\<not> s_branch_in_flight s" and "dispatch_loop w s = Inr s'"
  shows "same_slots s s' \<and> potential s' \<le> potential s \<and>
     (w \<noteq> 0 \<longrightarrow> try_dispatch s = Inr (True, br, s1) \<longrightarrow> potential s' < potential s)"
  using assms
proof (induction w arbitrary: s F br s1)
  case 0
  then show ?case by simp
next
  case (Suc w)
  obtain issued br' t where td: "try_dispatch s = Inr (issued, br', t)"
    and res: "if issued then (\<exists>i. machine_ok (fl_push i F) P base (redirect_fetch br' 0 t)) \<and>
        s_halted t = s_halted s \<and> s_branch_in_flight t = s_branch_in_flight s else t = s"
    using machine_ok_try_dispatch [OF Suc.prems(1,2), of 0] by (elim returnsE) auto
  show ?case
  proof (cases issued)
    case False
    then show ?thesis using Suc.prems(3) td res by (auto split: if_splits)
  next
    case True
    note t = try_dispatch_potential [OF Suc.prems(1) td [unfolded eqTrueI [OF True]]]
    show ?thesis
    proof (cases br')
      case br: True
      then show ?thesis using Suc.prems(3) td True t by (auto split: if_splits)
    next
      case False
      then obtain i where i: "machine_ok (fl_push i F) P base t" using res True by (auto simp: redirect_fetch_def)
      have "dispatch_loop w t = Inr s'" using Suc.prems(3) td True False by (auto split: if_splits)
      from Suc.IH [OF i _ this] res True Suc.prems(2) t show ?thesis
        using same_slots_trans by fastforce
    qed
  qed
qed

text \<open>With nothing in flight, the next instruction always finds a place.\<close>

lemma try_dispatch_empty:
  assumes "machine_ok F P base s" and "\<not> s_branch_in_flight s" and "fl_ins F = []"
    and "iq_can_dispatch (s_iq s)" and "\<And>u. st_entries (s_rs s u) \<noteq> []"
  obtains br s1 where "try_dispatch s = Inr (True, br, s1)"
proof -
  obtain issued br s1 where td: "try_dispatch s = Inr (issued, br, s1)"
    using machine_ok_try_dispatch [OF assms(1,2), of 0] by (elim returnsE) auto
  have "rob_count (s_rob s) = 0" using machine_ok_length [OF assms(1)] assms(3) by simp
  then have r: "\<not> rob_full (s_rob s)" using assms(1) by (auto simp: rob_full_def machine_ok_def rob_wf_def)
  have "lsb_list (s_lsb s) = []" using assms(1,3) by (simp add: machine_ok_def lsb_ok_def lsb_slots_def)
  then have "lsb_count (s_lsb s) = 0" using length_lsb_list [of "s_lsb s"] by simp
  then have l: "\<not> lsb_full (s_lsb s)" using assms(1) by (auto simp: lsb_full_def machine_ok_def lsb_wf_def)
  have "\<not> rs_full (s_rs s u)" for u
  proof -
    have so: "station_ok F u (s_rs s u)" using assms(1) by (simp add: machine_ok_def)
    then have "\<not> rs_busy (hd (st_entries (s_rs s u)))"
      using assms(3,5) by (auto simp: station_ok_def rs_entry_ok_def)
    moreover have "hd (st_entries (s_rs s u)) \<in> set (st_entries (s_rs s u))" using assms(5) by simp
    moreover have "station_wf (fl_fe F) (s_rs s u)" using so by (simp add: station_ok_def)
    ultimately show ?thesis using rs_full_iff by blast
  qed
  then have issued
    using td r l assms(4) by (auto simp: try_dispatch_def Let_def split: option.splits prod.splits)
  then show thesis using that td by simp
qed

lemma iq_fetch_pc_mono: "iq_pc q \<le> iq_pc (iq_fetch w q)"
  by (induction w q rule: iq_fetch.induct) auto

lemma iq_tick_can_dispatch:
  assumes "iq_wf q" and "iq_window q n" and "n < length (iq_program q)"
  shows "iq_can_dispatch (iq_tick q)"
proof -
  obtain w where w: "IQ_FETCH_WIDTH = Suc w" by (auto simp: IQ_FETCH_WIDTH_def)
  have b: "length (iq_buffer q) = iq_pc q - n" using assms(2) by (simp add: iq_window_def)
  have "n < iq_pc (iq_fetch (Suc w) q)"
    using assms b iq_fetch_pc_mono [of "q\<lparr>iq_buffer := iq_buffer q @ [iq_program q ! iq_pc q], iq_pc := iq_pc q + 1\<rparr>" w]
    by (auto simp: iq_wf_def iq_window_def)
  then show ?thesis
    using iq_tick_window [OF assms(1,2)] w by (simp add: iq_can_dispatch_def iq_window_def iq_tick_def)
qed

lemma iq_window_done:
  "iq_window q n \<Longrightarrow> length (iq_program q) \<le> n \<Longrightarrow> iq_done q \<and> \<not> iq_can_dispatch q"
  by (auto simp: iq_window_def iq_done_def iq_can_dispatch_def)

lemma phase_dispatch_potential:
  assumes m: "machine_ok F P base s" and d: "phase_dispatch s = Inr s'"
  shows "same_slots s s'" and "potential s' \<le> potential s"
    and "\<not> s_halted s \<Longrightarrow> fl_ins F = [] \<Longrightarrow> (\<And>u. st_entries (s_rs s u) \<noteq> []) \<Longrightarrow> base < length P \<Longrightarrow>
      potential s' < potential s"
    and "\<not> s_halted s \<Longrightarrow> fl_ins F = [] \<Longrightarrow> length P \<le> base \<Longrightarrow> sim_drained s'"
proof -
  let ?t = "s\<lparr>s_iq := iq_tick (s_iq s)\<rparr>"
  have loop: "machine_ok F P base ?t" "\<not> s_branch_in_flight ?t" "dispatch_loop IQ_FETCH_WIDTH ?t = Inr s'"
      "iq_wf (s_iq s)" "iq_window (s_iq s) (base + length (fl_ins F))" "iq_program (s_iq s) = P"
      "iq_window (iq_tick (s_iq s)) (base + length (fl_ins F))" "iq_program (iq_tick (s_iq s)) = P"
    if nb: "\<not> s_branch_in_flight s" and h: "\<not> s_halted s"
  proof -
    show iq: "iq_wf (s_iq s)" "iq_window (s_iq s) (base + length (fl_ins F))" "iq_program (s_iq s) = P"
      using m nb by (simp_all add: machine_ok_def)
    show "machine_ok F P base ?t" using m nb iq_tick_window [OF iq(1,2)] by (simp add: machine_ok_def)
    show "iq_window (iq_tick (s_iq s)) (base + length (fl_ins F))" "iq_program (iq_tick (s_iq s)) = P"
      using iq_tick_window [OF iq(1,2)] iq(3) by simp_all
    show "\<not> s_branch_in_flight ?t" "dispatch_loop IQ_FETCH_WIDTH ?t = Inr s'"
      using d nb h by (simp_all add: phase_dispatch_def)
  qed
  have stay: "s' = s" if "s_branch_in_flight s \<or> s_halted s" using d that by (simp add: phase_dispatch_def split: if_splits)
  show "same_slots s s'" "potential s' \<le> potential s"
    using loop stay dispatch_loop_potential [of F P base ?t IQ_FETCH_WIDTH s']
    by (cases "s_branch_in_flight s \<or> s_halted s"; simp)+
  have nb: "\<not> s_branch_in_flight s" if "fl_ins F = []"
    using machine_ok_fetch [OF m] that by (auto split: if_splits)
  show "potential s' < potential s"
    if h: "\<not> s_halted s" and e: "fl_ins F = []" and sl: "\<And>u. st_entries (s_rs s u) \<noteq> []" and b: "base < length P"
  proof -
    note l = loop [OF nb [OF e] h]
    have "iq_can_dispatch (s_iq ?t)" using iq_tick_can_dispatch [OF l(4,5)] l(6) b e by simp
    then obtain br s1 where "try_dispatch ?t = Inr (True, br, s1)"
      using try_dispatch_empty [OF l(1,2) e] sl by auto
    then show ?thesis
      using dispatch_loop_potential [OF l(1-3), of br s1] by (simp add: IQ_FETCH_WIDTH_def)
  qed
  show "sim_drained s'" if h: "\<not> s_halted s" and e: "fl_ins F = []" and b: "length P \<le> base"
  proof -
    note l = loop [OF nb [OF e] h]
    have q: "iq_done (s_iq ?t)" "\<not> iq_can_dispatch (s_iq ?t)"
      using iq_window_done [OF l(7)] l(8) b e by simp_all
    then have "try_dispatch ?t = Inr (False, False, ?t)" by (simp add: try_dispatch_def)
    then have "s' = ?t" using l(3) q(2) by (simp add: IQ_FETCH_WIDTH_def numeral_eq_Suc)
    then show ?thesis
      using q(1) h e machine_ok_length [OF m] by (simp add: sim_drained_def rob_empty_def)
  qed
qed

section \<open>A cycle makes progress\<close>

lemma cu_tick_rob_size:
  assumes "cu_tick c = Inr (x, c')"
  shows "rob_size (cs_rob c') = rob_size (cs_rob c)"
proof -
  have "rob_size (cs_rob c') = rob_size (cs_rob c)" if "cu_retire t e c = Inr (x, c')" for t e c
    using that by (auto simp: cu_retire_def Let_def split: if_splits)
  then show ?thesis
    using assms by (fastforce simp: cu_tick_def rob_commit_def Let_def split: if_splits)
qed

lemma phase_commit_slots:
  assumes "phase_commit s = Inr s'"
  shows "s_rs s' = s_rs s \<and> same_slots s s'"
  using assms cu_tick_rob_size [of "commit_args s"]
  by (auto simp: phase_commit_def commit_args_def commit_results_def Let_def same_slots_def split: if_splits)

lemma phase_snoop_slots: "same_slots s (phase_snoop s)" "potential (phase_snoop s) = potential s"
  "s_rob (phase_snoop s) = s_rob s"
  using phase_snoop_work [of s] same_work_work [OF phase_snoop_work [of s]]
  by (simp_all add: same_work_def same_slots_def potential_def phase_snoop_eq)

lemma unready_head:
  assumes m: "machine_ok G P base s" and "fl_ins G \<noteq> []" and "\<not> rob_head_ready (s_rob s)"
  shows "\<not> rob_settled (s_rob s) (rob_tag_of (s_rob s) 0)"
proof -
  have w: "rob_wf (s_rob s)" "fl_rob G = rob_list (s_rob s)" "flight_ok G" using m by (simp_all add: machine_ok_def)
  have n: "0 < length (fl_ins G)" "0 < rob_count (s_rob s)" using assms(2) machine_ok_length [OF m] by (cases "fl_ins G"; auto)+
  obtain e es where e: "rob_list (s_rob s) = e # es" using n(2) length_rob_list [of "s_rob s"] by (cases "rob_list (s_rob s)") auto
  then have "r_state e \<noteq> ROB_DONE" using assms(3) rob_head_ready_iff [OF w(1)] by simp
  moreover have "r_state e \<noteq> ROB_IDLE" using flight_okD(5) [OF w(3) n(1)] w(2) e by simp
  ultimately have "r_state (rob_list (s_rob s) ! 0) = ROB_IN_FLIGHT" using e by (cases "r_state e") auto
  then show ?thesis using rob_entry_at [OF w(1) n(2)] by (simp add: rob_settled_def)
qed

text \<open>A cycle in which nothing retires lowers the potential, unless everything has drained.\<close>

lemma stalled_cycle:
  assumes m: "machine_ok F P base s" and s2: "phase_stores (phase_execute (fl_fe F) s) = Inr s2"
    and s3: "phase_broadcast s2 = Inr s3" and G: "same_code F G" "machine_ok G P base (phase_snoop s3)"
    and nr: "\<not> rob_head_ready (s_rob s3)" and d: "phase_dispatch ((phase_snoop s3)\<lparr>s_last := l\<rparr>) = Inr s6"
    and h: "\<not> s_halted (phase_snoop s3)" and sl: "\<And>u. st_entries (s_rs s u) \<noteq> []"
  shows "sim_drained s6 \<or> potential s6 < potential s"
proof -
  let ?s5 = "(phase_snoop s3)\<lparr>s_last := l\<rparr>"
  note w = phases_123_work [OF m s2 s3]
  have m5: "machine_ok G P base ?s5" using G(2) by (simp add: machine_ok_def)
  note dp = phase_dispatch_potential [OF m5 d]
  have adv: "rob_size (s_rob s3) = rob_size (s_rob s)" "rob_count (s_rob s3) = rob_count (s_rob s)"
      "rob_tag_of (s_rob s3) = rob_tag_of (s_rob s)"
    using w(1) by (auto simp: rob_advances_def rob_tag_of_def)
  have p5: "potential ?s5 - work s3 = potential s - work s"
    using adv phase_snoop_slots(2) [of s3] by (simp only: potential_fields) (simp add: potential_def)
  have ins: "fl_ins G = fl_ins F" using G(1) by (simp add: same_code_def)
  show ?thesis
  proof (cases "fl_ins F = []")
    case False
    have "fl_tag F = rob_tag_of (s_rob s)" using m by (simp add: machine_ok_def)
    then have "\<not> rob_settled (s_rob s3) (fl_tag F 0)"
      using unready_head [OF G(2)] False ins nr adv(3) by (simp add: phase_snoop_slots(3))
    then have "work s3 < work s" using w(4) False by simp
    then show ?thesis using p5 dp(2) by simp
  next
    case True
    have "st_entries (s_rs ?s5 u) \<noteq> []" for u
    proof -
      have "length (st_entries (s_rs (phase_snoop s3) u)) = length (st_entries (s_rs s u))"
        using phase_snoop_slots(1) [of s3] w(3) [of u] by (simp add: same_slots_def)
      then show ?thesis using sl [of u] by auto
    qed
    then show ?thesis
      using dp(3,4) True ins h p5 w(2) by (cases "base < length P") auto
  qed
qed

lemma phase_end_same [simp]:
  "potential (phase_end s) = potential s" "sim_drained (phase_end s) = sim_drained s" "same_slots t (phase_end s) = same_slots t s"
  by (simp_all add: phase_end_def sim_drained_def)

lemma dispatch_finishes:
  assumes H: "machine_ok H P base s5" "fl_bus H = []" and "\<not> s_halted s5" and s6: "phase_dispatch s5 = Inr s6"
    and "same_slots s s5"
  obtains F' where "cycle_ok F' P base (phase_end s6)" and "grown H F'" and "same_slots s s6"
    and "potential s6 \<le> potential s5"
proof -
  obtain F' where F': "grown H F'" "machine_ok F' P base s6" "s_halted s6 = s_halted s5"
    using machine_ok_dispatch [OF H(1)] s6 by auto
  then have "cycle_ok F' P base (phase_end s6)"
    using assms(3) H(2) by (simp add: cycle_ok_def phase_end_def machine_ok_def grown_def cdb_flush_def)
  moreover have "same_slots s s6" "potential s6 \<le> potential s5"
    using phase_dispatch_potential(1,2) [OF H(1) s6] assms(5) same_slots_trans by auto
  ultimately show thesis using that F'(1) by blast
qed

lemma cycle_progress:
  assumes c: "cycle_ok F P base s" and cyc: "sim_cycle (fl_fe F) s = Inr s'" and nh: "\<not> s_halted s'"
    and sl: "\<And>u. st_entries (s_rs s u) \<noteq> []"
  obtains F' base' where "cycle_ok F' P base' s'" and "fl_fe F' = fl_fe F" and "same_slots s s'"
    and "isa_step P base F F' \<and> potential s' \<le> potential s + 10 \<or>
         isa_idle F F' \<and> (sim_drained s' \<or> potential s' < potential s)"
proof -
  have m: "machine_ok F P base s" using c by (simp add: cycle_ok_def)
  obtain s2 s3 s5 G where s2: "phase_stores (phase_execute (fl_fe F) s) = Inr s2"
    and s3: "phase_broadcast s2 = Inr s3" and s5: "phase_commit (phase_snoop s3) = Inr s5"
    and cy: "sim_cycle (fl_fe F) s = res_bind (phase_dispatch s5) (\<lambda>s6. Inr (phase_end s6))"
    and G: "same_code F G" "fl_bus G = []" "machine_ok G P base (phase_snoop s3)"
    and k: "(\<not> rob_head_ready (s_rob s3) \<and> s5 = (phase_snoop s3)\<lparr>s_last := empty_commit_record\<rparr> \<and>
            \<not> s_halted s5 \<and> machine_ok G P base s5) \<or>
         (fl_ins F \<noteq> [] \<and> op_at F 0 \<noteq> Op_HALT \<and> \<not> s_halted s5 \<and> (\<exists>base'. machine_ok (fl_shift G) P base' s5)) \<or>
         (s_halted s5 \<and> halts_with P base F s5)"
    using sim_cycle_phases [OF c] .
  obtain s6 where s6: "phase_dispatch s5 = Inr s6" "s' = phase_end s6" using cyc cy by auto
  have h5: "\<not> s_halted s5" using nh s6 by (auto simp: phase_dispatch_def phase_end_def split: if_splits)
  note w = phases_123_work [OF m s2 s3]
  have "same_slots s s3" using w(1,3) by (simp add: same_slots_def rob_advances_def)
  then have sl5: "same_slots s s5"
    using phase_snoop_slots(1) [of s3] phase_commit_slots [OF s5] same_slots_trans by blast
  note fin = dispatch_finishes [OF _ _ h5 s6(1) sl5]
  show thesis
  proof (cases "s5 = (phase_snoop s3)\<lparr>s_last := empty_commit_record\<rparr> \<and> \<not> rob_head_ready (s_rob s3)")
    case True
    then have H: "machine_ok G P base s5" using G(3) by (simp add: machine_ok_def)
    obtain F' where F': "cycle_ok F' P base s'" "grown G F'" "same_slots s s'" using fin [OF H G(2)] s6(2) by auto
    have "sim_drained s6 \<or> potential s6 < potential s"
      using stalled_cycle [OF m s2 s3 G(1,3)] True s6(1) h5 sl by simp
    then show thesis
      using that [OF F'(1) _ F'(3)] F'(2) G(1) by (simp add: s6(2) grown_def same_code_def isa_idle_def)
  next
    case False
    then obtain base' where r: "fl_ins F \<noteq> []" "op_at F 0 \<noteq> Op_HALT" "machine_ok (fl_shift G) P base' s5"
      using k h5 by auto
    have ins: "fl_ins G = fl_ins F" using G(1) by (simp add: same_code_def)
    obtain F' where F': "cycle_ok F' P base' s'" "grown (fl_shift G) F'" "same_slots s s'" "potential s' \<le> potential s5"
      using fin [OF r(3)] G(2) s6(2) by auto
    have "isa_step P base G (fl_shift G)" using commit_advance [OF G(3)] r(1,2) ins by simp
    then have "isa_step P base F F'" "fl_fe F' = fl_fe F"
      using G(1) F'(2) by (simp_all add: isa_step_def same_code_def grown_def)
    moreover have "potential s5 \<le> potential s + 10"
    proof -
      have "int (rob_count (s_rob s5)) + 1 = int (rob_count (s_rob s))"
        using machine_ok_length [OF r(3)] machine_ok_length [OF m] ins r(1) by (cases "fl_ins F") auto
      moreover have "work s5 = work s3"
        using phase_commit_slots [OF s5] same_work_work [OF phase_snoop_work [of s3]] by (simp add: work_def)
      ultimately show ?thesis using sl5 w(2) by (simp add: potential_def same_slots_def)
    qed
    ultimately show thesis using that [OF F'(1) _ F'(3)] F'(4) by simp
  qed
qed

section \<open>The clock loop ends\<close>

lemma potential_nonneg: "machine_ok F P base s \<Longrightarrow> 0 \<le> potential s"
  using work_nonneg [of s] by (simp add: potential_def machine_ok_def rob_wf_def)

lemma same_slots_nonempty: "same_slots s s' \<Longrightarrow> (st_entries (s_rs s' u) \<noteq> []) = (st_entries (s_rs s u) \<noteq> [])"
  by (metis same_slots_def length_0_conv)

text \<open>A bound on the cycles left, for a sequential run of \<open>n\<close> more instructions.\<close>

lemma sim_loop_total:
  assumes "isa_safe fe P" and "cycle_ok F P base s" and "fl_fe F = fe" and "fl_good F"
    and "isa_run fe P m isa_init = Some (fl_arch F)"
    and "isa_run fe P n (fl_arch F) = Some b" and "isa_stopped P b"
    and "\<And>u. st_entries (s_rs s u) \<noteq> []" and "s_cycle s + potential s + 11 * int n \<le> MAX_CYCLES"
  shows "returns (sim_loop fe s) (\<lambda>s'. (s_halted s' \<or> sim_drained s') \<and>
     s_cycle s' \<le> s_cycle s + potential s + 11 * int n + 1)"
  using assms(2-)
proof (induction "nat (potential s + 11 * int n)" arbitrary: s F base n m rule: less_induct)
  case less
  have m: "machine_ok F P base s" and h: "\<not> s_halted s" using less.prems(1) by (simp_all add: cycle_ok_def)
  have pc: "ar_pc (fl_arch F) = base" using m less.prems(3) by (simp add: machine_ok_def)
  have cont: "\<not> (s_halted s \<or> MAX_CYCLES < s_cycle s)"
    using less.prems(8) potential_nonneg [OF m] h by simp
  obtain s' where cyc: "sim_cycle fe s = Inr s'"
    using sim_cycle_step [OF less.prems(1)] less.prems(2) by (elim returnsE) simp
  have s'c: "s_cycle s' = s_cycle s + 1" by (rule sim_cycle_counts [OF cyc])
  consider (halt) "s_halted s'" | (drained) "sim_drained s'" | (go) "\<not> s_halted s'" "\<not> sim_drained s'" by blast
  then show ?case
  proof cases
    case halt
    then have "sim_loop fe s' = Inr s'" by (simp add: sim_loop.simps)
    then have "sim_loop fe s = Inr s'" using cont cyc by (subst sim_loop.simps) simp
    then show ?thesis using halt s'c potential_nonneg [OF m] by simp
  next
    case drained
    then have "sim_loop fe s = Inr s'" using cont cyc by (subst sim_loop.simps) simp
    then show ?thesis using drained s'c potential_nonneg [OF m] by simp
  next
    case go
    obtain F' base' where F': "cycle_ok F' P base' s'" "fl_fe F' = fl_fe F" "same_slots s s'"
      and prog: "isa_step P base F F' \<and> potential s' \<le> potential s + 10 \<or>
         isa_idle F F' \<and> (sim_drained s' \<or> potential s' < potential s)"
      using cycle_progress [OF less.prems(1) _ go(1) less.prems(7)] cyc less.prems(2) by auto
    have p': "0 \<le> potential s'" using F'(1) potential_nonneg by (auto simp: cycle_ok_def)
    have adv: "isa_advance P base F F'" using prog F'(2) by (auto simp: isa_advance_def)
    obtain m' where g: "fl_good F'" "isa_run fe P m' isa_init = Some (fl_arch F')"
      using isa_advance_run [OF adv assms(1) less.prems(2,3) pc less.prems(4)] by blast
    obtain n' where n': "isa_run fe P n' (fl_arch F') = Some b"
        "potential s' + 11 * int n' < potential s + 11 * int n"
    proof (cases "isa_step P base F F' \<and> potential s' \<le> potential s + 10")
      case True
      then have "\<not> isa_stopped P (fl_arch F)" using pc by (simp add: isa_step_def isa_stopped_def)
      then obtain k where "n = Suc k" "isa_run fe P k (isa_exec fe (P ! base) (fl_arch F)) = Some b"
        using less.prems(5,6) pc by (cases n) auto
      then show thesis using that [of k] True less.prems(2) by (simp add: isa_step_def)
    next
      case False
      then show thesis using that [of n] prog go(2) less.prems(5) by (auto simp: isa_idle_def)
    qed
    have "returns (sim_loop fe s') (\<lambda>t. (s_halted t \<or> sim_drained t) \<and>
       s_cycle t \<le> s_cycle s' + potential s' + 11 * int n' + 1)"
      using n' p' F' g less.prems(2,6-8) s'c same_slots_nonempty [OF F'(3)]
      by (intro less.hyps) auto
    then show ?thesis
      using cont cyc go n'(2) s'c by (subst sim_loop.simps) (elim returnsE, auto)
  qed
qed

lemma sim_init_potential:
  assumes "sim_init prog = Inr s"
  shows "s_cycle s = 1" and "potential s = 10 * ROB_SIZE" and "st_entries (s_rs s u) \<noteq> []"
proof -
  have w: "station_weight (new_station n) = 0" for n
    by (simp add: station_weight_def new_station_def rs_weight_empty sum_list_replicate)
  show "s_cycle s = 1" using assms by (auto simp: sim_init_def)
  show "potential s = 10 * ROB_SIZE"
    using assms w by (auto simp: sim_init_def potential_def work_def all_units_def new_rob_def ROB_SIZE_def)
  have "0 < unit_size u"
    by (cases u) (simp_all add: unit_size_def RS_ALU_SIZE_def RS_BRANCH_SIZE_def RS_FP_ADDSUB_SIZE_def
        RS_FP_MUL_SIZE_def RS_FP_DIV_SIZE_def RS_FP_CVT_SIZE_def)
  then show "st_entries (s_rs s u) \<noteq> []"
    using assms by (auto simp: sim_init_def new_station_def)
qed

text \<open>The whole of \<open>main\<close> on a program whose sequential run stops.\<close>

lemma sim_main_total:
  assumes "wf_program prog" and "prog \<noteq> []" and "isa_safe fe (program_of prog)"
    and "isa_run fe (program_of prog) n isa_init = Some b" and "isa_stopped (program_of prog) b"
    and "10 * ROB_SIZE + 11 * int n < MAX_CYCLES"
  shows "\<exists>s. sim_main fe prog = Some (Inr s) \<and> (s_halted s \<or> sim_drained s) \<and>
     s_cycle s \<le> 10 * ROB_SIZE + 11 * int n + 2 \<and> s_rf s = ar_rf b \<and> s_mem s = ar_mem b \<and>
     (s_halted s \<longleftrightarrow> ar_pc b < length (program_of prog))"
proof -
  let ?P = "program_of prog"
  obtain s0 F where s0: "sim_init prog = Inr s0" and F: "cycle_ok F ?P 0 s0" "fl_fe F = fe" "fl_good F"
      "fl_arch F = isa_init"
    using sim_init_ok [OF assms(1), of fe True] by metis
  have r0: "sim_reach fe prog s0" using s0 by (rule reach_init)
  have i: "s_cycle s0 = 1" "potential s0 = 10 * ROB_SIZE" "\<And>u. st_entries (s_rs s0 u) \<noteq> []"
    using sim_init_potential [OF s0] by simp_all
  obtain s where s: "sim_loop fe s0 = Inr s" "s_halted s \<or> sim_drained s" "s_cycle s \<le> 10 * ROB_SIZE + 11 * int n + 2"
    using sim_loop_total [OF assms(3) F(1-3), of 0 n b] F(4) assms(4-6) i by (auto elim!: returnsE)
  have r: "sim_reach fe prog s" using sim_loop_returns [OF assms(1) r0] s(1) by simp
  obtain m a where a: "isa_run fe ?P m isa_init = Some a" "s_rf s = ar_rf a" "s_mem s = ar_mem a"
    and h: "s_halted s \<longrightarrow> ar_pc a < length ?P \<and> in_op (?P ! ar_pc a) = Op_HALT"
    and d: "sim_drained s \<longrightarrow> length ?P \<le> ar_pc a"
    using reach_ok_committed [OF sim_reach_ok [OF r assms(1), of True]] assms(3) by blast
  have "isa_stopped ?P a" using s(2) h d by (auto simp: isa_stopped_def)
  then have "a = b" using isa_run_stop_unique [OF a(1) assms(4) _ assms(5)] by simp
  moreover have "sim_main fe prog = Some (Inr s)" using s0 s(1) assms(2) by (simp add: sim_main_def)
  ultimately show ?thesis using s(2,3) a h d by auto
qed

section \<open>No cycle is lost\<close>

lemma phase_commit_valid:
  assumes "rob_wf (s_rob s)" and "rob_head_ready (s_rob s)" and "phase_commit s = Inr s'"
  shows "cr_valid (s_last s')"
proof -
  have keep: "cs_last c' = cs_last c" if "cu_retire t e c = Inr (x, c')" for t e c x c'
    using that by (auto simp: cu_retire_def Let_def split: if_splits)
  obtain e es where "rob_list (cs_rob (commit_args s)) = e # es" "r_state e = ROB_DONE"
    using assms(2) rob_head_ready_iff [OF assms(1)] by (auto simp: commit_args_def)
  then obtain t b' where t: "cu_tick (commit_args s) = cu_retire t e ((commit_args s)\<lparr>cs_rob := b', cs_last := record_of e\<rparr>)"
    using cu_tick_head [of "commit_args s" e es] assms(1) by (metis commit_state.select_convs(2) commit_args_def)
  obtain x c' where c': "cu_tick (commit_args s) = Inr (x, c')" and "s_last s' = cs_last c'"
    using assms(3) by (auto simp: phase_commit_def commit_results_def Let_def split: if_splits)
  moreover have "cs_last c' = record_of e" using keep [of t e _ x c'] t c'(1) by simp
  ultimately show ?thesis by (simp add: record_of_def)
qed

lemma phase_dispatch_last: "phase_dispatch s = Inr s' \<Longrightarrow> s_last s' = s_last s"
proof -
  have td: "s_last t = s_last s" if "try_dispatch s = Inr (i, b, t)" for i b s t
    using that by (auto simp: try_dispatch_def Let_def split: if_splits option.splits prod.splits)
  have "dispatch_loop w s = Inr s' \<Longrightarrow> s_last s' = s_last s" for w s
    by (induction w s rule: dispatch_loop.induct) (auto dest: td split: if_splits prod.splits)
  then show "phase_dispatch s = Inr s' \<Longrightarrow> s_last s' = s_last s"
    by (auto simp: phase_dispatch_def split: if_splits)
qed

lemma cycle_commits:
  assumes c: "cycle_ok F P base s" and cyc: "sim_cycle (fl_fe F) s = Inr s'" and nh: "\<not> s_halted s'"
    and sl: "\<And>u. st_entries (s_rs s u) \<noteq> []"
  shows "sim_drained s' \<or> cr_valid (s_last s') \<or> potential s' < potential s"
proof -
  have m: "machine_ok F P base s" using c by (simp add: cycle_ok_def)
  obtain s2 s3 s5 G where s2: "phase_stores (phase_execute (fl_fe F) s) = Inr s2"
    and s3: "phase_broadcast s2 = Inr s3" and s5: "phase_commit (phase_snoop s3) = Inr s5"
    and cy: "sim_cycle (fl_fe F) s = res_bind (phase_dispatch s5) (\<lambda>s6. Inr (phase_end s6))"
    and G: "same_code F G" "machine_ok G P base (phase_snoop s3)"
    using sim_cycle_phases [OF c] by metis
  obtain s6 where s6: "phase_dispatch s5 = Inr s6" "s' = phase_end s6" using cyc cy by auto
  have end6: "potential s' = potential s6" "sim_drained s' = sim_drained s6" "s_last s' = s_last s6"
    by (simp_all add: s6(2) phase_end_def sim_drained_def)
  show ?thesis
  proof (cases "rob_head_ready (s_rob (phase_snoop s3))")
    case True
    have "rob_wf (s_rob (phase_snoop s3))" using G(2) by (simp add: machine_ok_def)
    from phase_commit_valid [OF this True s5] show ?thesis using phase_dispatch_last [OF s6(1)] end6 by simp
  next
    case False
    then have e5: "s5 = (phase_snoop s3)\<lparr>s_last := empty_commit_record\<rparr>"
      using cu_tick_idle [of "commit_args (phase_snoop s3)"] s5
      by (cases "phase_snoop s3") (auto simp: phase_commit_def commit_args_def commit_results_def)
    have h: "\<not> s_halted (phase_snoop s3)"
      using nh s6 e5 by (auto simp: phase_dispatch_def phase_end_def split: if_splits)
    have "sim_drained s6 \<or> potential s6 < potential s"
      using False s6(1) e5 by (intro stalled_cycle [OF m s2 s3 G _ _ h sl]) (simp_all add: phase_snoop_slots)
    then show ?thesis by (auto simp: end6)
  qed
qed

lemma sim_reach_slots: "sim_reach fe prog s \<Longrightarrow> wf_program prog \<Longrightarrow> s_halted s \<or> (\<forall>u. st_entries (s_rs s u) \<noteq> [])"
proof (induction rule: sim_reach.induct)
  case (reach_init s)
  then show ?case by (simp add: sim_init_potential(3))
next
  case (reach_cycle s s')
  have "reach_ok fe (program_of prog) False s" by (rule sim_reach_ok [OF reach_cycle.hyps(1) reach_cycle.prems]) simp
  then obtain F base where F: "cycle_ok F (program_of prog) base s" "fl_fe F = fe"
    using reach_cycle.hyps(2) by (auto simp: reach_ok_def)
  have sl: "\<And>u. st_entries (s_rs s u) \<noteq> []" using reach_cycle.IH [OF reach_cycle.prems] reach_cycle.hyps(2) by simp
  show ?case
  proof (cases "s_halted s'")
    case False
    have cyc: "sim_cycle (fl_fe F) s = Inr s'" using reach_cycle.hyps(3) F(2) by simp
    obtain F' base' where "same_slots s s'" using cycle_progress [OF F(1) cyc False sl] .
    then show ?thesis using sl same_slots_nonempty by blast
  qed simp
qed

end
