(* ===== verification/Parser.thy ===== *)
theory Parser
  imports Instruction
begin

text \<open>
  The text half of \<open>sim.cpp\<close>: \<open>tokenize\<close>, \<open>preg\<close>, \<open>parse_mem\<close>, \<open>branch_offset\<close> and the two-pass
  assembly parser \<open>parse_program\<close>. A file is its text; \<open>None\<close> is a file that cannot be opened. What
  the code uses of the C++ library is written out: \<open>getline\<close>, extraction of words from a stream,
  \<open>find\<close>, \<open>std::stoi\<close> and \<open>std::stoul\<close> (with a 64-bit \<open>unsigned long\<close>). An exception these raise is
  not caught by \<open>main\<close> and ends the process (\<open>Bad_number\<close>); a token that is missing is an unchecked
  vector access (\<open>Out_of_bounds\<close>).
\<close>

section \<open>The library functions the parser calls\<close>

definition is_space :: "char \<Rightarrow> bool" where
  "is_space c \<longleftrightarrow> c = CHR '' '' \<or> (9 \<le> (of_char c :: nat) \<and> (of_char c :: nat) \<le> 13)"

text \<open>The value of a digit; 99 for a character that is none in any base.\<close>

definition digit_value :: "char \<Rightarrow> nat" where
  "digit_value c =
     (let n = of_char c in
      if 48 \<le> n \<and> n \<le> 57 then n - 48
      else if 97 \<le> n \<and> n \<le> 122 then n - 87
      else if 65 \<le> n \<and> n \<le> 90 then n - 55
      else 99)"

definition digits_value :: "nat \<Rightarrow> string \<Rightarrow> int" where
  "digits_value base ds = foldl (\<lambda>acc c. acc * int base + int (digit_value c)) 0 ds"

text \<open>An optional sign, then the longest run of digits; what follows is ignored.\<close>

definition split_sign :: "string \<Rightarrow> bool \<times> string" where
  "split_sign s = (case s of [] \<Rightarrow> (False, s)
     | c # r \<Rightarrow> if c = CHR ''-'' then (True, r) else if c = CHR ''+'' then (False, r) else (False, s))"

definition leading_digits :: "nat \<Rightarrow> string \<Rightarrow> string" where
  "leading_digits base s = takeWhile (\<lambda>c. digit_value c < base) s"

definition stoi :: "string \<Rightarrow> int res" where
  "stoi s =
     (let (neg, r) = split_sign (dropWhile is_space s);
          ds = leading_digits 10 r;
          v = (if neg then - digits_value 10 ds else digits_value 10 ds)
      in if ds = [] then Inl Bad_number
         else if v < - (2 ^ 31) \<or> 2 ^ 31 - 1 < v then Inl Bad_number
         else Inr v)"

text \<open>Base 0: \<open>0x\<close> starts a hexadecimal number, \<open>0\<close> an octal one.\<close>

definition detect_base :: "string \<Rightarrow> nat \<times> string" where
  "detect_base s =
     (case s of c # x # d # r \<Rightarrow>
         if c = CHR ''0'' \<and> (x = CHR ''x'' \<or> x = CHR ''X'') \<and> digit_value d < 16 then (16, d # r)
         else if c = CHR ''0'' then (8, s) else (10, s)
      | c # _ \<Rightarrow> if c = CHR ''0'' then (8, s) else (10, s)
      | [] \<Rightarrow> (10, s))"

definition stoul_base0 :: "string \<Rightarrow> 64 word res" where
  "stoul_base0 s =
     (let (neg, r) = split_sign (dropWhile is_space s);
          (base, r') = detect_base r;
          ds = leading_digits base r';
          v = digits_value base ds
      in if ds = [] then Inl Bad_number
         else if 2 ^ 64 \<le> v then Inl Bad_number
         else Inr (if neg then - word_of_int v else word_of_int v))"

text \<open>\<open>find\<close> of a character: the first position, or nothing (\<open>npos\<close>).\<close>

fun str_find :: "char \<Rightarrow> string \<Rightarrow> nat option" where
  "str_find c [] = None"
| "str_find c (x # xs) = (if x = c then Some 0 else map_option Suc (str_find c xs))"

text \<open>\<open>while (iss >> t)\<close>.\<close>

function stream_words :: "string \<Rightarrow> string list" where
  "stream_words s =
     (let r = dropWhile is_space s in
      if r = [] then []
      else takeWhile (\<lambda>c. \<not> is_space c) r # stream_words (dropWhile (\<lambda>c. \<not> is_space c) r))"
  by pat_completeness auto
termination
proof (relation "measure length")
  fix s r :: string
  assume r: "r = dropWhile is_space s" and ne: "r \<noteq> []"
  then have "\<not> is_space (hd r)" using hd_dropWhile by blast
  then have "length (dropWhile (\<lambda>c. \<not> is_space c) r) < length r"
    using ne by (cases r) (simp_all add: length_dropWhile_le le_imp_less_Suc)
  also have "length r \<le> length s" by (simp add: r length_dropWhile_le)
  finally show "(dropWhile (\<lambda>c. \<not> is_space c) r, s) \<in> measure length" by simp
qed simp

declare stream_words.simps [simp del]

text \<open>\<open>while (std::getline(f, line))\<close>: a last line without a newline counts when it is not empty.\<close>

definition newline :: char where "newline = CHR 0x0A"

function getlines :: "string \<Rightarrow> string list" where
  "getlines s =
     (if s = [] then []
      else takeWhile (\<lambda>c. c \<noteq> newline) s # getlines (tl (dropWhile (\<lambda>c. c \<noteq> newline) s)))"
  by pat_completeness auto
termination
proof (relation "measure length")
  fix s :: string
  assume "s \<noteq> []"
  then have "length (tl (dropWhile (\<lambda>c. c \<noteq> newline) s)) < length s"
    using length_dropWhile_le [of "\<lambda>c. c \<noteq> newline" s] by (cases s) (auto simp: le_imp_less_Suc)
  then show "(tl (dropWhile (\<lambda>c. c \<noteq> newline) s), s) \<in> measure length" by simp
qed simp

declare getlines.simps [simp del]

section \<open>Text helpers\<close>

definition tokenize :: "string \<Rightarrow> string list" where
  "tokenize line = stream_words (map (\<lambda>c. if c = CHR '','' then CHR '' '' else c)
     (takeWhile (\<lambda>c. c \<noteq> CHR ''#'') line))"

text \<open>\<open>substr(1)\<close> of the empty string raises an exception too.\<close>

definition preg :: "string \<Rightarrow> int res" where
  "preg s = (if s = [] then Inl Bad_number else stoi (tl s))"

text \<open>Without a parenthesis \<open>lp\<close> is \<open>npos\<close>, \<open>lp + 1\<close> wraps to 0 and both substrings are the whole
  operand; without a closing one the register extends to the end.\<close>

definition parse_mem :: "string \<Rightarrow> (i32 \<times> int) res" where
  "parse_mem s =
     (let (disp, reg) =
        (case str_find (CHR ''('') s of
           None \<Rightarrow> (s, s)
         | Some lp \<Rightarrow> (take lp s,
             (case str_find (CHR '')'') (drop lp s) of
                None \<Rightarrow> drop (lp + 1) s
              | Some k \<Rightarrow> take (k - 1) (drop (lp + 1) s))))
      in res_bind (stoi disp) (\<lambda>imm.
         res_bind (preg reg) (\<lambda>base. Inr (word_of_int imm, base))))"

definition branch_offset :: "string \<Rightarrow> (string \<rightharpoonup> int) \<Rightarrow> u32 \<Rightarrow> i32" where
  "branch_offset s labels cur_pc =
     (case stoi s of
        Inr v \<Rightarrow> word_of_int v
      | Inl _ \<Rightarrow> (case labels s of
          None \<Rightarrow> 0
        | Some a \<Rightarrow> word_of_int (a - sint cur_pc)))"

section \<open>Decoding a line\<close>

definition tok :: "string list \<Rightarrow> nat \<Rightarrow> string res" where
  "tok toks k = (if k < length toks then Inr (toks ! k) else Inl Out_of_bounds)"

definition reg_tok :: "string list \<Rightarrow> nat \<Rightarrow> int res" where
  "reg_tok toks k = res_bind (tok toks k) preg"

definition imm_tok :: "string list \<Rightarrow> nat \<Rightarrow> i32 res" where
  "imm_tok toks k = res_bind (tok toks k) (\<lambda>t. res_bind (stoi t) (\<lambda>v. Inr (word_of_int v)))"

text \<open>The operand shapes the branches of the mnemonic cascade share: the opcode and the flags are
  set in the instruction they are given.\<close>

definition dec_rrr :: "string list \<Rightarrow> instruction \<Rightarrow> instruction res" where
  "dec_rrr toks i = res_bind (reg_tok toks 1) (\<lambda>rd. res_bind (reg_tok toks 2) (\<lambda>rs1.
     res_bind (reg_tok toks 3) (\<lambda>rs2. Inr (i\<lparr>in_rd := rd, in_rs1 := rs1, in_rs2 := rs2\<rparr>))))"

definition dec_rri :: "string list \<Rightarrow> instruction \<Rightarrow> instruction res" where
  "dec_rri toks i = res_bind (reg_tok toks 1) (\<lambda>rd. res_bind (reg_tok toks 2) (\<lambda>rs1.
     res_bind (imm_tok toks 3) (\<lambda>imm. Inr (i\<lparr>in_rd := rd, in_rs1 := rs1, in_imm := imm\<rparr>))))"

definition dec_rr :: "string list \<Rightarrow> instruction \<Rightarrow> instruction res" where
  "dec_rr toks i = res_bind (reg_tok toks 1) (\<lambda>rd. res_bind (reg_tok toks 2) (\<lambda>rs1.
     Inr (i\<lparr>in_rd := rd, in_rs1 := rs1\<rparr>)))"

definition dec_mem :: "string list \<Rightarrow> instruction \<Rightarrow> instruction res" where
  "dec_mem toks i = res_bind (tok toks 2) (\<lambda>t. res_bind (parse_mem t) (\<lambda>(imm, base).
     Inr (i\<lparr>in_imm := imm, in_rs1 := base\<rparr>)))"

definition dec_load :: "string list \<Rightarrow> instruction \<Rightarrow> instruction res" where
  "dec_load toks i = res_bind (reg_tok toks 1) (\<lambda>rd. dec_mem toks (i\<lparr>in_rd := rd\<rparr>))"

definition dec_store :: "string list \<Rightarrow> instruction \<Rightarrow> instruction res" where
  "dec_store toks i = res_bind (reg_tok toks 1) (\<lambda>rs2. dec_mem toks (i\<lparr>in_rs2 := rs2\<rparr>))"

definition dec_branch :: "(string \<rightharpoonup> int) \<Rightarrow> string list \<Rightarrow> instruction \<Rightarrow> instruction res" where
  "dec_branch labels toks i = res_bind (reg_tok toks 1) (\<lambda>rs1. res_bind (reg_tok toks 2) (\<lambda>rs2.
     res_bind (tok toks 3) (\<lambda>t. Inr (i\<lparr>in_rs1 := rs1, in_rs2 := rs2,
       in_imm := branch_offset t labels (in_pc i)\<rparr>))))"

definition dec_lui :: "string list \<Rightarrow> instruction \<Rightarrow> instruction res" where
  "dec_lui toks i = res_bind (reg_tok toks 1) (\<lambda>rd. res_bind (tok toks 2) (\<lambda>t.
     res_bind (stoul_base0 t) (\<lambda>v. Inr (i\<lparr>in_rd := rd, in_imm := ucast v\<rparr>))))"

definition dec_jal :: "(string \<rightharpoonup> int) \<Rightarrow> string list \<Rightarrow> instruction \<Rightarrow> instruction res" where
  "dec_jal labels toks i = res_bind (reg_tok toks 1) (\<lambda>rd. res_bind (tok toks 2) (\<lambda>t.
     Inr (i\<lparr>in_rd := rd, in_imm := branch_offset t labels (in_pc i)\<rparr>)))"

definition dec_jalr :: "string list \<Rightarrow> instruction \<Rightarrow> instruction res" where
  "dec_jalr toks i = res_bind (reg_tok toks 1) (\<lambda>rd. res_bind (tok toks 2) (\<lambda>t.
     if str_find (CHR ''('') t \<noteq> None then dec_mem toks (i\<lparr>in_rd := rd\<rparr>)
     else res_bind (reg_tok toks 2) (\<lambda>rs1. res_bind (imm_tok toks 3) (\<lambda>imm.
            Inr (i\<lparr>in_rd := rd, in_rs1 := rs1, in_imm := imm\<rparr>)))))"

text \<open>The cascade; a mnemonic it does not know is reported and leaves a \<open>NOP\<close>.\<close>

definition decode :: "(string \<rightharpoonup> int) \<Rightarrow> int \<Rightarrow> string list \<Rightarrow> instruction res" where
  "decode labels wpc toks =
     (let i = default_instruction\<lparr>in_pc := word_of_int (wpc * 4)\<rparr>; op = hd toks in
      if op = ''ADD'' then dec_rrr toks (i\<lparr>in_op := Op_ADD\<rparr>)
      else if op = ''SUB'' then dec_rrr toks (i\<lparr>in_op := Op_SUB\<rparr>)
      else if op = ''AND'' then dec_rrr toks (i\<lparr>in_op := Op_AND\<rparr>)
      else if op = ''OR'' then dec_rrr toks (i\<lparr>in_op := Op_OR\<rparr>)
      else if op = ''XOR'' then dec_rrr toks (i\<lparr>in_op := Op_XOR\<rparr>)
      else if op = ''SLL'' then dec_rrr toks (i\<lparr>in_op := Op_SLL\<rparr>)
      else if op = ''SRL'' then dec_rrr toks (i\<lparr>in_op := Op_SRL\<rparr>)
      else if op = ''SRA'' then dec_rrr toks (i\<lparr>in_op := Op_SRA\<rparr>)
      else if op = ''ADDI'' then dec_rri toks (i\<lparr>in_op := Op_ADDI\<rparr>)
      else if op = ''LUI'' then dec_lui toks (i\<lparr>in_op := Op_LUI\<rparr>)
      else if op = ''ANDI'' then dec_rri toks (i\<lparr>in_op := Op_ANDI\<rparr>)
      else if op = ''ORI'' then dec_rri toks (i\<lparr>in_op := Op_ORI\<rparr>)
      else if op = ''XORI'' then dec_rri toks (i\<lparr>in_op := Op_XORI\<rparr>)
      else if op = ''SLLI'' then dec_rri toks (i\<lparr>in_op := Op_SLLI\<rparr>)
      else if op = ''SRLI'' then dec_rri toks (i\<lparr>in_op := Op_SRLI\<rparr>)
      else if op = ''LW'' then dec_load toks (i\<lparr>in_op := Op_LW\<rparr>)
      else if op = ''FLW'' then dec_load toks (i\<lparr>in_op := Op_FLW, in_rd_fp := True\<rparr>)
      else if op = ''SW'' then dec_store toks (i\<lparr>in_op := Op_SW\<rparr>)
      else if op = ''FSW'' then dec_store toks (i\<lparr>in_op := Op_FSW, in_rs2_fp := True\<rparr>)
      else if op = ''BEQ'' then dec_branch labels toks (i\<lparr>in_op := Op_BEQ\<rparr>)
      else if op = ''BNE'' then dec_branch labels toks (i\<lparr>in_op := Op_BNE\<rparr>)
      else if op = ''BLT'' then dec_branch labels toks (i\<lparr>in_op := Op_BLT\<rparr>)
      else if op = ''BGE'' then dec_branch labels toks (i\<lparr>in_op := Op_BGE\<rparr>)
      else if op = ''JAL'' then dec_jal labels toks (i\<lparr>in_op := Op_JAL\<rparr>)
      else if op = ''JALR'' then dec_jalr toks (i\<lparr>in_op := Op_JALR\<rparr>)
      else if op = ''FADD.S'' then dec_rrr toks (i\<lparr>in_op := Op_FADD_S, in_rd_fp := True, in_rs1_fp := True, in_rs2_fp := True\<rparr>)
      else if op = ''FSUB.S'' then dec_rrr toks (i\<lparr>in_op := Op_FSUB_S, in_rd_fp := True, in_rs1_fp := True, in_rs2_fp := True\<rparr>)
      else if op = ''FMUL.S'' then dec_rrr toks (i\<lparr>in_op := Op_FMUL_S, in_rd_fp := True, in_rs1_fp := True, in_rs2_fp := True\<rparr>)
      else if op = ''FDIV.S'' then dec_rrr toks (i\<lparr>in_op := Op_FDIV_S, in_rd_fp := True, in_rs1_fp := True, in_rs2_fp := True\<rparr>)
      else if op = ''FCVT.W.S'' then dec_rr toks (i\<lparr>in_op := Op_FCVT_W_S, in_rs1_fp := True\<rparr>)
      else if op = ''FCVT.S.W'' then dec_rr toks (i\<lparr>in_op := Op_FCVT_S_W, in_rd_fp := True\<rparr>)
      else if op = ''NOP'' then Inr (i\<lparr>in_op := Op_NOP\<rparr>)
      else if op = ''HALT'' then Inr (i\<lparr>in_op := Op_HALT\<rparr>)
      else Inr i)"

section \<open>The two passes\<close>

definition is_label :: "string list \<Rightarrow> bool" where
  "is_label toks \<longleftrightarrow> last (hd toks) = CHR '':''"

text \<open>First pass: label names to byte addresses; a later definition of a name replaces an earlier
  one.\<close>

fun label_pass :: "string list \<Rightarrow> (string \<rightharpoonup> int) \<Rightarrow> int \<Rightarrow> (string \<rightharpoonup> int)" where
  "label_pass [] labels wpc = labels"
| "label_pass (l # raw) labels wpc =
     (let toks = tokenize l in
      if toks = [] then label_pass raw labels wpc
      else if is_label toks then label_pass raw (labels(butlast (hd toks) \<mapsto> wpc * 4)) wpc
      else label_pass raw labels (wpc + 1))"

text \<open>Second pass.\<close>

fun decode_pass :: "(string \<rightharpoonup> int) \<Rightarrow> string list \<Rightarrow> int \<Rightarrow> instruction list res" where
  "decode_pass labels [] wpc = Inr []"
| "decode_pass labels (l # raw) wpc =
     (let toks = tokenize l in
      if toks = [] \<or> is_label toks then decode_pass labels raw wpc
      else res_bind (decode labels wpc toks) (\<lambda>i.
           res_bind (decode_pass labels raw (wpc + 1)) (\<lambda>prog. Inr (i # prog))))"

definition parse_program :: "string option \<Rightarrow> instruction list res" where
  "parse_program file =
     (case file of
        None \<Rightarrow> Inr []
      | Some text \<Rightarrow> let raw = getlines text in decode_pass (label_pass raw Map.empty 0) raw 0)"

section \<open>Lines\<close>

lemmas dec_defs = dec_rrr_def dec_rri_def dec_rr_def dec_mem_def dec_load_def dec_store_def
  dec_branch_def dec_lui_def dec_jal_def dec_jalr_def

text \<open>A line that holds an instruction, and how many of them a list of lines has.\<close>

definition is_instr_line :: "string \<Rightarrow> bool" where
  "is_instr_line l \<longleftrightarrow> tokenize l \<noteq> [] \<and> \<not> is_label (tokenize l)"

definition instr_count :: "string list \<Rightarrow> nat" where
  "instr_count raw = length (filter is_instr_line raw)"

definition defines_label :: "string \<Rightarrow> string \<Rightarrow> bool" where
  "defines_label name l \<longleftrightarrow> tokenize l \<noteq> [] \<and> is_label (tokenize l) \<and> butlast (hd (tokenize l)) = name"

lemma instr_count_simps [simp]:
  "instr_count [] = 0"
  "instr_count (l # raw) = (if is_instr_line l then Suc (instr_count raw) else instr_count raw)"
  "instr_count (raw @ raw') = instr_count raw + instr_count raw'"
  by (simp_all add: instr_count_def)

lemma decode_pass_step:
  "decode_pass labels (l # raw) wpc =
     (if is_instr_line l
      then res_bind (decode labels wpc (tokenize l)) (\<lambda>i.
           res_bind (decode_pass labels raw (wpc + 1)) (\<lambda>prog. Inr (i # prog)))
      else decode_pass labels raw wpc)"
  by (auto simp: is_instr_line_def Let_def)

lemma label_pass_step:
  "label_pass (l # raw) labels wpc =
     (if is_instr_line l then label_pass raw labels (wpc + 1)
      else if tokenize l \<noteq> [] \<and> is_label (tokenize l)
      then label_pass raw (labels(butlast (hd (tokenize l)) \<mapsto> wpc * 4)) wpc
      else label_pass raw labels wpc)"
  by (auto simp: is_instr_line_def Let_def)

declare decode_pass.simps(2) [simp del] label_pass.simps(2) [simp del]

lemma decode_pass_length: "decode_pass labels raw wpc = Inr prog \<Longrightarrow> length prog = instr_count raw"
  by (induction raw arbitrary: wpc prog) (auto simp: decode_pass_step split: if_splits)

lemma decode_pass_append:
  "decode_pass labels (raw @ raw') wpc = Inr prog \<longleftrightarrow>
     (\<exists>p p'. decode_pass labels raw wpc = Inr p \<and> decode_pass labels raw' (wpc + int (instr_count raw)) = Inr p' \<and>
        prog = p @ p')"
  by (induction raw arbitrary: wpc prog) (auto simp: decode_pass_step algebra_simps)

text \<open>The address of a label is that of the instruction after its last definition.\<close>

lemma label_pass_unchanged:
  "\<forall>l \<in> set raw. \<not> defines_label name l \<Longrightarrow> label_pass raw labels wpc name = labels name"
  by (induction raw arbitrary: labels wpc) (auto simp: label_pass_step defines_label_def)

lemma label_pass_append:
  "label_pass (raw @ raw') labels wpc = label_pass raw' (label_pass raw labels wpc) (wpc + int (instr_count raw))"
  by (induction raw arbitrary: labels wpc) (auto simp: label_pass_step is_instr_line_def algebra_simps)

lemma label_pass_lookup:
  assumes "defines_label name l" and "\<forall>m \<in> set post. \<not> defines_label name m"
  shows "label_pass (pre @ l # post) labels wpc name = Some ((wpc + int (instr_count pre)) * 4)"
proof -
  have "\<not> is_instr_line l" using assms(1) by (simp add: defines_label_def is_instr_line_def)
  then have "label_pass (l # post) labels' w = label_pass post (labels'(name \<mapsto> w * 4)) w" for labels' w
    using assms(1) by (simp add: label_pass_step defines_label_def)
  then show ?thesis using assms(2) by (simp add: label_pass_append label_pass_unchanged)
qed

section \<open>Decoded instructions\<close>

text \<open>What every operand shape keeps of the instruction it completes.\<close>

definition dec_keeps :: "bool \<Rightarrow> instruction \<Rightarrow> instruction \<Rightarrow> bool" where
  "dec_keeps rd j i \<longleftrightarrow> in_op i = in_op j \<and> in_pc i = in_pc j \<and> in_rd_fp i = in_rd_fp j \<and>
     in_rs1_fp i = in_rs1_fp j \<and> in_rs2_fp i = in_rs2_fp j \<and> (rd \<longrightarrow> in_rd i = in_rd j)"

lemma dec_shapes_keep:
  "dec_rrr toks j = Inr i \<Longrightarrow> dec_keeps False j i" "dec_rri toks j = Inr i \<Longrightarrow> dec_keeps False j i"
  "dec_rr toks j = Inr i \<Longrightarrow> dec_keeps False j i" "dec_load toks j = Inr i \<Longrightarrow> dec_keeps False j i"
  "dec_store toks j = Inr i \<Longrightarrow> dec_keeps True j i" "dec_branch labels toks j = Inr i \<Longrightarrow> dec_keeps True j i"
  "dec_lui toks j = Inr i \<Longrightarrow> dec_keeps False j i" "dec_jal labels toks j = Inr i \<Longrightarrow> dec_keeps False j i"
  "dec_jalr toks j = Inr i \<Longrightarrow> dec_keeps False j i"
  by (auto simp: dec_defs dec_keeps_def split: if_splits)

lemma if_resE:
  assumes "(if b then x else y) = z"
  obtains "b" and "x = z" | "\<not> b" and "y = z"
  using assms by (auto split: if_splits)

lemma decode_props:
  assumes "decode labels wpc toks = Inr i"
  shows "in_pc i = word_of_int (wpc * 4) \<and>
    (is_store (in_op i) \<or> is_branch (in_op i) \<or> in_op i = Op_HALT \<longrightarrow> in_rd i = -1) \<and>
    (is_jump (in_op i) \<longrightarrow> \<not> in_rd_fp i) \<and> (is_load (in_op i) \<or> is_store (in_op i) \<longrightarrow> \<not> in_rs1_fp i)"
  using assms unfolding decode_def Let_def
  by (elim if_resE)
     (drule dec_shapes_keep | simp add: dec_keeps_def default_instruction_def class_defs | fastforce simp: default_instruction_def class_defs)+

section \<open>Failures\<close>

lemma res_bind_eq_Inl:
  "res_bind m f = Inl e \<longleftrightarrow> m = Inl e \<or> (\<exists>a. m = Inr a \<and> f a = Inl e)"
  by (cases m) auto

lemma stoi_error: "stoi s = Inl e \<Longrightarrow> e = Bad_number"
  by (auto simp: stoi_def Let_def split: prod.splits if_splits)

lemma stoi_bounds: "stoi s = Inr v \<Longrightarrow> - (2 ^ 31) \<le> v \<and> v < 2 ^ 31"
  by (auto simp: stoi_def Let_def split: prod.splits if_splits)

lemma preg_error: "preg s = Inl e \<Longrightarrow> e = Bad_number"
  by (auto simp: preg_def dest: stoi_error split: if_splits)

lemma stoul_error: "stoul_base0 s = Inl e \<Longrightarrow> e = Bad_number"
  by (auto simp: stoul_base0_def Let_def split: prod.splits if_splits)

lemma parse_mem_error: "parse_mem s = Inl e \<Longrightarrow> e = Bad_number"
  by (auto simp: parse_mem_def Let_def res_bind_eq_Inl dest: stoi_error preg_error split: prod.splits)

lemma tok_error: "tok toks k = Inl e \<Longrightarrow> e = Out_of_bounds \<and> length toks \<le> k"
  by (auto simp: tok_def split: if_splits)

definition line_error :: "string list \<Rightarrow> sim_error \<Rightarrow> bool" where
  "line_error toks e \<longleftrightarrow> e = Bad_number \<or> (e = Out_of_bounds \<and> length toks \<le> 3)"

lemma tok_line_error:
  "tok toks k = Inl e \<Longrightarrow> k \<le> 3 \<Longrightarrow> line_error toks e" "reg_tok toks k = Inl e \<Longrightarrow> k \<le> 3 \<Longrightarrow> line_error toks e"
  "imm_tok toks k = Inl e \<Longrightarrow> k \<le> 3 \<Longrightarrow> line_error toks e" "dec_mem toks j = Inl e \<Longrightarrow> line_error toks e"
  by (auto simp: line_error_def reg_tok_def imm_tok_def dec_mem_def res_bind_eq_Inl
      dest!: tok_error preg_error stoi_error parse_mem_error)

lemma dec_shapes_error:
  "dec_rrr toks j = Inl e \<Longrightarrow> line_error toks e" "dec_rri toks j = Inl e \<Longrightarrow> line_error toks e"
  "dec_rr toks j = Inl e \<Longrightarrow> line_error toks e" "dec_load toks j = Inl e \<Longrightarrow> line_error toks e"
  "dec_store toks j = Inl e \<Longrightarrow> line_error toks e" "dec_branch labels toks j = Inl e \<Longrightarrow> line_error toks e"
  "dec_lui toks j = Inl e \<Longrightarrow> line_error toks e" "dec_jal labels toks j = Inl e \<Longrightarrow> line_error toks e"
  "dec_jalr toks j = Inl e \<Longrightarrow> line_error toks e"
  unfolding dec_rrr_def dec_rri_def dec_rr_def dec_load_def dec_store_def dec_branch_def dec_lui_def
    dec_jal_def dec_jalr_def
  by (auto simp: res_bind_eq_Inl dest: tok_line_error stoul_error simp: line_error_def split: if_splits)

lemma decode_error: "decode labels wpc toks = Inl e \<Longrightarrow> line_error toks e"
  unfolding decode_def Let_def by (elim if_resE) (drule dec_shapes_error | simp)+

lemma decode_pass_error:
  "decode_pass labels raw wpc = Inl e \<Longrightarrow> \<exists>l \<in> set raw. is_instr_line l \<and> line_error (tokenize l) e"
  by (induction raw arbitrary: wpc) (auto simp: decode_pass_step res_bind_eq_Inl dest: decode_error split: if_splits)

section \<open>Properties\<close>

text \<open>C21. A branch to a label: in every program that parses, if \<open>stoi\<close> reads no number at the start of the name, the
  address of the branch plus its immediate is the address of the instruction that follows the last
  definition of the label. If it reads one, as for a label \<open>2loop\<close>, that number is the offset and the
  definition of the label is ignored.\<close>

theorem branch_label_target:
  assumes "parse_program (Some source) = Inr prog"
    and "getlines source = pre @ l # post" and "defines_label name l"
    and "\<forall>m \<in> set post. \<not> defines_label name m"
    and "getlines source = pre' @ m # post'" and "tokenize m = mn # ra # rb # name # rest"
    and "mn \<in> set [''BEQ'', ''BNE'', ''BLT'', ''BGE'']"
  shows "instr_count pre' < length prog \<and>
    in_pc (prog ! instr_count pre') + in_imm (prog ! instr_count pre') =
      (case stoi name of Inl _ \<Rightarrow> word_of_nat (instr_count pre) * 4 | Inr v \<Rightarrow> in_pc (prog ! instr_count pre') + word_of_int v)"
proof -
  let ?labels = "label_pass (getlines source) Map.empty 0"
  have lab: "?labels name = Some (int (instr_count pre) * 4)"
    using label_pass_lookup [OF assms(3,4), of pre Map.empty 0] assms(2) by simp
  have il: "is_instr_line m" using assms(6,7) by (auto simp: is_instr_line_def is_label_def)
  have "decode_pass ?labels (pre' @ m # post') 0 = Inr prog" using assms(1,5) by (simp add: parse_program_def Let_def)
  then obtain p i q where p: "decode_pass ?labels pre' 0 = Inr p" "prog = p @ i # q"
    and i: "decode ?labels (int (instr_count pre')) (tokenize m) = Inr i"
    unfolding decode_pass_append using il by (auto simp: decode_pass_step)
  have n: "length p = instr_count pre'" by (rule decode_pass_length [OF p(1)])
  have "in_imm i = branch_offset name ?labels (in_pc i)"
    using i assms(7) unfolding assms(6) decode_def Let_def
    by (auto simp: dec_branch_def tok_def)
  also have "\<dots> = (case stoi name of Inl _ \<Rightarrow> word_of_int (int (instr_count pre) * 4 - sint (in_pc i)) | Inr v \<Rightarrow> word_of_int v)"
    using lab by (simp add: branch_offset_def split: sum.split)
  finally have "in_pc i + in_imm i = (case stoi name of Inl _ \<Rightarrow> word_of_nat (instr_count pre) * 4 | Inr v \<Rightarrow> in_pc i + word_of_int v)"
    by (simp add: wi_hom_sub [symmetric] wi_hom_mult [symmetric] split: sum.split)
  moreover have "prog ! instr_count pre' = i" "instr_count pre' < length prog" using p(2) n by (simp_all add: nth_append)
  ultimately show ?thesis by (simp only: simp_thms)
qed

definition sample_source :: string where
  "sample_source = ''loop:'' @ [newline] @ ''ADDI x1, x1, 1'' @ [newline] @ ''BNE x1, x2, loop'' @ [newline]"

lemma sample_source_lines:
  "getlines sample_source = [''loop:'', ''ADDI x1, x1, 1'', ''BNE x1, x2, loop'']"
  "tokenize ''loop:'' = [''loop:'']" "tokenize ''ADDI x1, x1, 1'' = [''ADDI'', ''x1'', ''x1'', ''1'']"
  "tokenize ''BNE x1, x2, loop'' = [''BNE'', ''x1'', ''x2'', ''loop'']" "stoi ''loop'' = Inl Bad_number"
  by code_simp+

lemma sample_source_parses:
  "parse_program (Some sample_source) = Inr
     [default_instruction\<lparr>in_op := Op_ADDI, in_rd := 1, in_rs1 := 1, in_imm := 1\<rparr>,
      default_instruction\<lparr>in_op := Op_BNE, in_rs1 := 1, in_rs2 := 2, in_imm := -4, in_pc := 4\<rparr>]"
  by code_simp

theorem branch_label_target_witness:
  "\<exists>prog. parse_program (Some sample_source) = Inr prog \<and> in_op (prog ! 1) = Op_BNE \<and> in_pc (prog ! 1) + in_imm (prog ! 1) = 0"
proof -
  have d: "defines_label ''loop'' ''loop:''" "\<not> defines_label ''loop'' ''ADDI x1, x1, 1''"
    "\<not> defines_label ''loop'' ''BNE x1, x2, loop''" "is_instr_line ''ADDI x1, x1, 1''" "\<not> is_instr_line ''loop:''"
    by (simp_all add: defines_label_def is_instr_line_def sample_source_lines is_label_def)
  show ?thesis
    unfolding sample_source_parses
    using branch_label_target [OF sample_source_parses, of "[]" "''loop:''" "[''ADDI x1, x1, 1'', ''BNE x1, x2, loop'']"
        "''loop''" "[''loop:'', ''ADDI x1, x1, 1'']" "''BNE x1, x2, loop''" "[]"] d
    by (simp add: sample_source_lines)
qed

text \<open>A label that starts with a digit: the branch goes to its own address plus 2, not back to the label.\<close>

lemma numeric_label_is_offset:
  "res_bind (parse_program (Some (''2loop:'' @ [newline] @ ''ADDI x1, x1, 1'' @ [newline] @ ''BNE x1, x2, 2loop'' @ [newline])))
     (\<lambda>prog. Inr (in_pc (prog ! 1), in_imm (prog ! 1))) = Inr (4, 2)"
  by code_simp

text \<open>C34. A source file either parses or fails in one of two ways: a number that \<open>stoi\<close>, \<open>stoul\<close> or
  \<open>substr\<close> rejects, or, on a line with at most two operands, an operand that is not there. A file
  that cannot be opened is an empty program, and so is one without instruction lines.\<close>

theorem parse_program_errors:
  "(parse_program (Some source) = Inl e \<longrightarrow>
      (\<exists>l \<in> set (getlines source). is_instr_line l \<and> (e = Bad_number \<or> e = Out_of_bounds \<and> length (tokenize l) \<le> 3))) \<and>
   (parse_program (Some source) = Inr prog \<longrightarrow> length prog = instr_count (getlines source)) \<and>
   parse_program None = Inr []"
  using decode_pass_error decode_pass_length
  by (auto simp: parse_program_def Let_def line_error_def)

theorem parse_program_errors_witness:
  "is_instr_line ''ADD x1'' \<and> Out_of_bounds \<noteq> Bad_number \<and> length (tokenize ''ADD x1'') \<le> 3"
proof -
  have "parse_program (Some ''ADD x1'') = Inl Out_of_bounds" "getlines ''ADD x1'' = [''ADD x1'']" by code_simp+
  then show ?thesis using parse_program_errors [of "''ADD x1''" Out_of_bounds] by simp
qed

end
