(* ===== verification/Assembly.thy ===== *)
theory Assembly
  imports Parser
begin

text \<open>
  A reference printer for the assembly language the parser reads, and the round trip: printing a
  program and parsing the text gives the program back. The mnemonics are those of \<open>opcode_name\<close>,
  so the names the traces print are exactly those the parser accepts.
\<close>

section \<open>The printer\<close>

definition show_digit :: "nat \<Rightarrow> char" where
  "show_digit n = ''0123456789'' ! n"

fun show_nat :: "nat \<Rightarrow> string" where
  "show_nat n = (if n < 10 then [show_digit n] else show_nat (n div 10) @ [show_digit (n mod 10)])"

declare show_nat.simps [simp del]

definition show_int :: "int \<Rightarrow> string" where
  "show_int v = (if v < 0 then CHR ''-'' # show_nat (nat (- v)) else show_nat (nat v))"

definition show_reg :: "bool \<Rightarrow> int \<Rightarrow> string" where
  "show_reg fp r = (if fp then CHR ''f'' else CHR ''x'') # show_nat (nat r)"

definition show_mem :: "i32 \<Rightarrow> int \<Rightarrow> string" where
  "show_mem imm r = show_int (sint imm) @ CHR ''('' # show_reg False r @ [CHR '')'']"

text \<open>The operand shapes of the language, and which fields of an instruction a shape uses.\<close>

datatype shape = Rrr | Rri | Rr | Ri | Load | Store | Branch | Jal | Bare

definition shape_of :: "opcode \<Rightarrow> shape" where
  "shape_of op =
     (if is_load op then Load else if is_store op then Store else if is_branch op then Branch
      else if op = Op_JAL then Jal else if op = Op_LUI then Ri
      else if op = Op_NOP \<or> op = Op_HALT then Bare
      else if op = Op_FCVT_W_S \<or> op = Op_FCVT_S_W then Rr
      else if op \<in> set [Op_ADDI, Op_ANDI, Op_ORI, Op_XORI, Op_SLLI, Op_SRLI, Op_JALR] then Rri
      else Rrr)"

definition uses_rd :: "shape \<Rightarrow> bool" where "uses_rd s \<longleftrightarrow> s \<notin> set [Store, Branch, Bare]"
definition uses_rs1 :: "shape \<Rightarrow> bool" where "uses_rs1 s \<longleftrightarrow> s \<notin> set [Ri, Jal, Bare]"
definition uses_rs2 :: "shape \<Rightarrow> bool" where "uses_rs2 s \<longleftrightarrow> s \<in> set [Rrr, Store, Branch]"
definition uses_imm :: "shape \<Rightarrow> bool" where "uses_imm s \<longleftrightarrow> s \<notin> set [Rrr, Rr, Bare]"

definition fp_arith :: "opcode \<Rightarrow> bool" where
  "fp_arith op \<longleftrightarrow> op \<in> set [Op_FADD_S, Op_FSUB_S, Op_FMUL_S, Op_FDIV_S]"

definition reg_field :: "bool \<Rightarrow> int \<Rightarrow> bool" where
  "reg_field used r \<longleftrightarrow> (if used then 0 \<le> r \<and> r < 2 ^ 31 else r = -1)"

definition canonical :: "instruction \<Rightarrow> bool" where
  "canonical i \<longleftrightarrow> (let op = in_op i; s = shape_of op in
     reg_field (uses_rd s) (in_rd i) \<and> reg_field (uses_rs1 s) (in_rs1 i) \<and> reg_field (uses_rs2 s) (in_rs2 i) \<and>
     (\<not> uses_imm s \<longrightarrow> in_imm i = 0) \<and>
     (in_rd_fp i \<longleftrightarrow> fp_arith op \<or> op = Op_FLW \<or> op = Op_FCVT_S_W) \<and>
     (in_rs1_fp i \<longleftrightarrow> fp_arith op \<or> op = Op_FCVT_W_S) \<and>
     (in_rs2_fp i \<longleftrightarrow> fp_arith op \<or> op = Op_FSW))"

definition operands :: "instruction \<Rightarrow> string list" where
  "operands i =
     (let rd = show_reg (in_rd_fp i) (in_rd i); rs1 = show_reg (in_rs1_fp i) (in_rs1 i);
          rs2 = show_reg (in_rs2_fp i) (in_rs2 i); imm = show_int (sint (in_imm i))
      in case shape_of (in_op i) of
           Rrr \<Rightarrow> [rd, rs1, rs2] | Rri \<Rightarrow> [rd, rs1, imm] | Rr \<Rightarrow> [rd, rs1]
         | Ri \<Rightarrow> [rd, show_nat (unat (in_imm i))]
         | Load \<Rightarrow> [rd, show_mem (in_imm i) (in_rs1 i)] | Store \<Rightarrow> [rs2, show_mem (in_imm i) (in_rs1 i)]
         | Branch \<Rightarrow> [rs1, rs2, imm] | Jal \<Rightarrow> [rd, imm] | Bare \<Rightarrow> [])"

fun join :: "string list \<Rightarrow> string" where
  "join [] = []"
| "join [t] = t"
| "join (t # ts) = t @ CHR '','' # join ts"

definition print_instr :: "instruction \<Rightarrow> string" where
  "print_instr i = opcode_name (in_op i) @ CHR '' '' # join (operands i)"

definition print_program :: "instruction list \<Rightarrow> string" where
  "print_program prog = concat (map (\<lambda>i. print_instr i @ [newline]) prog)"

section \<open>Numbers\<close>

lemma show_digit:
  assumes "n < 10"
  shows "digit_value (show_digit n) = n" and "\<not> is_space (show_digit n)"
    and "show_digit n \<notin> set [CHR ''-'', CHR ''+'', CHR ''('', CHR '')'', CHR '','', CHR ''#'', newline]"
    and "show_digit n = CHR ''0'' \<longleftrightarrow> n = 0"
proof -
  have "\<forall>n \<in> set [0..<10]. digit_value (show_digit n) = n \<and> \<not> is_space (show_digit n) \<and>
    show_digit n \<notin> set [CHR ''-'', CHR ''+'', CHR ''('', CHR '')'', CHR '','', CHR ''#'', newline] \<and>
    (show_digit n = CHR ''0'' \<longleftrightarrow> n = 0)"
    by code_simp
  then show "digit_value (show_digit n) = n" "\<not> is_space (show_digit n)"
    "show_digit n \<notin> set [CHR ''-'', CHR ''+'', CHR ''('', CHR '')'', CHR '','', CHR ''#'', newline]"
    "show_digit n = CHR ''0'' \<longleftrightarrow> n = 0"
    using assms by (simp_all del: set_simps)
qed

lemma show_nat_chars: "c \<in> set (show_nat n) \<Longrightarrow> \<exists>d < 10. c = show_digit d"
proof (induction n rule: show_nat.induct)
  case (1 n)
  then show ?case by (cases "n < 10") (auto simp: show_nat.simps [of n] intro: exI [of _ "n mod 10"])
qed

lemma show_nat_nonempty [simp]: "show_nat n \<noteq> []"
  by (subst show_nat.simps) simp

lemma show_nat_clean:
  assumes "c \<in> set (show_nat n)"
  shows "digit_value c < 10" and "\<not> is_space c"
    and "c \<notin> set [CHR ''-'', CHR ''+'', CHR ''('', CHR '')'', CHR '','', CHR ''#'', newline]"
  using show_nat_chars [OF assms] show_digit by auto

lemma digits_value_snoc: "digits_value b (ds @ [c]) = digits_value b ds * int b + int (digit_value c)"
  by (simp add: digits_value_def)

lemma digits_value_show_nat: "digits_value 10 (show_nat n) = int n"
proof (induction n rule: show_nat.induct)
  case (1 n)
  show ?case
  proof (cases "n < 10")
    case True
    then show ?thesis by (simp add: show_nat.simps [of n] digits_value_def show_digit)
  next
    case False
    then show ?thesis
      using 1 by (simp add: show_nat.simps [of n] digits_value_snoc show_digit zdiv_int zmod_int)
  qed
qed

lemma show_nat_leading_zero: "0 < n \<Longrightarrow> hd (show_nat n) \<noteq> CHR ''0''"
proof (induction n rule: show_nat.induct)
  case (1 n)
  then show ?case by (cases "n < 10") (auto simp: show_nat.simps [of n] show_digit hd_append)
qed

lemma show_nat_Cons:
  obtains c ds where "show_nat n = c # ds" and "digit_value c < 10" and "\<not> is_space c"
    and "c \<noteq> CHR ''-''" and "c \<noteq> CHR ''+''"
  using show_nat_clean [of _ n] show_nat_nonempty [of n] by (cases "show_nat n") auto

lemma leading_digits_show_nat: "10 \<le> b \<Longrightarrow> leading_digits b (show_nat n) = show_nat n"
  using show_nat_clean(1) [of _ n] by (auto simp: leading_digits_def takeWhile_eq_all_conv dest: less_le_trans)

lemma stoi_show_int:
  assumes "- (2 ^ 31) \<le> v" and "v < 2 ^ 31"
  shows "stoi (show_int v) = Inr v"
proof (cases "v < 0")
  case True
  then show ?thesis
    using assms leading_digits_show_nat [of 10 "nat (- v)"]
    by (simp add: show_int_def stoi_def is_space_def split_sign_def Let_def digits_value_show_nat)
next
  case False
  obtain c ds where c: "show_nat (nat v) = c # ds" "\<not> is_space c" "c \<noteq> CHR ''-''" "c \<noteq> CHR ''+''"
    using show_nat_Cons [of "nat v"] by blast
  have "split_sign (dropWhile is_space (show_nat (nat v))) = (False, show_nat (nat v))"
    using c by (simp add: split_sign_def)
  then show ?thesis
    using assms False leading_digits_show_nat [of 10 "nat v"]
    by (simp add: show_int_def stoi_def Let_def digits_value_show_nat)
qed

lemma stoi_show_sint: "stoi (show_int (sint (w :: i32))) = Inr (sint w)"
  using sint_greater_eq [of w] sint_less [of w] by (intro stoi_show_int) simp_all

lemma preg_show_reg: "0 \<le> r \<Longrightarrow> r < 2 ^ 31 \<Longrightarrow> preg (show_reg fp r) = Inr r"
  using stoi_show_int [of r] by (simp add: preg_def show_reg_def show_int_def)

lemma stoul_show_nat:
  assumes "n < 2 ^ 64"
  shows "stoul_base0 (show_nat n) = Inr (word_of_nat n)"
proof (cases "n = 0")
  case True
  have "stoul_base0 ''0'' = Inr 0" by code_simp
  moreover have "show_nat 0 = ''0''" by code_simp
  ultimately show ?thesis using True by simp
next
  case False
  obtain c ds where c: "show_nat n = c # ds" "\<not> is_space c" "c \<noteq> CHR ''-''" "c \<noteq> CHR ''+''"
    using show_nat_Cons [of n] by blast
  then have "c \<noteq> CHR ''0''" using show_nat_leading_zero [of n] False by simp
  then have "detect_base (show_nat n) = (10, show_nat n)"
    using c(1) by (auto simp: detect_base_def split: list.splits)
  moreover have "split_sign (dropWhile is_space (show_nat n)) = (False, show_nat n)"
    using c by (simp add: split_sign_def)
  moreover have "int n < 2 ^ 64" using assms by simp
  ultimately show ?thesis
    using leading_digits_show_nat [of 10 n] by (simp add: stoul_base0_def Let_def digits_value_show_nat)
qed

section \<open>Operands\<close>

lemma str_find_append: "c \<notin> set xs \<Longrightarrow> str_find c (xs @ c # ys) = Some (length xs)"
  by (induction xs) auto

lemma show_int_clean:
  assumes "c \<in> set (show_int v)"
  shows "\<not> is_space c" and "c \<notin> set [CHR ''('', CHR '')'', CHR '','', CHR ''#'', newline]"
  using assms show_nat_clean(2,3) [of c] by (auto simp: show_int_def is_space_def newline_def split: if_splits)

lemma show_reg_clean:
  assumes "c \<in> set (show_reg fp r)"
  shows "\<not> is_space c" and "c \<notin> set [CHR ''('', CHR '')'', CHR '','', CHR ''#'', newline]"
  using assms show_nat_clean(2,3) [of c] by (auto simp: show_reg_def is_space_def newline_def split: if_splits)

lemma parse_mem_show_mem:
  assumes "0 \<le> r" and "r < 2 ^ 31"
  shows "parse_mem (show_mem imm r) = Inr (imm, r)"
proof -
  let ?v = "show_int (sint imm)" and ?r = "show_reg False r"
  have l: "str_find (CHR ''('') (show_mem imm r) = Some (length ?v)"
    unfolding show_mem_def using show_int_clean(2) [of "CHR ''(''" "sint imm"] by (intro str_find_append) auto
  have d: "drop (length ?v) (show_mem imm r) = (CHR ''('' # ?r) @ CHR '')'' # []" by (simp add: show_mem_def)
  have k: "str_find (CHR '')'') (drop (length ?v) (show_mem imm r)) = Some (Suc (length ?r))"
    unfolding d using show_reg_clean(2) [of "CHR '')''" False r] by (subst str_find_append) auto
  have "take (Suc (length ?r) - 1) (drop (length ?v + 1) (show_mem imm r)) = ?r"
    "take (length ?v) (show_mem imm r) = ?v"
    by (simp_all add: show_mem_def)
  then show ?thesis
    using stoi_show_sint [of imm] preg_show_reg [OF assms, of False] by (simp add: parse_mem_def l k Let_def)
qed

lemma branch_offset_show: "branch_offset (show_int (sint imm)) labels pc = imm"
  by (simp add: branch_offset_def stoi_show_sint)

lemma lui_show: "stoul_base0 (show_nat (unat (imm :: i32))) = Inr (ucast imm)"
proof -
  have "unat imm < 2 ^ 64" using unsigned_less [of imm, where ?'a = nat] by simp
  then show ?thesis by (subst stoul_show_nat) (simp_all add: unsigned_ucast_eq [symmetric])
qed

lemma ucast_up_down: "ucast (ucast (w :: i32) :: 64 word) = w"
  by (rule ucast_up_ucast_id) (simp add: is_up)

text \<open>Decoding the printed tokens.\<close>

lemma not_paren_show_reg: "str_find (CHR ''('') (show_reg fp r) = None"
proof -
  have "c \<notin> set xs \<Longrightarrow> str_find c xs = None" for c xs by (induction xs) auto
  then show ?thesis using show_reg_clean(2) [of "CHR ''(''" fp r] by auto
qed

lemmas shape_defs = shape_of_def class_defs uses_rd_def uses_rs1_def uses_rs2_def uses_imm_def
  fp_arith_def reg_field_def

lemmas decode_ops = dec_defs reg_tok_def imm_tok_def tok_def preg_show_reg stoi_show_sint
  parse_mem_show_mem branch_offset_show lui_show ucast_up_down not_paren_show_reg

lemma decode_print:
  assumes "canonical i"
  shows "decode labels wpc (opcode_name (in_op i) # operands i) = Inr (i\<lparr>in_pc := word_of_int (wpc * 4)\<rparr>)"
proof (cases i)
  case (fields op rd rs1 rs2 imm rdf rs1f rs2f pc)
  show ?thesis
    using assms unfolding fields
    by (cases op) (simp_all add: canonical_def operands_def shape_defs decode_def opcode_name_def Let_def
      decode_ops default_instruction_def)
qed

section \<open>Lines and programs\<close>

definition clean_token :: "string \<Rightarrow> bool" where
  "clean_token t \<longleftrightarrow> t \<noteq> [] \<and> (\<forall>c \<in> set t. \<not> is_space c \<and> c \<noteq> CHR '','' \<and> c \<noteq> CHR ''#'' \<and> c \<noteq> newline)"

abbreviation blank_commas :: "string \<Rightarrow> string" where
  "blank_commas \<equiv> map (\<lambda>c. if c = CHR '','' then CHR '' '' else c)"

lemma clean_tokenD:
  assumes "clean_token t"
  shows "takeWhile (\<lambda>c. \<not> is_space c) t = t" and "dropWhile (\<lambda>c. \<not> is_space c) t = []"
    and "dropWhile is_space (t @ r) = t @ r" and "blank_commas t = t" and "t \<noteq> []"
  using assms by (cases t; auto simp: clean_token_def takeWhile_eq_all_conv dropWhile_eq_Nil_conv map_idI)+

lemma is_space_blank [simp]: "is_space (CHR '' '')"
  by (simp add: is_space_def)

lemma stream_words_Nil: "stream_words [] = []"
  by (simp add: stream_words.simps)

lemma stream_words_clean:
  assumes c: "clean_token t"
  shows "stream_words t = [t]"
proof -
  have "dropWhile is_space t = t" using clean_tokenD(3) [OF c, of "[]"] by simp
  then show ?thesis
    using clean_tokenD(5) [OF c]
    by (subst stream_words.simps) (simp only: Let_def clean_tokenD(1,2) [OF c] stream_words_Nil if_False)
qed

lemma stream_words_Cons: "clean_token t \<Longrightarrow> stream_words (t @ CHR '' '' # r) = t # stream_words r"
proof -
  assume c: "clean_token t"
  have "takeWhile (\<lambda>c. \<not> is_space c) (t @ CHR '' '' # r) = t"
    "dropWhile (\<lambda>c. \<not> is_space c) (t @ CHR '' '' # r) = CHR '' '' # r"
    using c by (simp_all add: clean_token_def takeWhile_append2 dropWhile_append2)
  moreover have "stream_words (CHR '' '' # r) = stream_words r"
    by (simp add: stream_words.simps [of "CHR '' '' # r"] stream_words.simps [of r])
  ultimately show ?thesis
    using clean_tokenD(3,5) [OF c] by (simp add: stream_words.simps [of "t @ CHR '' '' # r"])
qed

lemma stream_words_join: "\<forall>t \<in> set ts. clean_token t \<Longrightarrow> stream_words (blank_commas (join ts)) = ts"
proof (induction ts rule: join.induct)
  case 1
  then show ?case by (simp add: stream_words.simps)
next
  case (2 t)
  then show ?case using clean_tokenD(4) [of t] by (simp add: stream_words_clean)
next
  case (3 t v va)
  then show ?case using clean_tokenD(4) [of t] by (simp add: stream_words_Cons)
qed

lemma join_chars: "c \<in> set (join ts) \<Longrightarrow> c = CHR '','' \<or> (\<exists>t \<in> set ts. c \<in> set t)"
  by (induction ts rule: join.induct) auto

lemma opcode_name_clean: "clean_token (opcode_name op)" "last (opcode_name op) \<noteq> CHR '':''"
  by (cases op; simp add: clean_token_def opcode_name_def is_space_def newline_def)+

lemma show_clean:
  "clean_token (show_reg fp r)" "clean_token (show_int v)" "clean_token (show_nat n)" "clean_token (show_mem imm r)"
proof -
  show "clean_token (show_reg fp r)" "clean_token (show_int v)" "clean_token (show_nat n)"
    using show_reg_clean [of _ fp r] show_int_clean [of _ v] show_nat_clean(2,3) [of _ n]
    by (auto simp: clean_token_def) (simp_all add: show_reg_def show_int_def split: if_splits)
  show "clean_token (show_mem imm r)"
    using show_reg_clean [of _ False r] show_int_clean [of _ "sint imm"]
    by (auto simp: clean_token_def show_mem_def is_space_def newline_def)
qed

lemma operands_clean: "\<forall>t \<in> set (operands i). clean_token t"
  by (cases "shape_of (in_op i)") (simp_all add: operands_def Let_def show_clean)

lemma print_instr_chars:
  "c \<in> set (print_instr i) \<Longrightarrow> c \<noteq> CHR ''#'' \<and> c \<noteq> newline"
  using opcode_name_clean(1) [of "in_op i"] operands_clean [of i] join_chars [of c "operands i"]
  by (auto simp: print_instr_def clean_token_def newline_def)

lemma tokenize_print: "tokenize (print_instr i) = opcode_name (in_op i) # operands i"
proof -
  have "takeWhile (\<lambda>c. c \<noteq> CHR ''#'') (print_instr i) = print_instr i"
    using print_instr_chars [of _ i] by (simp add: takeWhile_eq_all_conv)
  moreover have "blank_commas (print_instr i) = opcode_name (in_op i) @ CHR '' '' # blank_commas (join (operands i))"
    using clean_tokenD(4) [OF opcode_name_clean(1)] by (simp add: print_instr_def)
  ultimately show ?thesis
    using stream_words_Cons [OF opcode_name_clean(1)] stream_words_join [OF operands_clean] by (simp only: tokenize_def)
qed

lemma getlines_print: "getlines (print_program prog) = map print_instr prog"
proof (induction prog)
  case Nil
  then show ?case by (simp add: print_program_def getlines.simps)
next
  case (Cons i prog)
  let ?r = "print_program prog"
  have p: "print_program (i # prog) = print_instr i @ newline # ?r" by (simp add: print_program_def)
  have nl: "\<And>c. c \<in> set (print_instr i) \<Longrightarrow> c \<noteq> newline" using print_instr_chars [of _ i] by blast
  have "takeWhile (\<lambda>c. c \<noteq> newline) (print_instr i @ newline # ?r) = print_instr i"
    "dropWhile (\<lambda>c. c \<noteq> newline) (print_instr i @ newline # ?r) = newline # ?r"
    using nl by (simp_all add: takeWhile_append2 dropWhile_append2)
  then show ?case using Cons by (simp add: p getlines.simps [of "print_instr i @ newline # ?r"])
qed

lemma decode_pass_print:
  assumes "\<forall>i \<in> set prog. canonical i"
  shows "decode_pass labels (map print_instr prog) (int n) =
     Inr (map (\<lambda>k. (prog ! k)\<lparr>in_pc := word_of_nat (n + k) * 4\<rparr>) [0..<length prog])"
  using assms
proof (induction prog arbitrary: n)
  case (Cons i prog)
  have il: "is_instr_line (print_instr i)"
    by (simp add: is_instr_line_def is_label_def tokenize_print opcode_name_clean(2))
  have "decode labels (int n) (tokenize (print_instr i)) = Inr (i\<lparr>in_pc := word_of_nat n * 4\<rparr>)"
    using Cons.prems by (simp add: tokenize_print decode_print wi_hom_mult [symmetric])
  moreover have "decode_pass labels (map print_instr prog) (int n + 1) =
     Inr (map (\<lambda>k. (prog ! k)\<lparr>in_pc := word_of_nat (Suc n + k) * 4\<rparr>) [0..<length prog])"
    using Cons.IH [of "Suc n"] Cons.prems by (simp add: add.commute)
  moreover have "[0..<length (i # prog)] = 0 # map Suc [0..<length prog]"
    by (simp add: upt_conv_Cons map_Suc_upt del: upt_Suc)
  ultimately show ?case
    using il by (simp add: decode_pass_step comp_def del: upt_Suc)
qed simp

text \<open>C7. Round trip of the assembly language: the text printed for a program whose instructions use
  the fields of their kind parses to the program itself, with the addresses 0, 4, 8, \<dots> stamped on
  it; the mnemonics printed are those of \<open>opcode_name\<close>.\<close>

theorem parse_print_roundtrip:
  assumes "\<forall>i \<in> set prog. canonical i"
  shows "parse_program (Some (print_program prog)) =
     Inr (map (\<lambda>k. (prog ! k)\<lparr>in_pc := word_of_nat k * 4\<rparr>) [0..<length prog])"
  using decode_pass_print [OF assms, of _ 0] by (simp add: parse_program_def getlines_print Let_def)

definition sample_listing :: "instruction list" where
  "sample_listing =
     [default_instruction\<lparr>in_op := Op_LUI, in_rd := 5, in_imm := 4096\<rparr>,
      default_instruction\<lparr>in_op := Op_FSW, in_rs1 := 2, in_rs2 := 7, in_rs2_fp := True, in_imm := -12\<rparr>,
      default_instruction\<lparr>in_op := Op_BGE, in_rs1 := 3, in_rs2 := 4, in_imm := -8\<rparr>]"

lemma sample_listing_length: "length sample_listing = Suc (Suc (Suc 0))"
  by (simp add: sample_listing_def)

theorem parse_print_roundtrip_witness:
  "print_program sample_listing =
     ''LUI x5,4096'' @ newline # ''FSW f7,-12(x2)'' @ newline # ''BGE x3,x4,-8'' @ [newline] \<and>
   parse_program (Some (print_program sample_listing)) =
     Inr (map (\<lambda>k. (sample_listing ! k)\<lparr>in_pc := word_of_nat k * 4\<rparr>) [0..<3])"
proof
  show "print_program sample_listing =
     ''LUI x5,4096'' @ newline # ''FSW f7,-12(x2)'' @ newline # ''BGE x3,x4,-8'' @ [newline]"
    by (simp add: sample_listing_def print_program_def print_instr_def operands_def shape_defs show_reg_def
        show_mem_def show_int_def show_nat.simps show_digit_def opcode_name_def default_instruction_def Let_def)
  have "\<forall>i \<in> set sample_listing. canonical i"
    by (simp add: sample_listing_def canonical_def shape_defs default_instruction_def Let_def)
  from parse_print_roundtrip [OF this]
  show "parse_program (Some (print_program sample_listing)) =
     Inr (map (\<lambda>k. (sample_listing ! k)\<lparr>in_pc := word_of_nat k * 4\<rparr>) [0..<3])"
    by (simp add: numeral_3_eq_3 sample_listing_length)
qed

end
