(* ===== verification/Frontend.thy ===== *)
theory Frontend
  imports Progress Assembly
begin

text \<open>
  \<open>main\<close> from the source text: the parser in front of the clock loop. What the parser guarantees
  about the programs it produces is what the theorems on runs assume, so those theorems hold of
  source files.
\<close>

section \<open>From a file to the final state\<close>

definition sim_file :: "fp_env \<Rightarrow> string option \<Rightarrow> sim res option" where
  "sim_file fe src =
     (case parse_program src of
        Inl err \<Rightarrow> Some (Inl err)
      | Inr program \<Rightarrow> sim_main fe program)"

section \<open>Parsed programs\<close>

lemma decode_pass_pcs:
  "decode_pass labels raw wpc = Inr prog \<Longrightarrow> k < length prog \<Longrightarrow> in_pc (prog ! k) = word_of_int ((wpc + int k) * 4)"
proof (induction raw arbitrary: wpc prog k)
  case (Cons l raw)
  show ?case
  proof (cases "is_instr_line l")
    case True
    then obtain i p where i: "decode labels wpc (tokenize l) = Inr i" "decode_pass labels raw (wpc + 1) = Inr p"
        "prog = i # p"
      using Cons.prems(1) by (auto simp: decode_pass_step)
    show ?thesis
    proof (cases k)
      case 0
      then show ?thesis using decode_props [OF i(1)] i(3) by simp
    next
      case (Suc j)
      then show ?thesis using Cons.IH [OF i(2), of j] Cons.prems(2) i(3) by (simp add: algebra_simps)
    qed
  next
    case False
    then show ?thesis using Cons by (simp add: decode_pass_step)
  qed
qed simp

lemma parse_program_pcs:
  assumes "parse_program src = Inr prog" and "k < length prog"
  shows "in_pc (prog ! k) = word_of_nat k * 4"
  using assms decode_pass_pcs [of _ _ 0 prog k]
  by (auto simp: parse_program_def Let_def wi_hom_mult [symmetric] split: option.splits)

lemma program_of_parsed:
  assumes "parse_program src = Inr prog"
  shows "program_of prog = prog"
proof (rule nth_equalityI)
  fix k assume "k < length (program_of prog)"
  then have k: "k < length prog" by (simp add: program_of_def)
  then show "program_of prog ! k = prog ! k"
    using parse_program_pcs [OF assms k] by (simp add: program_of_def)
qed (simp add: program_of_def)

lemma decode_pass_all:
  assumes "\<And>labels wpc toks i. decode labels wpc toks = Inr i \<Longrightarrow> Q i"
  shows "decode_pass labels raw wpc = Inr prog \<Longrightarrow> \<forall>i \<in> set prog. Q i"
  using assms by (induction raw arbitrary: wpc prog) (auto simp: decode_pass_step split: if_splits)

definition regs_below :: "int \<Rightarrow> instruction \<Rightarrow> bool" where
  "regs_below n i \<longleftrightarrow> in_rd i < n \<and> in_rs1 i < n \<and> in_rs2 i < n"

lemma wf_program_parsed:
  assumes "parse_program src = Inr prog" and "\<forall>i \<in> set prog. regs_below 32 i"
  shows "wf_program prog"
proof (cases src)
  case None
  then show ?thesis using assms(1) by (simp add: parse_program_def wf_program_def)
next
  case (Some source)
  let ?Q = "\<lambda>i. regs_below 32 i \<longrightarrow> wf_instr i"
  have "decode_pass (label_pass (getlines source) Map.empty 0) (getlines source) 0 = Inr prog"
    using assms(1) Some by (simp add: parse_program_def Let_def)
  then have "\<forall>i \<in> set prog. ?Q i"
    by (rule decode_pass_all [rotated]) (auto simp: wf_instr_def regs_below_def dest!: decode_props)
  then show ?thesis using assms(2) by (simp add: wf_program_def)
qed

section \<open>Properties\<close>

text \<open>\<open>load_program\<close> stamps addresses on a program that the parser has already stamped: the two
  numberings agree, so the instruction queue executes exactly the parsed instructions.\<close>

theorem load_program_keeps_parsed:
  assumes "parse_program src = Inr prog"
  shows "iq_program (iq_load_program prog q) = prog"
  using program_of_parsed [OF assms] by (simp add: iq_load_program_def program_of_def)

theorem load_program_keeps_parsed_witness:
  "map in_pc (iq_program (iq_load_program
     [default_instruction\<lparr>in_op := Op_ADDI, in_rd := 1, in_rs1 := 1, in_imm := 1\<rparr>,
      default_instruction\<lparr>in_op := Op_BNE, in_rs1 := 1, in_rs2 := 2, in_imm := -4, in_pc := 4\<rparr>]
     (projr (new_iq IQ_CAPACITY)))) = [0, 4]"
  using load_program_keeps_parsed [OF sample_source_parses, of "projr (new_iq IQ_CAPACITY)"]
  by (simp add: default_instruction_def)

text \<open>C28. Every source file that parses to a program, not empty, with registers below 32 runs to
  completion: no assertion fails and the clock loop returns, for one of its three reasons.\<close>

theorem sim_file_never_aborts:
  assumes "parse_program src = Inr prog" and "\<forall>i \<in> set prog. regs_below 32 i" and "prog \<noteq> []"
  shows "\<exists>s. sim_file fe src = Some (Inr s) \<and> (s_halted s \<or> sim_drained s \<or> MAX_CYCLES < s_cycle s)"
proof -
  have wf: "wf_program prog" by (rule wf_program_parsed [OF assms(1,2)])
  obtain s0 where s0: "sim_init prog = Inr s0" using sim_init_ok [OF wf] by metis
  from sim_loop_returns [OF wf reach_init [OF s0], of fe] show ?thesis
    using s0 assms(1,3) by (elim returnsE) (auto simp: sim_file_def sim_main_def)
qed

theorem sim_file_never_aborts_witness:
  "\<exists>s. sim_file x86_env (Some sample_source) = Some (Inr s) \<and>
     (s_halted s \<or> sim_drained s \<or> MAX_CYCLES < s_cycle s)"
  by (rule sim_file_never_aborts [OF sample_source_parses])
     (simp_all add: regs_below_def default_instruction_def)

text \<open>C35. The parser does not check register numbers, the units do: dispatching an instruction whose
  destination register is 32 or more never succeeds. It waits for room in the reorder buffer and
  in its unit, and then the process aborts.\<close>

theorem dispatch_bad_register:
  assumes "iq_can_dispatch (s_iq s)" and "iq_peek (s_iq s) = Inr i" and "32 \<le> in_rd i"
    and "\<not> rob_full (s_rob s)"
    and "case target_unit (in_op i) of None \<Rightarrow> \<not> lsb_full (s_lsb s) | Some u \<Rightarrow> \<not> rs_full (s_rs s u)"
  shows "\<exists>err. try_dispatch s = Inl err"
proof -
  have "map_destination i tag t = Inl Assert_reg_index" for tag t
    using assms(3) by (simp add: map_destination_def rat_map_def rat_index_ok_def)
  then have "\<nexists>x. try_dispatch s = Inr x"
    using assms by (auto simp: try_dispatch_def Let_def split: option.splits prod.splits)
  then show ?thesis by (cases "try_dispatch s") auto
qed

definition bad_register_state :: sim where
  "bad_register_state = (projr (sim_init []))\<lparr>s_iq := \<lparr>iq_capacity = 8, iq_program = [], iq_pc = 0,
     iq_buffer = [default_instruction\<lparr>in_op := Op_ADD, in_rd := 32, in_rs1 := 0, in_rs2 := 0\<rparr>]\<rparr>\<rparr>"

theorem dispatch_bad_register_witness:
  "\<exists>err. try_dispatch bad_register_state = Inl err"
  by (rule dispatch_bad_register [of _ "default_instruction\<lparr>in_op := Op_ADD, in_rd := 32, in_rs1 := 0, in_rs2 := 0\<rparr>"])
     (simp_all add: bad_register_state_def sim_init_def new_rob_def new_lsb_def new_iq_def size_defs iq_ops
       rob_full_def default_instruction_def target_unit_def class_defs new_station_def rs_full_def unit_size_def)

end
