(* ===== verification/Buffer_Station.thy ===== *)
theory Buffer_Station
  imports Prelude
begin

text \<open>
  \<open>buffer_station.h\<close>, \<open>buffer_station.cpp\<close>: the shift register that models the stages of a
  functional unit. Stage 0 is the input, stage \<open>depth\<close> the output. The class is not used by
  \<open>main\<close>; its documented caller sequence (pop, accept, tick) is \<open>bs_cycle\<close> below, and the
  properties are about runs of that sequence.
\<close>

section \<open>State and operations\<close>

record buf_slot =
  bs_valid :: bool
  bs_rob_tag :: int
  bs_value :: u32

definition empty_buf_slot :: buf_slot where
  "empty_buf_slot = \<lparr>bs_valid = False, bs_rob_tag = -1, bs_value = 0\<rparr>"

record buffer_station =
  bs_depth :: nat
  bs_pipelined :: bool
  bs_stages :: "buf_slot list"

definition new_buffer_station :: "int \<Rightarrow> bool \<Rightarrow> buffer_station res" where
  "new_buffer_station depth pipelined = res_bind (res_assert (1 \<le> depth) Assert_bs_depth)
     (\<lambda>_. Inr \<lparr>bs_depth = nat depth, bs_pipelined = pipelined,
               bs_stages = replicate (nat depth + 1) empty_buf_slot\<rparr>)"

definition bs_busy :: "buffer_station \<Rightarrow> bool" where
  "bs_busy b = list_ex bs_valid (bs_stages b)"

definition bs_accept :: "int \<Rightarrow> u32 \<Rightarrow> buffer_station \<Rightarrow> bool \<times> buffer_station" where
  "bs_accept tag v b =
     (if \<not> bs_pipelined b \<and> bs_busy b then (False, b)
      else if bs_valid (bs_stages b ! 0) then (False, b)
      else (True, b\<lparr>bs_stages := (bs_stages b)[0 :=
              \<lparr>bs_valid = True, bs_rob_tag = tag, bs_value = v\<rparr>]\<rparr>))"

text \<open>\<open>for (i = depth_; i > 0; --i) stages_[i] = stages_[i - 1];\<close>\<close>

fun bs_shift :: "nat \<Rightarrow> buf_slot list \<Rightarrow> buf_slot list" where
  "bs_shift 0 xs = xs"
| "bs_shift (Suc i) xs = bs_shift i (xs[Suc i := xs ! i])"

definition bs_tick :: "buffer_station \<Rightarrow> buffer_station" where
  "bs_tick b = b\<lparr>bs_stages := (bs_shift (bs_depth b) (bs_stages b))[0 := empty_buf_slot]\<rparr>"

definition bs_has_output :: "buffer_station \<Rightarrow> bool" where
  "bs_has_output b = bs_valid (bs_stages b ! bs_depth b)"

definition bs_pop_output :: "buffer_station \<Rightarrow> (buf_slot \<times> buffer_station) res" where
  "bs_pop_output b = res_bind (res_assert (bs_has_output b) Assert_bs_output)
     (\<lambda>_. Inr (bs_stages b ! bs_depth b, b\<lparr>bs_stages := (bs_stages b)[bs_depth b := empty_buf_slot]\<rparr>))"

section \<open>Well-formedness and the shift\<close>

definition bs_wf :: "buffer_station \<Rightarrow> bool" where
  "bs_wf b \<longleftrightarrow> 1 \<le> bs_depth b \<and> length (bs_stages b) = bs_depth b + 1"

lemma new_buffer_station_wf: "new_buffer_station d p = Inr b \<Longrightarrow> bs_wf b \<and> \<not> bs_busy b"
  by (auto simp: new_buffer_station_def bs_wf_def bs_busy_def list_ex_iff empty_buf_slot_def)

lemma bs_accept_wf: "bs_wf b \<Longrightarrow> bs_wf (snd (bs_accept t v b))"
  by (simp add: bs_wf_def bs_accept_def)

lemma length_bs_shift [simp]: "length (bs_shift n xs) = length xs"
  by (induction n xs rule: bs_shift.induct) simp_all

lemma nth_bs_shift:
  "i < length xs \<Longrightarrow> n < length xs \<Longrightarrow> bs_shift n xs ! i = (if 0 < i \<and> i \<le> n then xs ! (i - 1) else xs ! i)"
  by (induction n xs rule: bs_shift.induct) (auto simp: nth_list_update le_Suc_eq)

lemma bs_tick_wf: "bs_wf b \<Longrightarrow> bs_wf (bs_tick b)"
  by (simp add: bs_wf_def bs_tick_def)

text \<open>The downward loop does not overwrite what it still has to read: it is a shift by one.\<close>

lemma bs_tick_stages:
  assumes "bs_wf b"
  shows "bs_stages (bs_tick b) = empty_buf_slot # butlast (bs_stages b)"
proof (rule nth_equalityI)
  show "length (bs_stages (bs_tick b)) = length (empty_buf_slot # butlast (bs_stages b))"
    using assms by (simp add: bs_tick_def bs_wf_def)
  fix i assume "i < length (bs_stages (bs_tick b))"
  then have "i < length (bs_stages b)" using assms by (simp add: bs_tick_def)
  then show "bs_stages (bs_tick b) ! i = (empty_buf_slot # butlast (bs_stages b)) ! i"
    using assms by (cases i) (auto simp: bs_tick_def bs_wf_def nth_bs_shift nth_butlast)
qed

section \<open>The caller sequence\<close>

text \<open>One cycle: take the output if there is one, offer an input if there is one, tick. The result
  is the output taken, whether the input was accepted, and the station.\<close>

definition bs_cycle ::
    "(int \<times> u32) option \<Rightarrow> buffer_station \<Rightarrow> (buf_slot option \<times> bool \<times> buffer_station) res" where
  "bs_cycle inp b =
     res_bind (if bs_has_output b
               then res_bind (bs_pop_output b) (\<lambda>(s, b'). Inr (Some s, b')) else Inr (None, b))
     (\<lambda>(out, b1). case inp of
         None \<Rightarrow> Inr (out, False, bs_tick b1)
       | Some (tag, v) \<Rightarrow> (case bs_accept tag v b1 of (ok, b2) \<Rightarrow> Inr (out, ok, bs_tick b2)))"

fun bs_run ::
    "(int \<times> u32) option list \<Rightarrow> buffer_station \<Rightarrow> (buf_slot option list \<times> bool list \<times> buffer_station) res" where
  "bs_run [] b = Inr ([], [], b)"
| "bs_run (inp # ins) b =
     res_bind (bs_cycle inp b) (\<lambda>(out, ok, b1).
     res_bind (bs_run ins b1) (\<lambda>(outs, oks, b2). Inr (out # outs, ok # oks, b2)))"

definition slot_of :: "(int \<times> u32) option \<Rightarrow> buf_slot" where
  "slot_of inp = (case inp of None \<Rightarrow> empty_buf_slot
     | Some (tag, v) \<Rightarrow> \<lparr>bs_valid = True, bs_rob_tag = tag, bs_value = v\<rparr>)"

definition slot_out :: "buf_slot \<Rightarrow> buf_slot option" where
  "slot_out s = (if bs_valid s then Some s else None)"

lemma slot_out_slot_of [simp]: "slot_out (slot_of inp) = map_option (\<lambda>i. slot_of (Some i)) inp"
  by (auto simp: slot_out_def slot_of_def empty_buf_slot_def split: option.splits)

text \<open>The station as a list of stages, the output last.\<close>

lemma bs_cycle_pipelined:
  assumes "bs_wf b" and "bs_pipelined b" and "\<not> bs_valid (bs_stages b ! 0)"
    and "bs_stages b = s0 # mids @ [last_s]"
  shows "\<exists>b1. bs_cycle inp b = Inr (slot_out last_s, inp \<noteq> None, b1) \<and> bs_wf b1 \<and> bs_pipelined b1 \<and>
     bs_depth b1 = bs_depth b \<and>
     bs_stages b1 = empty_buf_slot # (if inp = None then s0 else slot_of inp) # mids"
proof -
  let ?b1 = "b\<lparr>bs_stages := s0 # mids @ [if bs_valid last_s then empty_buf_slot else last_s]\<rparr>"
  have d: "bs_depth b = Suc (length mids)" using assms(1,4) by (simp add: bs_wf_def)
  have pop: "(if bs_has_output b then res_bind (bs_pop_output b) (\<lambda>(s, b'). Inr (Some s, b'))
      else Inr (None, b)) = Inr (slot_out last_s, ?b1)"
    using d assms(4)
    by (cases b) (auto simp: bs_has_output_def bs_pop_output_def slot_out_def nth_append list_update_append)
  have wf: "bs_wf ?b1" using assms(1,4) by (simp add: bs_wf_def)
  show ?thesis
  proof (cases inp)
    case None
    then show ?thesis
      using bs_tick_stages [OF wf] bs_tick_wf [OF wf] assms(2)
      by (simp add: bs_cycle_def pop) (simp add: bs_tick_def)
  next
    case (Some x)
    obtain tag v where x: "x = (tag, v)" by (cases x)
    let ?b2 = "?b1\<lparr>bs_stages := slot_of inp # mids @ [if bs_valid last_s then empty_buf_slot else last_s]\<rparr>"
    have acc: "bs_accept tag v ?b1 = (True, ?b2)"
      using assms(2,3,4) Some x by (simp add: bs_accept_def slot_of_def)
    have wf2: "bs_wf ?b2" using wf by (simp add: bs_wf_def)
    show ?thesis
      using bs_tick_stages [OF wf2] bs_tick_wf [OF wf2] assms(2) acc Some x
      by (simp add: bs_cycle_def pop) (simp add: bs_tick_def)
  qed
qed

text \<open>A pipelined station is a delay line: what it puts out is first what its stages held, then
  its inputs.\<close>

lemma bs_run_pipelined:
  assumes "bs_wf b" and "bs_pipelined b" and "bs_stages b = empty_buf_slot # mids"
  shows "\<exists>b'. bs_run ins b = Inr (take (length ins) (map slot_out (rev mids) @
     map (map_option (\<lambda>i. slot_of (Some i))) ins), map (\<lambda>i. i \<noteq> None) ins, b')"
  using assms
proof (induction ins arbitrary: b mids)
  case (Cons inp ins)
  obtain ms l where m: "mids = ms @ [l]"
    using Cons.prems by (cases mids rule: rev_cases) (auto simp: bs_wf_def)
  have "\<not> bs_valid (bs_stages b ! 0)" using Cons.prems(3) by (simp add: empty_buf_slot_def)
  then obtain b1 where b1: "bs_cycle inp b = Inr (slot_out l, inp \<noteq> None, b1)" "bs_wf b1" "bs_pipelined b1"
      "bs_stages b1 = empty_buf_slot # (if inp = None then empty_buf_slot else slot_of inp) # ms"
    using bs_cycle_pipelined [OF Cons.prems(1,2), of empty_buf_slot ms l inp] Cons.prems(3) m by auto
  have s: "(if inp = None then empty_buf_slot else slot_of inp) = slot_of inp"
    by (simp add: slot_of_def)
  obtain b' where "bs_run ins b1 = Inr (take (length ins) (map slot_out (rev (slot_of inp # ms)) @
     map (map_option (\<lambda>i. slot_of (Some i))) ins), map (\<lambda>i. i \<noteq> None) ins, b')"
    using Cons.IH [OF b1(2,3), of "slot_of inp # ms"] b1(4) s by auto
  then show ?case using b1(1) m by simp
qed simp

text \<open>A station that is not pipelined holds at most one operation.\<close>

definition bs_single :: "buffer_station \<Rightarrow> bool" where
  "bs_single b \<longleftrightarrow> length (filter bs_valid (bs_stages b)) \<le> 1"

lemma filter_update_invalid:
  "\<not> bs_valid s \<Longrightarrow> length (filter bs_valid (xs[i := s])) \<le> length (filter bs_valid xs)"
proof (induction xs arbitrary: i)
  case (Cons x xs)
  then show ?case by (cases i) (auto simp: le_SucI)
qed simp

lemma bs_accept_single:
  assumes "bs_wf b" and "\<not> bs_pipelined b" and "bs_single b"
  shows "bs_single (snd (bs_accept t v b)) \<and> (fst (bs_accept t v b) \<longleftrightarrow> \<not> bs_busy b)"
proof (cases "bs_busy b")
  case False
  then have none: "\<not> list_ex bs_valid (bs_stages b)" by (simp add: bs_busy_def)
  obtain x xs where x: "bs_stages b = x # xs" using assms(1) by (cases "bs_stages b") (auto simp: bs_wf_def)
  have "filter bs_valid xs = []" "\<not> bs_valid x" using none x by (auto simp: list_ex_iff filter_empty_conv)
  then show ?thesis using assms False x by (simp add: bs_accept_def bs_single_def)
qed (use assms in \<open>simp add: bs_accept_def\<close>)

lemma filter_butlast_le: "length (filter P (butlast xs)) \<le> length (filter P xs)"
  by (induction xs) auto

lemma bs_tick_single: "bs_wf b \<Longrightarrow> bs_single b \<Longrightarrow> bs_single (bs_tick b)"
  using filter_butlast_le [of bs_valid "bs_stages b"]
  by (simp add: bs_single_def bs_tick_stages) (simp add: empty_buf_slot_def)

lemma bs_pop_single:
  "bs_wf b \<Longrightarrow> bs_single b \<Longrightarrow> bs_pop_output b = Inr (s, b') \<Longrightarrow>
     bs_wf b' \<and> bs_single b' \<and> bs_pipelined b' = bs_pipelined b"
  using filter_update_invalid [of empty_buf_slot "bs_stages b" "bs_depth b"]
  by (auto simp: bs_pop_output_def bs_wf_def bs_single_def empty_buf_slot_def)

section \<open>Properties\<close>

text \<open>Driven by its documented caller sequence, a pipelined buffer station accepts an
  operation in every cycle and puts each one out exactly \<open>depth\<close> cycles after it was accepted,
  in order and without losing any.\<close>

theorem bs_pipelined_delay_line:
  assumes "new_buffer_station depth True = Inr b"
  shows "\<exists>b'. bs_run ins b = Inr (take (length ins) (replicate (nat depth) None @
     map (map_option (\<lambda>(tag, v). \<lparr>bs_valid = True, bs_rob_tag = tag, bs_value = v\<rparr>)) ins),
     map (\<lambda>i. i \<noteq> None) ins, b')"
proof -
  have b: "bs_wf b" "bs_pipelined b" "bs_stages b = empty_buf_slot # replicate (nat depth) empty_buf_slot"
    using assms new_buffer_station_wf [OF assms] by (auto simp: new_buffer_station_def)
  have "slot_out empty_buf_slot = None" by (simp add: slot_out_def empty_buf_slot_def)
  moreover have "(\<lambda>i. slot_of (Some i)) = (\<lambda>(tag, v). \<lparr>bs_valid = True, bs_rob_tag = tag, bs_value = v\<rparr>)"
    by (auto simp: slot_of_def)
  ultimately show ?thesis
    using bs_run_pipelined [OF b, of ins] by (simp add: map_replicate_const)
qed

theorem bs_pipelined_delay_line_witness:
  "\<exists>b b'. new_buffer_station 2 True = Inr b \<and>
     bs_run [Some (0, 5), Some (1, 6), None, None] b = Inr
       ([None, None, Some \<lparr>bs_valid = True, bs_rob_tag = 0, bs_value = 5\<rparr>,
         Some \<lparr>bs_valid = True, bs_rob_tag = 1, bs_value = 6\<rparr>], [True, True, False, False], b')"
proof -
  obtain b where b: "new_buffer_station 2 True = Inr b" by (simp add: new_buffer_station_def)
  show ?thesis
    using bs_pipelined_delay_line [OF b, of "[Some (0, 5), Some (1, 6), None, None]"] b
    by (simp add: numeral_2_eq_2)
qed

text \<open>A buffer station that is not pipelined accepts an operation exactly when it is empty, so
  at most one operation is in its stages at any time, whatever the sequence of calls.\<close>

theorem bs_unpipelined_single:
  assumes "bs_wf b" and "\<not> bs_pipelined b" and "bs_single b"
  shows "(fst (bs_accept t v b) \<longleftrightarrow> \<not> bs_busy b) \<and> bs_single (snd (bs_accept t v b)) \<and>
     bs_single (bs_tick b) \<and> (case bs_pop_output b of Inl err \<Rightarrow> err = Assert_bs_output
        | Inr (s, b') \<Rightarrow> bs_single b' \<and> \<not> bs_busy b')"
proof -
  have "\<not> bs_busy b'" if pop: "bs_pop_output b = Inr (s, b')" for s b'
  proof -
    let ?n = "bs_depth b"
    have v: "bs_valid (bs_stages b ! ?n)" "b' = b\<lparr>bs_stages := (bs_stages b)[?n := empty_buf_slot]\<rparr>"
      using pop by (auto simp: bs_pop_output_def bs_has_output_def)
    have n: "?n < length (bs_stages b)" using assms(1) by (simp add: bs_wf_def)
    have "\<not> bs_valid (bs_stages b ! i)" if "i < length (bs_stages b)" "i \<noteq> ?n" for i
    proof
      assume "bs_valid (bs_stages b ! i)"
      then have "{i, ?n} \<subseteq> {k. k < length (bs_stages b) \<and> bs_valid (bs_stages b ! k)}"
        using that v n by auto
      then have "card {i, ?n} \<le> length (filter bs_valid (bs_stages b))"
        unfolding length_filter_conv_card by (intro card_mono) auto
      then show False using that assms(3) by (simp add: bs_single_def)
    qed
    then show ?thesis
      using v n by (auto simp: bs_busy_def list_ex_length nth_list_update empty_buf_slot_def)
  qed
  then show ?thesis
    using bs_accept_single [OF assms] bs_tick_single [OF assms(1,3)] bs_pop_single [OF assms(1,3)]
    by (cases "bs_has_output b") (auto split: sum.splits simp: bs_pop_output_def)
qed

theorem bs_unpipelined_single_witness:
  "\<exists>b. new_buffer_station 2 False = Inr b \<and> fst (bs_accept 3 9 b) \<and> bs_single (snd (bs_accept 3 9 b))"
proof -
  obtain b where b: "new_buffer_station 2 False = Inr b" by (simp add: new_buffer_station_def)
  have "bs_wf b" "\<not> bs_pipelined b" "bs_single b" "\<not> bs_busy b"
    using b new_buffer_station_wf [OF b]
    by (auto simp: new_buffer_station_def bs_single_def empty_buf_slot_def)
  then show ?thesis using bs_unpipelined_single [of b 3 9] b by simp
qed

end
