(* ===== verification/Trace.thy ===== *)
theory Trace
  imports Frontend Buffer_Station
begin

text \<open>
  What the simulator writes: the \<open>dump\<close>, \<open>open_log\<close> and \<open>log_cycle\<close> methods of every unit, the
  combined trace and the unit logs of the clock loop, and the final report of \<open>main\<close>
  (\<open>final_regs.txt\<close>). A stream is the text written to it so far. The manipulators \<open>setw\<close>, \<open>setfill\<close>,
  \<open>hex\<close> and \<open>dec\<close> and the default format of a \<open>float\<close> (six significant digits, as \<open>printf\<close>'s \<open>%g\<close>)
  are written out.
\<close>

section \<open>Formatted output\<close>

definition setw :: "nat \<Rightarrow> char \<Rightarrow> string \<Rightarrow> string" where
  "setw n c s = replicate (n - length s) c @ s"

definition hex_digit :: "nat \<Rightarrow> char" where
  "hex_digit n = ''0123456789abcdef'' ! n"

fun show_hex :: "nat \<Rightarrow> string" where
  "show_hex n = (if n < 16 then [hex_digit n] else show_hex (n div 16) @ [hex_digit (n mod 16)])"

declare show_hex.simps [simp del]

definition hex_word :: "u32 \<Rightarrow> string" where
  "hex_word w = show_hex (unat w)"

text \<open>The hexadecimal fields of fixed width the dumps print.\<close>

definition hex4 :: "u32 \<Rightarrow> string" where "hex4 w = setw 4 (CHR ''0'') (hex_word w)"
definition hex8 :: "u32 \<Rightarrow> string" where "hex8 w = setw 8 (CHR ''0'') (hex_word w)"

definition dec4 :: "int \<Rightarrow> string" where "dec4 n = setw 4 (CHR '' '') (show_int n)"
definition dec2 :: "nat \<Rightarrow> string" where "dec2 n = setw 2 (CHR '' '') (show_nat n)"

abbreviation nl :: string where "nl \<equiv> [newline]"

text \<open>The default format of a positive \<open>float\<close> value \<open>num / den\<close>: the decimal exponent, the six
  digits rounded to nearest, then fixed or scientific notation without trailing zeros.\<close>

definition dec_exponent :: "int \<Rightarrow> int \<Rightarrow> int" where
  "dec_exponent num den =
     (case find (\<lambda>k. if 0 \<le> k then 10 ^ nat k * den \<le> num else den \<le> num * 10 ^ nat (- k))
             (map (\<lambda>i. 38 - int i) [0..<84]) of
        Some k \<Rightarrow> k | None \<Rightarrow> -46)"

definition round_quotient :: "int \<Rightarrow> int \<Rightarrow> int" where
  "round_quotient a b = (let q = a div b; r = 2 * (a mod b) in if b < r \<or> (r = b \<and> odd q) then q + 1 else q)"

definition six_digits :: "int \<Rightarrow> int \<Rightarrow> int \<times> string" where
  "six_digits num den =
     (let x = dec_exponent num den;
          d = (if x \<le> 5 then round_quotient (num * 10 ^ nat (5 - x)) den
               else round_quotient num (den * 10 ^ nat (x - 5)))
      in if d = 1000000 then (x + 1, ''100000'') else (x, show_nat (nat d)))"

definition strip_zeros :: "string \<Rightarrow> string" where
  "strip_zeros s = rev (dropWhile (\<lambda>c. c = CHR ''0'') (rev s))"

definition with_fraction :: "string \<Rightarrow> string \<Rightarrow> string" where
  "with_fraction i f = (if strip_zeros f = [] then i else i @ CHR ''.'' # strip_zeros f)"

definition show_positive :: "int \<Rightarrow> int \<Rightarrow> string" where
  "show_positive num den =
     (let (x, ds) = six_digits num den in
      if x < -4 \<or> 6 \<le> x then
        with_fraction (take 1 ds) (drop 1 ds) @ CHR ''e'' # (if x < 0 then CHR ''-'' else CHR ''+'') #
          setw 2 (CHR ''0'') (show_nat (nat \<bar>x\<bar>))
      else if x < 0 then with_fraction ''0'' (replicate (nat (- x - 1)) (CHR ''0'') @ ds)
      else with_fraction (take (nat x + 1) ds) (drop (nat x + 1) ds))"

definition show_float :: "float32 \<Rightarrow> string" where
  "show_float f =
     (if f_sign f then ''-'' else []) @
     (if f_is_nan f then ''nan'' else if f_is_inf f then ''inf'' else if f_is_zero f then ''0''
      else show_positive (f_mant f * 2 ^ nat (f_scale f)) (2 ^ nat (- f_scale f)))"

section \<open>Dumps of the units\<close>

definition iq_dump :: "iq \<Rightarrow> int \<Rightarrow> string" where
  "iq_dump q cycle =
     ''[IQ  cycle='' @ dec4 cycle @ ''] '' @ ''fetched='' @ show_nat (iq_pc q) @
     '' buf='' @ show_nat (length (iq_buffer q)) @ ''/'' @ show_int (iq_capacity q) @
     concat (map (\<lambda>i. ''  [PC=0x'' @ hex4 (in_pc i) @ '' '' @ opcode_name (in_op i) @ '']'') (iq_buffer q)) @ nl"

definition rob_state_str :: "rob_state \<Rightarrow> string" where
  "rob_state_str s = (case s of ROB_IDLE \<Rightarrow> ''IDLE'' | ROB_IN_FLIGHT \<Rightarrow> ''INFLT'' | ROB_DONE \<Rightarrow> ''DONE'')"

definition rob_entry_line :: "nat \<Rightarrow> rob_entry \<Rightarrow> string" where
  "rob_entry_line i e =
     (if r_state e = ROB_IDLE then []
      else ''  ['' @ dec2 i @ ''] '' @ rob_state_str (r_state e) @ '' '' @ opcode_name (r_op e) @
        '' rd='' @ (if r_rd_fp e then ''f'' else ''x'') @ show_int (r_rd e) @ '' PC=0x'' @ hex4 (r_pc e) @ nl)"

definition rob_dump :: "rob \<Rightarrow> int \<Rightarrow> string" where
  "rob_dump b cycle =
     ''[ROB  cycle='' @ dec4 cycle @ '']'' @ '' head='' @ show_nat (rob_head b) @ '' tail='' @ show_nat (rob_tail b) @
     '' count='' @ show_nat (rob_count b) @ ''/'' @ show_nat (rob_size b) @ nl @
     concat (map (\<lambda>i. rob_entry_line i (rob_entries b ! i)) [0..<rob_size b])"

definition operand_str :: "string \<Rightarrow> int \<Rightarrow> u32 \<Rightarrow> string" where
  "operand_str name q v =
     (if q \<noteq> -1 then '' q'' @ name @ ''=ROB'' @ show_int q else '' v'' @ name @ ''=0x'' @ hex_word v)"

definition rs_entry_line :: "nat \<Rightarrow> rs_entry \<Rightarrow> string" where
  "rs_entry_line i e =
     (if \<not> rs_busy e then []
      else ''  ['' @ dec2 i @ ''] '' @ opcode_name (rs_op e) @ '' ROB='' @ show_int (rs_rob_tag e) @
        operand_str ''j'' (rs_qj e) (rs_vj e) @ operand_str ''k'' (rs_qk e) (rs_vk e) @
        (if 0 < rs_cycles_rem e then '' rem='' @ show_int (rs_cycles_rem e) else []) @
        (if rs_done e then '' DONE'' else []) @ nl)"

definition rs_dump :: "station \<Rightarrow> int \<Rightarrow> string" where
  "rs_dump s cycle = ''[RS   cycle='' @ dec4 cycle @ '']'' @ nl @
     concat (map (\<lambda>i. rs_entry_line i (st_entries s ! i)) [0..<st_size s])"

definition lsb_state_str :: "lsb_state \<Rightarrow> string" where
  "lsb_state_str s = (case s of LSB_IDLE \<Rightarrow> ''IDLE'' | LSB_WAITING \<Rightarrow> ''WAIT'' | LSB_ADDR_READY \<Rightarrow> ''ARDY''
     | LSB_EXECUTING \<Rightarrow> ''EXEC'' | LSB_DONE \<Rightarrow> ''DONE'')"

definition lsb_entry_line :: "nat \<Rightarrow> lsb_entry \<Rightarrow> string" where
  "lsb_entry_line p e =
     ''  ['' @ dec2 p @ ''] '' @ lsb_state_str (l_state e) @ '' '' @ opcode_name (l_op e) @
     '' ROB='' @ show_int (l_rob_tag e) @ operand_str ''j'' (l_qj e) (l_vj e) @
     (if is_store (l_op e) then operand_str ''k'' (l_qk e) (l_vk e) else []) @
     (if l_state e \<noteq> LSB_IDLE \<and> l_state e \<noteq> LSB_WAITING then '' addr=0x'' @ hex_word (l_eff_addr e) else []) @
     (if 0 < l_cycles_rem e then '' rem='' @ show_int (l_cycles_rem e) else []) @
     '' PC=0x'' @ hex4 (l_pc e) @ nl"

definition lsb_dump :: "lsb \<Rightarrow> int \<Rightarrow> string" where
  "lsb_dump q cycle =
     ''[LSB  cycle='' @ dec4 cycle @ '']'' @ '' head='' @ show_nat (lsb_head q) @ '' tail='' @ show_nat (lsb_tail q) @
     '' count='' @ show_nat (lsb_count q) @ ''/'' @ show_nat (lsb_size q) @ nl @
     concat (map (\<lambda>i. lsb_entry_line (lsb_phys q i) (lsb_entries q ! lsb_phys q i)) [0..<lsb_count q])"

definition rat_bank_str :: "char \<Rightarrow> rat_entry list \<Rightarrow> nat \<Rightarrow> string" where
  "rat_bank_str c es n = concat (map (\<lambda>i. if rat_valid (es ! i)
     then CHR '' '' # c # show_nat i @ ''->ROB'' @ show_int (rat_rob_tag (es ! i)) else []) [0..<n])"

definition rat_dump :: "rat \<Rightarrow> int \<Rightarrow> string" where
  "rat_dump t cycle = ''[RAT  cycle='' @ dec4 cycle @ '']'' @ nl @
     ''  INT:'' @ rat_bank_str (CHR ''x'') (int_rat t) NUM_INT_REGS @ nl @
     ''  FP: '' @ rat_bank_str (CHR ''f'') (fp_rat t) NUM_FP_REGS @ nl"

definition rf_dump :: "regfile \<Rightarrow> int \<Rightarrow> string" where
  "rf_dump rf cycle = ''[RF   cycle='' @ dec4 cycle @ '']'' @ nl @
     ''  INT:'' @ concat (map (\<lambda>i. '' x'' @ show_nat i @ ''='' @ show_int (sint (int_regs rf ! i))) [0..<NUM_INT_REGS]) @ nl @
     ''  FP: '' @ concat (map (\<lambda>i. '' f'' @ show_nat i @ ''='' @ show_float (fp_regs rf ! i)) [0..<NUM_FP_REGS]) @ nl"

definition cdb_dump :: "cdb \<Rightarrow> int \<Rightarrow> string" where
  "cdb_dump c cycle = ''[CDB  cycle='' @ dec4 cycle @ '']'' @
     (if cdb_pending c = [] then '' idle'' @ nl
      else concat (map (\<lambda>r. '' ROB'' @ show_int (c_rob_tag r) @ ''=0x'' @ hex8 (c_value r)) (cdb_pending c)) @ nl)"

definition cu_dump :: "commit_record \<Rightarrow> int \<Rightarrow> string" where
  "cu_dump l cycle = ''[CU   cycle='' @ dec4 cycle @ '']'' @
     (if \<not> cr_valid l then '' idle'' @ nl
      else '' COMMIT '' @ opcode_name (cr_op l) @ '' PC=0x'' @ hex4 (cr_pc l) @
        (if 0 \<le> cr_rd l then '' '' @ (if cr_rd_fp l then ''f'' else ''x'') @ show_int (cr_rd l) @
           ''=0x'' @ hex_word (cr_result l) else []) @ nl)"

definition bs_dump :: "buffer_station \<Rightarrow> int \<Rightarrow> string" where
  "bs_dump b cycle = ''[BS   cycle='' @ dec4 cycle @ ''] depth='' @ show_nat (bs_depth b) @ ''/'' @
     (if bs_pipelined b then ''pipe'' else ''nopipe'') @
     concat (map (\<lambda>i. if bs_valid (bs_stages b ! i)
       then '' ['' @ show_nat i @ '']=ROB'' @ show_int (bs_rob_tag (bs_stages b ! i)) @ ''=0x'' @
         hex_word (bs_value (bs_stages b ! i)) else []) [0..<bs_depth b + 1]) @ nl"

section \<open>Logs\<close>

text \<open>A log that has not been opened swallows what is written to it.\<close>

type_synonym log = "string option"

definition open_log :: log where "open_log = Some []"

definition log_append :: "string \<Rightarrow> log \<Rightarrow> log" where
  "log_append s l = (case l of None \<Rightarrow> None | Some t \<Rightarrow> Some (t @ s))"

definition iq_log_cycle :: "iq \<Rightarrow> int \<Rightarrow> log \<Rightarrow> log" where "iq_log_cycle q cycle l = log_append (iq_dump q cycle) l"
definition rob_log_cycle :: "rob \<Rightarrow> int \<Rightarrow> log \<Rightarrow> log" where "rob_log_cycle b cycle l = log_append (rob_dump b cycle) l"
definition rs_log_cycle :: "station \<Rightarrow> int \<Rightarrow> log \<Rightarrow> log" where "rs_log_cycle s cycle l = log_append (rs_dump s cycle) l"
definition lsb_log_cycle :: "lsb \<Rightarrow> int \<Rightarrow> log \<Rightarrow> log" where "lsb_log_cycle q cycle l = log_append (lsb_dump q cycle) l"
definition rat_log_cycle :: "rat \<Rightarrow> int \<Rightarrow> log \<Rightarrow> log" where "rat_log_cycle t cycle l = log_append (rat_dump t cycle) l"
definition rf_log_cycle :: "regfile \<Rightarrow> int \<Rightarrow> log \<Rightarrow> log" where "rf_log_cycle rf cycle l = log_append (rf_dump rf cycle) l"
definition cdb_log_cycle :: "cdb \<Rightarrow> int \<Rightarrow> log \<Rightarrow> log" where "cdb_log_cycle c cycle l = log_append (cdb_dump c cycle) l"
definition cu_log_cycle :: "commit_record \<Rightarrow> int \<Rightarrow> log \<Rightarrow> log" where "cu_log_cycle r cycle l = log_append (cu_dump r cycle) l"
definition bs_log_cycle :: "buffer_station \<Rightarrow> int \<Rightarrow> log \<Rightarrow> log" where "bs_log_cycle b cycle l = log_append (bs_dump b cycle) l"

lemmas log_cycle_defs = iq_log_cycle_def rob_log_cycle_def rs_log_cycle_def lsb_log_cycle_def rat_log_cycle_def
  rf_log_cycle_def cdb_log_cycle_def cu_log_cycle_def bs_log_cycle_def

text \<open>The files \<open>main\<close> writes while it runs.\<close>

record outputs =
  o_trace :: string
  o_iq :: log
  o_rob :: log
  o_rs :: "rs_unit \<Rightarrow> log"
  o_lsb :: log
  o_cdb :: log
  o_rat :: log
  o_rf :: log
  o_cu :: log

definition open_outputs :: outputs where
  "open_outputs = \<lparr>o_trace = [], o_iq = open_log, o_rob = open_log, o_rs = (\<lambda>_. open_log), o_lsb = open_log,
     o_cdb = open_log, o_rat = open_log, o_rf = open_log, o_cu = open_log\<rparr>"

text \<open>The snapshot at the start of a cycle.\<close>

definition snapshot :: "sim \<Rightarrow> string" where
  "snapshot s = (let n = s_cycle s in
     nl @ ''=== CYCLE '' @ show_int n @ '' ==='' @ nl @ iq_dump (s_iq s) n @ rob_dump (s_rob s) n @
     concat (map (\<lambda>u. rs_dump (s_rs s u) n) all_units) @ lsb_dump (s_lsb s) n @ rat_dump (s_rat s) n @
     cu_dump (s_last s) n)"

definition log_state :: "sim \<Rightarrow> outputs \<Rightarrow> outputs" where
  "log_state s out = (let n = s_cycle s in
     out\<lparr>o_trace := o_trace out @ snapshot s,
         o_iq := iq_log_cycle (s_iq s) n (o_iq out), o_rob := rob_log_cycle (s_rob s) n (o_rob out),
         o_rs := (\<lambda>u. rs_log_cycle (s_rs s u) n (o_rs out u)), o_lsb := lsb_log_cycle (s_lsb s) n (o_lsb out),
         o_rat := rat_log_cycle (s_rat s) n (o_rat out), o_rf := rf_log_cycle (s_rf s) n (o_rf out),
         o_cu := cu_log_cycle (s_last s) n (o_cu out)\<rparr>)"

text \<open>The bus is written after the broadcast phase.\<close>

definition log_bus :: "cdb \<Rightarrow> int \<Rightarrow> outputs \<Rightarrow> outputs" where
  "log_bus c n out = out\<lparr>o_trace := o_trace out @ cdb_dump c n, o_cdb := cdb_log_cycle c n (o_cdb out)\<rparr>"

text \<open>The body of the clock loop with everything it writes.\<close>

definition logged_cycle :: "fp_env \<Rightarrow> outputs \<times> sim \<Rightarrow> (outputs \<times> sim) res" where
  "logged_cycle fe = (\<lambda>(out, s).
     let out1 = log_state s out in
     res_bind (phase_stores (phase_execute fe s)) (\<lambda>s2.
     res_bind (phase_broadcast s2) (\<lambda>s3.
     let out2 = log_bus (s_cdb s3) (s_cycle s) out1 in
     res_bind (phase_commit (phase_snoop s3)) (\<lambda>s5.
     res_bind (phase_dispatch s5) (\<lambda>s6.
     Inr (out2, phase_end s6))))))"

lemma logged_cycle_sim: "logged_cycle fe (out, s) = Inr (out', s') \<Longrightarrow> sim_cycle fe s = Inr s'"
  by (auto simp: logged_cycle_def sim_cycle_def Let_def)

lemma logged_cycle_total: "sim_cycle fe s = Inr s' \<Longrightarrow> \<exists>out'. logged_cycle fe (out, s) = Inr (out', s')"
  by (auto simp: logged_cycle_def sim_cycle_def Let_def)

function logged_loop :: "fp_env \<Rightarrow> outputs \<times> sim \<Rightarrow> (outputs \<times> sim) res" where
  "logged_loop fe (out, s) =
     (if s_halted s \<or> MAX_CYCLES < s_cycle s then Inr (out, s)
      else (case logged_cycle fe (out, s) of
              Inl err \<Rightarrow> Inl err
            | Inr (out', s') \<Rightarrow> if sim_drained s' then Inr (out', s') else logged_loop fe (out', s')))"
  by pat_completeness auto
termination
  by (relation "measure (\<lambda>(fe, out, s). nat (MAX_CYCLES + 1 - s_cycle s))")
     (auto dest!: logged_cycle_sim sim_cycle_counts)

declare logged_loop.simps [simp del]

section \<open>The final report\<close>

definition int_reg_line :: "regfile \<Rightarrow> nat \<Rightarrow> string" where
  "int_reg_line rf i = CHR ''x'' # setw 2 (CHR ''0'') (show_nat i) @ '' 0x'' @ hex8 (int_regs rf ! i)"

definition fp_reg_line :: "regfile \<Rightarrow> nat \<Rightarrow> string" where
  "fp_reg_line rf i = CHR ''f'' # setw 2 (CHR ''0'') (show_nat i) @ '' 0x'' @ hex8 (float_to_bits (fp_regs rf ! i)) @
     '' ('' @ show_float (fp_regs rf ! i) @ ''f)''"

definition mem_line :: "u32 list \<Rightarrow> nat \<Rightarrow> string" where
  "mem_line mem i = ''mem['' @ setw 4 (CHR '' '') (show_nat i) @ ''] 0x'' @ hex8 (mem ! i)"

definition report_lines :: "string \<Rightarrow> sim \<Rightarrow> string list" where
  "report_lines path s =
     [''# Tomasulo simulation: '' @ path, ''# Total cycles: '' @ show_int (s_cycle s - 1), [], ''[INT_REGS]''] @
     map (int_reg_line (s_rf s)) [0..<NUM_INT_REGS] @ [[], ''[FP_REGS]''] @
     map (fp_reg_line (s_rf s)) [0..<NUM_FP_REGS] @ [[], ''[MEM_NONZERO]''] @
     map (mem_line (s_mem s)) (filter (\<lambda>i. s_mem s ! i \<noteq> 0) [0..<MEM_SIZE])"

definition final_report :: "string \<Rightarrow> sim \<Rightarrow> string" where
  "final_report path s = concat (map (\<lambda>l. l @ nl) (report_lines path s))"

text \<open>What the run appends to the trace at its end.\<close>

definition final_trace :: "sim \<Rightarrow> string" where
  "final_trace s = (let n = s_cycle s - 1 in
     nl @ ''=== FINAL STATE (cycle '' @ show_int n @ '') ==='' @ nl @ rf_dump (s_rf s) n)"

section \<open>Numbers read back\<close>

lemma hex_digit: "n < 16 \<Longrightarrow> digit_value (hex_digit n) = n \<and> hex_digit n \<noteq> newline \<and> hex_digit n \<noteq> CHR '','' \<and>
    hex_digit n \<noteq> CHR ''#'' \<and> \<not> is_space (hex_digit n)"
proof -
  have "\<forall>n \<in> set [0..<16]. digit_value (hex_digit n) = n \<and> hex_digit n \<noteq> newline \<and> hex_digit n \<noteq> CHR '','' \<and>
    hex_digit n \<noteq> CHR ''#'' \<and> \<not> is_space (hex_digit n)" by code_simp
  then show "n < 16 \<Longrightarrow> digit_value (hex_digit n) = n \<and> hex_digit n \<noteq> newline \<and> hex_digit n \<noteq> CHR '','' \<and>
    hex_digit n \<noteq> CHR ''#'' \<and> \<not> is_space (hex_digit n)" by (simp del: set_simps)
qed

lemma show_hex_chars: "c \<in> set (show_hex n) \<Longrightarrow> \<exists>d < 16. c = hex_digit d"
proof (induction n rule: show_hex.induct)
  case (1 n)
  then show ?case by (cases "n < 16") (auto simp: show_hex.simps [of n] intro: exI [of _ "n mod 16"])
qed

lemma digits_value_show_hex: "digits_value 16 (show_hex n) = int n"
proof (induction n rule: show_hex.induct)
  case (1 n)
  show ?case
  proof (cases "n < 16")
    case True
    then show ?thesis using hex_digit [of n] by (simp add: show_hex.simps [of n] digits_value_def)
  next
    case False
    then show ?thesis
      using 1 hex_digit [of "n mod 16"] by (simp add: show_hex.simps [of n] digits_value_snoc zdiv_int zmod_int)
  qed
qed

lemma digits_value_setw: "digits_value b (setw n (CHR ''0'') s) = digits_value b s"
proof -
  have "digit_value (CHR ''0'') = 0" by code_simp
  then have "foldl (\<lambda>acc c. acc * int b + int (digit_value c)) 0 (replicate k (CHR ''0'')) = 0" for k
    by (induction k) simp_all
  then show ?thesis by (simp add: digits_value_def setw_def)
qed

lemma setw_nonempty: "s \<noteq> [] \<Longrightarrow> setw n c s \<noteq> []"
  by (simp add: setw_def)

lemma setw_chars: "c \<in> set (setw n d s) \<Longrightarrow> c = d \<or> c \<in> set s"
  by (auto simp: setw_def)

lemma zero_digit: "digit_value (CHR ''0'') = 0" "\<not> is_space (CHR ''0'')"
  by code_simp+

lemma show_hex_nonempty [simp]: "show_hex n \<noteq> []"
  by (subst show_hex.simps) simp

lemma hex8_chars:
  assumes "c \<in> set (hex8 w)"
  shows "digit_value c < 16" and "c \<noteq> newline" and "c \<noteq> CHR '',''" and "c \<noteq> CHR ''#''" and "\<not> is_space c"
proof -
  have "c = CHR ''0'' \<or> c \<in> set (show_hex (unat w))"
    using assms setw_chars [of c 8 "CHR ''0''" "hex_word w"] by (simp add: hex8_def hex_word_def)
  moreover have "CHR ''0'' = hex_digit 0" by code_simp
  ultimately have "\<exists>d < 16. c = hex_digit d" using show_hex_chars [of c "unat w"] by force
  then obtain d where d: "d < 16" "c = hex_digit d" by blast
  show "digit_value c < 16" "c \<noteq> newline" "c \<noteq> CHR '',''" "c \<noteq> CHR ''#''" "\<not> is_space c"
    using hex_digit [OF d(1)] d by simp_all
qed

lemma stoul_hex8: "stoul_base0 (''0x'' @ hex8 w) = Inr (ucast w)"
proof -
  obtain d ds where d: "hex8 w = d # ds" using setw_nonempty [of "hex_word w" 8] by (cases "hex8 w") (auto simp: hex8_def hex_word_def)
  have lead: "leading_digits 16 (hex8 w) = hex8 w"
    using hex8_chars(1) [of _ w] by (auto simp: leading_digits_def takeWhile_eq_all_conv)
  have val: "digits_value 16 (hex8 w) = int (unat w)"
    by (simp only: hex8_def hex_word_def digits_value_setw digits_value_show_hex)
  have b: "detect_base (''0x'' @ hex8 w) = (16, hex8 w)"
    using hex8_chars(1) [of d w] d by (simp add: detect_base_def)
  have s: "split_sign (dropWhile is_space (''0x'' @ hex8 w)) = (False, ''0x'' @ hex8 w)"
    using zero_digit(2) by (simp add: split_sign_def)
  have "uint w < 2 ^ 32" using unsigned_less [of w, where ?'a = int] by simp
  then have "\<not> 2 ^ 64 \<le> int (unat w)" by simp
  moreover have "hex8 w \<noteq> []" using d by simp
  moreover have "(word_of_int (int (unat w)) :: 64 word) = ucast w" by simp
  ultimately show ?thesis
    unfolding stoul_base0_def s b Let_def prod.case lead val by simp
qed

lemma preg_padded:
  assumes "n < 2 ^ 31"
  shows "preg (x # setw k (CHR ''0'') (show_nat n)) = Inr (int n)"
proof -
  let ?s = "setw k (CHR ''0'') (show_nat n)"
  have ch: "digit_value c < 10 \<and> \<not> is_space c \<and> c \<noteq> CHR ''-'' \<and> c \<noteq> CHR ''+''" if "c \<in> set ?s" for c
    using setw_chars [OF that] show_nat_clean [of c n] zero_digit by auto
  obtain d ds where d: "?s = d # ds" using setw_nonempty [of "show_nat n" k] by (cases ?s) auto
  have "leading_digits 10 ?s = ?s" using ch by (simp add: leading_digits_def takeWhile_eq_all_conv)
  moreover have "split_sign (dropWhile is_space ?s) = (False, ?s)" using ch [of d] d by (simp add: split_sign_def)
  moreover have "digits_value 10 ?s = int n" by (simp only: digits_value_setw digits_value_show_nat)
  moreover have "?s \<noteq> []" "int n < 2 ^ 31" using d assms by simp_all
  ultimately show ?thesis by (simp add: preg_def stoi_def Let_def)
qed

section \<open>Lines of the report\<close>

lemma getlines_concat:
  assumes "\<forall>l \<in> set ls. newline \<notin> set l"
  shows "getlines (concat (map (\<lambda>l. l @ nl) ls)) = ls"
  using assms
proof (induction ls)
  case Nil
  then show ?case by (simp add: getlines.simps)
next
  case (Cons l ls)
  let ?r = "concat (map (\<lambda>l. l @ nl) ls)"
  have nl: "\<And>c. c \<in> set l \<Longrightarrow> c \<noteq> newline" using Cons.prems by auto
  have "takeWhile (\<lambda>c. c \<noteq> newline) (l @ newline # ?r) = l"
    "dropWhile (\<lambda>c. c \<noteq> newline) (l @ newline # ?r) = newline # ?r"
    using nl by (simp_all add: takeWhile_append2 dropWhile_append2)
  then show ?case using Cons by (simp add: getlines.simps [of "l @ newline # ?r"])
qed

lemma show_nat_newline: "newline \<notin> set (show_nat n)"
  using show_nat_clean(3) [of newline n] by auto

lemma show_int_newline: "newline \<notin> set (show_int v)"
  using show_nat_newline by (simp add: show_int_def newline_def)

lemma hex8_newline: "newline \<notin> set (hex8 w)"
  using hex8_chars(2) by blast

lemma setw_newline: "c \<noteq> newline \<Longrightarrow> newline \<notin> set s \<Longrightarrow> newline \<notin> set (setw n c s)"
  by (auto dest: setw_chars)

lemma with_fraction_newline: "newline \<notin> set i \<Longrightarrow> newline \<notin> set f \<Longrightarrow> newline \<notin> set (with_fraction i f)"
  by (auto simp: with_fraction_def strip_zeros_def newline_def dest: set_dropWhileD)

lemma six_digits_newline: "newline \<notin> set (snd (six_digits num den))"
  using show_nat_newline by (auto simp: six_digits_def Let_def newline_def)

lemma show_float_newline: "newline \<notin> set (show_float f)"
proof -
  have sub: "newline \<notin> set s \<Longrightarrow> newline \<notin> set (take n s) \<and> newline \<notin> set (drop n s)" for s n
    by (meson in_set_takeD in_set_dropD)
  have "newline \<notin> set (show_positive num den)" for num den
  proof (cases "six_digits num den")
    case (Pair x ds)
    have ds: "newline \<notin> set ds" using six_digits_newline [of num den] Pair by simp
    have nz: "newline \<notin> set ''0''" "newline \<notin> set (replicate k (CHR ''0''))" for k by (simp_all add: newline_def)
    have wf: "newline \<notin> set (with_fraction (take k ds) (drop k ds))"
      "newline \<notin> set (with_fraction ''0'' (replicate k (CHR ''0'') @ ds))" for k
      using with_fraction_newline [of "take k ds" "drop k ds"] with_fraction_newline [of "''0''" "replicate k (CHR ''0'') @ ds"]
        sub [OF ds, of k] nz ds by auto
    have ex: "newline \<notin> set (setw 2 (CHR ''0'') (show_nat k))" for k
      by (rule setw_newline) (simp add: newline_def, rule show_nat_newline)
    show ?thesis using wf ex by (auto simp: show_positive_def Pair Let_def newline_def)
  qed
  then show ?thesis by (auto simp: show_float_def newline_def)
qed

lemma report_line_newline:
  assumes "newline \<notin> set path" and "l \<in> set (report_lines path s)"
  shows "newline \<notin> set l"
proof -
  have "newline \<notin> set (int_reg_line rf i)" "newline \<notin> set (fp_reg_line rf i)" "newline \<notin> set (mem_line mem i)" for rf i mem
    using setw_newline [OF _ show_nat_newline, of "CHR ''0''" 2 i] setw_newline [OF _ show_nat_newline, of "CHR '' ''" 4 i]
      hex8_newline show_float_newline
    by (simp_all add: int_reg_line_def fp_reg_line_def mem_line_def newline_def)
  then show ?thesis
    using assms show_int_newline by (auto simp: report_lines_def newline_def)
qed

lemma getlines_report: "newline \<notin> set path \<Longrightarrow> getlines (final_report path s) = report_lines path s"
  using report_line_newline by (auto simp: final_report_def intro!: getlines_concat)

lemma report_nth:
  "i < 32 \<Longrightarrow> report_lines path s ! (4 + i) = int_reg_line (s_rf s) i"
  "i < 32 \<Longrightarrow> report_lines path s ! (38 + i) = fp_reg_line (s_rf s) i"
  by (simp_all add: report_lines_def nth_append)

text \<open>The first two tokens of a line.\<close>

lemma tokenize_pair:
  assumes "clean_token t" and "clean_token u"
  shows "tokenize (t @ CHR '' '' # u) = [t, u]" and "take 2 (tokenize (t @ CHR '' '' # u @ CHR '' '' # r)) = [t, u]"
proof -
  have c: "takeWhile (\<lambda>c. c \<noteq> CHR ''#'') (x @ y) = x @ takeWhile (\<lambda>c. c \<noteq> CHR ''#'') y" if "clean_token x" for x y
    using that by (intro takeWhile_append2) (auto simp: clean_token_def)
  have blank: "takeWhile (\<lambda>c. c \<noteq> CHR ''#'') (CHR '' '' # y) = CHR '' '' # takeWhile (\<lambda>c. c \<noteq> CHR ''#'') y" for y
    by simp
  note b = clean_tokenD(4) [OF assms(1)] clean_tokenD(4) [OF assms(2)]
  have "tokenize (t @ CHR '' '' # u @ []) = stream_words (t @ CHR '' '' # u)"
    unfolding tokenize_def c [OF assms(1)] blank c [OF assms(2)] map_append list.map b by simp
  then show "tokenize (t @ CHR '' '' # u) = [t, u]"
    using stream_words_Cons [OF assms(1), of u] stream_words_clean [OF assms(2)] by simp
  have "tokenize (t @ CHR '' '' # u @ CHR '' '' # r) =
      stream_words (t @ CHR '' '' # u @ CHR '' '' # blank_commas (takeWhile (\<lambda>c. c \<noteq> CHR ''#'') r))"
    unfolding tokenize_def c [OF assms(1)] blank c [OF assms(2)] map_append list.map b by simp
  then show "take 2 (tokenize (t @ CHR '' '' # u @ CHR '' '' # r)) = [t, u]"
    using stream_words_Cons [OF assms(1)] stream_words_Cons [OF assms(2)] by (simp add: numeral_2_eq_2)
qed

lemma clean_prefix: "clean_token [x] \<Longrightarrow> (\<And>c. c \<in> set s \<Longrightarrow> clean_token [c]) \<Longrightarrow> clean_token (x # s)"
  by (simp add: clean_token_def)

lemma report_tokens_clean:
  "clean_token (''0x'' @ hex8 w)" "clean_token (CHR ''x'' # setw k (CHR ''0'') (show_nat n))"
  "clean_token (CHR ''f'' # setw k (CHR ''0'') (show_nat n))"
proof -
  have lit: "clean_token ''0''" "clean_token ''x''" "clean_token ''f''" by code_simp+
  have "clean_token [c]" if "c \<in> set (hex8 w)" for c
    using hex8_chars [OF that] by (simp add: clean_token_def)
  then show "clean_token (''0x'' @ hex8 w)" using lit(1,2) by (auto simp: clean_token_def)
  have "clean_token [c]" if "c \<in> set (setw k (CHR ''0'') (show_nat n))" for c
    using setw_chars [OF that] show_nat_clean [of c n] lit(1) by (auto simp: clean_token_def)
  then show "clean_token (CHR ''x'' # setw k (CHR ''0'') (show_nat n))"
    "clean_token (CHR ''f'' # setw k (CHR ''0'') (show_nat n))"
    using lit by (simp_all add: clean_prefix)
qed

section \<open>Logging does not disturb the run\<close>

lemma logged_cycle_result: "res_bind (logged_cycle fe (out, s)) (\<lambda>(_, s'). Inr s') = sim_cycle fe s"
  by (auto simp: logged_cycle_def sim_cycle_def Let_def res_bind_def split: sum.splits)

lemma logged_cycle_cases:
  obtains e where "logged_cycle fe (out, s) = Inl e" and "sim_cycle fe s = Inl e"
  | out' s' where "logged_cycle fe (out, s) = Inr (out', s')" and "sim_cycle fe s = Inr s'"
  using logged_cycle_result [of fe out s] by (cases "logged_cycle fe (out, s)") auto

lemma logged_loop_result: "res_bind (logged_loop fe (out, s)) (\<lambda>(_, s'). Inr s') = sim_loop fe s"
proof (induction fe "(out, s)" arbitrary: out s rule: logged_loop.induct)
  case (1 fe out s)
  show ?case
    by (rule logged_cycle_cases [of fe out s])
       (auto simp: logged_loop.simps [of fe out s] sim_loop.simps [of fe s] 1)
qed

section \<open>What the logs hold\<close>

text \<open>The states at the start of the cycles a run executes.\<close>

function cycle_states :: "fp_env \<Rightarrow> sim \<Rightarrow> sim list" where
  "cycle_states fe s =
     (if s_halted s \<or> MAX_CYCLES < s_cycle s then []
      else s # (case sim_cycle fe s of
              Inl err \<Rightarrow> []
            | Inr s' \<Rightarrow> if sim_drained s' then [] else cycle_states fe s'))"
  by pat_completeness auto
termination
  by (relation "measure (\<lambda>(fe, s). nat (MAX_CYCLES + 1 - s_cycle s))")
     (auto dest: sim_cycle_counts)

declare cycle_states.simps [simp del]

lemma log_append_append: "log_append t (log_append s l) = log_append (s @ t) l"
  by (simp add: log_append_def split: option.split)

lemma log_append_Nil [simp]: "log_append [] l = l"
  by (simp add: log_append_def split: option.split)

definition logged :: "(sim \<Rightarrow> int \<Rightarrow> string) \<Rightarrow> sim list \<Rightarrow> string" where
  "logged d ts = concat (map (\<lambda>t. d t (s_cycle t)) ts)"

lemma logged_simps [simp]: "logged d [] = []" "logged d (t # ts) = d t (s_cycle t) @ logged d ts"
  by (simp_all add: logged_def)

text \<open>What the bus carries in a cycle: the results the units deliver in the broadcast phase.\<close>

definition broadcast_bus :: "fp_env \<Rightarrow> sim \<Rightarrow> cdb" where
  "broadcast_bus fe s = (case res_bind (phase_stores (phase_execute fe s)) phase_broadcast of
     Inl _ \<Rightarrow> s_cdb s | Inr s3 \<Rightarrow> s_cdb s3)"

lemma logged_cycle_outputs:
  assumes "logged_cycle fe (out, s) = Inr (out', s')"
  shows "out' = log_bus (broadcast_bus fe s) (s_cycle s) (log_state s out)"
  using assms by (auto simp: logged_cycle_def broadcast_bus_def Let_def)

lemma log_one:
  "o_iq (log_bus c n (log_state s out)) = log_append (iq_dump (s_iq s) (s_cycle s)) (o_iq out)"
  "o_rob (log_bus c n (log_state s out)) = log_append (rob_dump (s_rob s) (s_cycle s)) (o_rob out)"
  "o_rs (log_bus c n (log_state s out)) u = log_append (rs_dump (s_rs s u) (s_cycle s)) (o_rs out u)"
  "o_lsb (log_bus c n (log_state s out)) = log_append (lsb_dump (s_lsb s) (s_cycle s)) (o_lsb out)"
  "o_rat (log_bus c n (log_state s out)) = log_append (rat_dump (s_rat s) (s_cycle s)) (o_rat out)"
  "o_rf (log_bus c n (log_state s out)) = log_append (rf_dump (s_rf s) (s_cycle s)) (o_rf out)"
  "o_cu (log_bus c n (log_state s out)) = log_append (cu_dump (s_last s) (s_cycle s)) (o_cu out)"
  "o_cdb (log_bus c n (log_state s out)) = log_append (cdb_dump c n) (o_cdb out)"
  "Some (o_trace (log_bus c n (log_state s out))) = log_append (snapshot s @ cdb_dump c n) (Some (o_trace out))"
  by (simp_all add: log_bus_def log_state_def Let_def log_cycle_defs log_append_def)

lemma logged_loop_log:
  assumes step: "\<And>s out. sel (log_bus (broadcast_bus fe s) (s_cycle s) (log_state s out)) = log_append (d s (s_cycle s)) (sel out)"
    and run: "logged_loop fe (out, s) = Inr (out', s')"
  shows "sel out' = log_append (logged d (cycle_states fe s)) (sel out)"
  using run step
proof (induction fe "(out, s)" arbitrary: out s rule: logged_loop.induct)
  case (1 fe out s)
  show ?case
  proof (rule logged_cycle_cases [of fe out s])
    fix e assume "logged_cycle fe (out, s) = Inl e" "sim_cycle fe s = Inl e"
    then show ?thesis using "1.prems" by (auto simp: logged_loop.simps [of fe out s] cycle_states.simps [of fe s] split: if_splits)
  next
    fix o1 s1 assume c: "logged_cycle fe (out, s) = Inr (o1, s1)" "sim_cycle fe s = Inr s1"
    have "sel o1 = log_append (d s (s_cycle s)) (sel out)"
      using "1.prems"(2) by (simp only: logged_cycle_outputs [OF c(1)])
    then show ?thesis
      using 1 c by (auto simp: logged_loop.simps [of fe out s] cycle_states.simps [of fe s] log_append_append split: if_splits)
  qed
qed

lemma logged_loop_trace:
  assumes "logged_loop fe (out, s) = Inr (out', s')"
  shows "o_trace out' = o_trace out @ logged (\<lambda>t n. snapshot t @ cdb_dump (broadcast_bus fe t) n) (cycle_states fe s)"
  using logged_loop_log [where sel = "\<lambda>out. Some (o_trace out)" and d = "\<lambda>t n. snapshot t @ cdb_dump (broadcast_bus fe t) n",
      OF log_one(9) assms]
  by (simp add: log_append_def)

lemma cycle_states_numbered:
  "map s_cycle (cycle_states fe s) = map (\<lambda>k. s_cycle s + int k) [0..<length (cycle_states fe s)]"
proof (induction fe s rule: cycle_states.induct)
  case (1 fe s)
  have shift: "map (\<lambda>k. a + int k) [0..<Suc n] = a # map (\<lambda>k. (a + 1) + int k) [0..<n]" for a n
    by (simp add: upt_conv_Cons map_Suc_upt [symmetric] del: upt_Suc)
  show ?case
    by (cases "sim_cycle fe s")
       (auto simp: cycle_states.simps [of fe s] 1 shift dest: sim_cycle_counts simp del: upt_Suc)
qed

text \<open>C37. After a run every one of the thirteen logs holds, behind what it held before, one dump of its unit for each executed
  cycle, in the order of the cycles, which are numbered consecutively. The dump of the bus is taken after the
  broadcast phase of the cycle, the others at the start of the cycle; the trace holds for each cycle the
  snapshot of its start followed by the dump of the bus. A log that was not open still holds nothing.\<close>

theorem logs_record_states:
  assumes "logged_loop fe (out, s) = Inr (out', s')"
  shows "o_iq out' = log_append (logged (\<lambda>t. iq_dump (s_iq t)) (cycle_states fe s)) (o_iq out) \<and>
     o_rob out' = log_append (logged (\<lambda>t. rob_dump (s_rob t)) (cycle_states fe s)) (o_rob out) \<and>
     o_lsb out' = log_append (logged (\<lambda>t. lsb_dump (s_lsb t)) (cycle_states fe s)) (o_lsb out) \<and>
     o_rat out' = log_append (logged (\<lambda>t. rat_dump (s_rat t)) (cycle_states fe s)) (o_rat out) \<and>
     o_rf out' = log_append (logged (\<lambda>t. rf_dump (s_rf t)) (cycle_states fe s)) (o_rf out) \<and>
     o_cu out' = log_append (logged (\<lambda>t. cu_dump (s_last t)) (cycle_states fe s)) (o_cu out) \<and>
     o_cdb out' = log_append (logged (\<lambda>t. cdb_dump (broadcast_bus fe t)) (cycle_states fe s)) (o_cdb out) \<and>
     (\<forall>u. o_rs out' u = log_append (logged (\<lambda>t. rs_dump (s_rs t u)) (cycle_states fe s)) (o_rs out u)) \<and>
     o_trace out' = o_trace out @ logged (\<lambda>t n. snapshot t @ cdb_dump (broadcast_bus fe t) n) (cycle_states fe s) \<and>
     map s_cycle (cycle_states fe s) = map (\<lambda>k. s_cycle s + int k) [0..<length (cycle_states fe s)]"
  by (intro conjI allI cycle_states_numbered logged_loop_trace [OF assms]
      logged_loop_log [where sel = o_iq and d = "\<lambda>t. iq_dump (s_iq t)", OF log_one(1) assms]
      logged_loop_log [where sel = o_rob and d = "\<lambda>t. rob_dump (s_rob t)", OF log_one(2) assms]
      logged_loop_log [where sel = o_lsb and d = "\<lambda>t. lsb_dump (s_lsb t)", OF log_one(4) assms]
      logged_loop_log [where sel = o_rat and d = "\<lambda>t. rat_dump (s_rat t)", OF log_one(5) assms]
      logged_loop_log [where sel = o_rf and d = "\<lambda>t. rf_dump (s_rf t)", OF log_one(6) assms]
      logged_loop_log [where sel = o_cu and d = "\<lambda>t. cu_dump (s_last t)", OF log_one(7) assms]
      logged_loop_log [where sel = o_cdb and d = "\<lambda>t. cdb_dump (broadcast_bus fe t)", OF log_one(8) assms]
      logged_loop_log [where sel = "\<lambda>out. o_rs out u" and d = "\<lambda>t. rs_dump (s_rs t u)" for u, OF log_one(3) assms])

section \<open>\<open>main\<close>\<close>

text \<open>The command line, the file read and the files written: exit status and the files with their
  contents. \<open>fs\<close> gives the contents of the files that can be opened for reading.\<close>

definition unit_log_name :: "rs_unit \<Rightarrow> string" where
  "unit_log_name u = (case u of U_ALU \<Rightarrow> ''rs_alu.log'' | U_BRANCH \<Rightarrow> ''rs_branch.log''
     | U_FP_ADDSUB \<Rightarrow> ''rs_fp_addsub.log'' | U_FP_MUL \<Rightarrow> ''rs_fp_mul.log'' | U_FP_DIV \<Rightarrow> ''rs_fp_div.log''
     | U_FP_CVT \<Rightarrow> ''rs_fp_cvt.log'')"

definition written_files :: "string \<Rightarrow> string \<Rightarrow> outputs \<Rightarrow> sim \<Rightarrow> (string \<times> log) list" where
  "written_files asm_path out_dir out s =
     (let log_path = (\<lambda>n. out_dir @ ''/logs'' @ ''/'' @ n) in
      [(log_path ''iq.log'', o_iq out), (log_path ''rob.log'', o_rob out)] @
      map (\<lambda>u. (log_path (unit_log_name u), o_rs out u)) all_units @
      [(log_path ''lsb.log'', o_lsb out), (log_path ''cdb.log'', o_cdb out), (log_path ''rat.log'', o_rat out),
       (log_path ''rf.log'', o_rf out), (log_path ''cu.log'', o_cu out),
       (log_path ''trace.txt'', Some (o_trace out @ final_trace s)),
       (out_dir @ ''/final'' @ ''/'' @ ''final_regs.txt'', Some (final_report asm_path s))])"

definition sim_program :: "fp_env \<Rightarrow> (string \<Rightarrow> string option) \<Rightarrow> string list \<Rightarrow> (nat \<times> (string \<times> log) list) res" where
  "sim_program fe fs argv =
     (if length argv < 3 then Inr (1, [])
      else let asm_path = argv ! 1; out_dir = argv ! 2 in
        res_bind (parse_program (fs asm_path)) (\<lambda>program.
        if program = [] then Inr (1, [])
        else
          res_bind (sim_init program) (\<lambda>s.
          res_bind (logged_loop fe (open_outputs, s)) (\<lambda>(out, s').
          Inr (0, written_files asm_path out_dir out s')))))"

lemma sim_program_run:
  assumes "3 \<le> length argv" and "sim_file fe (fs (argv ! 1)) = Some (Inr s)"
  obtains out where "sim_program fe fs argv = Inr (0, written_files (argv ! 1) (argv ! 2) out s)"
proof -
  obtain prog s0 where p: "parse_program (fs (argv ! 1)) = Inr prog" "prog \<noteq> []" "sim_init prog = Inr s0" "sim_loop fe s0 = Inr s"
    using assms(2) by (auto simp: sim_file_def sim_main_def split: sum.splits if_splits)
  obtain out where "logged_loop fe (open_outputs, s0) = Inr (out, s)"
    using logged_loop_result [of fe open_outputs s0] p(4) by auto
  then show ?thesis using that assms(1) p by (simp add: sim_program_def)
qed

lemma logged_loop_returns:
  assumes "wf_program prog" and "sim_reach fe prog s"
  obtains out' s' where "logged_loop fe (out, s) = Inr (out', s')"
proof -
  obtain s' where "sim_loop fe s = Inr s'" using sim_loop_returns [OF assms] by (elim returnsE)
  then show ?thesis using that logged_loop_result [of fe out s] by auto
qed

theorem logs_record_states_witness:
  "\<exists>prog s out' s'. parse_program (Some sample_source) = Inr prog \<and> sim_init prog = Inr s \<and>
     logged_loop x86_env (open_outputs, s) = Inr (out', s') \<and>
     o_rob out' = Some (logged (\<lambda>t. rob_dump (s_rob t)) (cycle_states x86_env s)) \<and>
     o_cdb out' = Some (logged (\<lambda>t. cdb_dump (broadcast_bus x86_env t)) (cycle_states x86_env s))"
proof -
  define prog where "prog = projr (parse_program (Some sample_source))"
  have p: "parse_program (Some sample_source) = Inr prog" by (simp add: prog_def sample_source_parses)
  have wf: "wf_program prog"
    by (rule wf_program_parsed [OF p]) (simp add: prog_def sample_source_parses regs_below_def default_instruction_def)
  obtain s where s: "sim_init prog = Inr s" using sim_init_ok [OF wf] by metis
  obtain out' s' where r: "logged_loop x86_env (open_outputs, s) = Inr (out', s')"
    by (rule logged_loop_returns [OF wf reach_init [OF s]])
  show ?thesis
    using logs_record_states [OF r] p s r by (auto simp: open_outputs_def open_log_def log_append_def)
qed

section \<open>Reading the report\<close>

lemma int_reg_line_reads:
  assumes "i < 2 ^ 31"
  obtains t u where "tokenize (int_reg_line rf i) = [t, u]" and "preg t = Inr (int i)"
    and "stoul_base0 u = Inr (ucast (int_regs rf ! i))"
proof
  let ?t = "CHR ''x'' # setw 2 (CHR ''0'') (show_nat i)" and ?u = "''0x'' @ hex8 (int_regs rf ! i)"
  have "int_reg_line rf i = ?t @ CHR '' '' # ?u" by (simp add: int_reg_line_def)
  then show "tokenize (int_reg_line rf i) = [?t, ?u]" by (simp only: tokenize_pair(1) [OF report_tokens_clean(2,1)])
  show "preg ?t = Inr (int i)" by (rule preg_padded [OF assms])
  show "stoul_base0 ?u = Inr (ucast (int_regs rf ! i))" by (rule stoul_hex8)
qed

lemma fp_reg_line_reads:
  assumes "i < 2 ^ 31"
  obtains t u where "take 2 (tokenize (fp_reg_line rf i)) = [t, u]" and "preg t = Inr (int i)"
    and "stoul_base0 u = Inr (ucast (float_to_bits (fp_regs rf ! i)))"
proof
  let ?t = "CHR ''f'' # setw 2 (CHR ''0'') (show_nat i)" and ?u = "''0x'' @ hex8 (float_to_bits (fp_regs rf ! i))"
  have "fp_reg_line rf i = ?t @ CHR '' '' # ?u @ CHR '' '' # (CHR ''('' # show_float (fp_regs rf ! i) @ ''f)'')"
    by (simp add: fp_reg_line_def)
  then show "take 2 (tokenize (fp_reg_line rf i)) = [?t, ?u]" by (simp only: tokenize_pair(2) [OF report_tokens_clean(3,1)])
  show "preg ?t = Inr (int i)" by (rule preg_padded [OF assms])
  show "stoul_base0 ?u = Inr (ucast (float_to_bits (fp_regs rf ! i)))" by (rule stoul_hex8)
qed

lemma report_mem_lines:
  "drop 72 (report_lines path s) = map (mem_line (s_mem s)) (filter (\<lambda>i. s_mem s ! i \<noteq> 0) [0..<MEM_SIZE])"
  by (simp add: report_lines_def)

lemma written_report:
  "map_of (written_files path out_dir out s) (out_dir @ ''/final/final_regs.txt'') = Some (Some (final_report path s))"
  by (simp add: written_files_def Let_def all_units_def unit_log_name_def)

text \<open>A reader of the report: the number of the register and the bits on a line.\<close>

definition read_reg_line :: "string \<Rightarrow> (int \<times> 64 word) option" where
  "read_reg_line line = (case tokenize line of
     t # u # _ \<Rightarrow> (case (preg t, stoul_base0 u) of (Inr r, Inr v) \<Rightarrow> Some (r, v) | _ \<Rightarrow> None)
   | _ \<Rightarrow> None)"

lemma read_reg_line_take:
  assumes "take 2 (tokenize l) = [t, u]" and "preg t = Inr r" and "stoul_base0 u = Inr v"
  shows "read_reg_line l = Some (r, v)"
  using assms by (cases "tokenize l" rule: remdups_adj.cases) (simp_all add: read_reg_line_def numeral_2_eq_2)

lemma report_reads_back:
  assumes "newline \<notin> set path" and "i < 32"
  shows "read_reg_line (getlines (final_report path s) ! (4 + i)) = Some (int i, ucast (int_regs (s_rf s) ! i))"
    and "read_reg_line (getlines (final_report path s) ! (38 + i)) = Some (int i, ucast (float_to_bits (fp_regs (s_rf s) ! i)))"
    and "drop 72 (getlines (final_report path s)) =
      map (mem_line (s_mem s)) (filter (\<lambda>i. s_mem s ! i \<noteq> 0) [0..<MEM_SIZE])"
proof -
  have i: "i < 2 ^ 31" using assms(2) by simp
  note lines = getlines_report [OF assms(1)] report_nth [OF assms(2)]
  obtain t u where "tokenize (int_reg_line (s_rf s) i) = [t, u]" "preg t = Inr (int i)"
    "stoul_base0 u = Inr (ucast (int_regs (s_rf s) ! i))" by (rule int_reg_line_reads [OF i])
  then show "read_reg_line (getlines (final_report path s) ! (4 + i)) = Some (int i, ucast (int_regs (s_rf s) ! i))"
    unfolding lines by (intro read_reg_line_take) simp_all
  obtain t u where "take 2 (tokenize (fp_reg_line (s_rf s) i)) = [t, u]" "preg t = Inr (int i)"
    "stoul_base0 u = Inr (ucast (float_to_bits (fp_regs (s_rf s) ! i)))" by (rule fp_reg_line_reads [OF i])
  then show "read_reg_line (getlines (final_report path s) ! (38 + i)) = Some (int i, ucast (float_to_bits (fp_regs (s_rf s) ! i)))"
    unfolding lines by (intro read_reg_line_take)
  show "drop 72 (getlines (final_report path s)) = map (mem_line (s_mem s)) (filter (\<lambda>i. s_mem s ! i \<noteq> 0) [0..<MEM_SIZE])"
    unfolding lines by (rule report_mem_lines)
qed

text \<open>C29. The clock loop ends from every state, whatever the program does: it executes at most as many
  cycles as the limit leaves, and when it returns the cycle counter has counted exactly the cycles
  executed, so that the total in the report of a run from cycle 1 is their number.\<close>

theorem clock_loop_terminates:
  "int (length (cycle_states fe s)) \<le> max 0 (MAX_CYCLES + 1 - s_cycle s) \<and>
   (case sim_loop fe s of Inl _ \<Rightarrow> True | Inr s' \<Rightarrow> s_cycle s' = s_cycle s + int (length (cycle_states fe s)))"
proof (induction fe s rule: cycle_states.induct)
  case (1 fe s)
  show ?case
  proof (cases "s_halted s \<or> MAX_CYCLES < s_cycle s")
    case True
    then show ?thesis by (auto simp: cycle_states.simps [of fe s] sim_loop.simps [of fe s])
  next
    case False
    show ?thesis
    proof (cases "sim_cycle fe s")
      case (Inr s')
      then show ?thesis
        using False 1 [OF False Inr] sim_cycle_counts [OF Inr]
        by (auto simp: cycle_states.simps [of fe s] sim_loop.simps [of fe s] split: sum.splits)
    qed (use False in \<open>simp add: cycle_states.simps [of fe s] sim_loop.simps [of fe s]\<close>)
  qed
qed

end
