(* ===== verification/Invariants.thy ===== *)
theory Invariants
  imports Progress
begin

text \<open>
  How the units agree with each other in every state the clock loop reaches, stated on the units
  themselves: the renaming table, the reservation stations, the load/store buffer and the branch
  flag against the entries of the reorder buffer. The facts come from the machine invariant of
  the refinement, read without its ghost state.
\<close>

definition entry_writes :: "rob_entry \<Rightarrow> int \<Rightarrow> bool \<Rightarrow> bool" where
  "entry_writes e r fp \<longleftrightarrow> r_rd e = r \<and> r_rd_fp e = fp \<and> (r = 0 \<longrightarrow> fp)"

text \<open>\<open>LW x1, 0(x0); ADDI x2, x1, 1; JALR x0, x2, 0; HALT\<close>, for the examples.\<close>

definition chain_program :: "instruction list" where
  "chain_program =
     [default_instruction\<lparr>in_op := Op_LW, in_rd := 1, in_rs1 := 0\<rparr>,
      default_instruction\<lparr>in_op := Op_ADDI, in_rd := 2, in_rs1 := 1, in_imm := 1\<rparr>,
      default_instruction\<lparr>in_op := Op_JALR, in_rd := 0, in_rs1 := 2\<rparr>,
      default_instruction\<lparr>in_op := Op_HALT\<rparr>]"

section \<open>The machine invariant read on the units\<close>

lemma reach_machine:
  assumes "wf_program prog" and "sim_reach fe prog s" and "\<not> s_halted s"
  obtains F base where "machine_ok F (program_of prog) base s" and "fl_fe F = fe" and "cdb_pending (s_cdb s) = []"
proof -
  have "reach_ok fe (program_of prog) False s" by (rule sim_reach_ok [OF assms(2,1)]) simp
  then show ?thesis using that assms(3) by (auto simp: reach_ok_def cycle_ok_def)
qed

lemma machine_flight:
  assumes "machine_ok F P base s"
  shows "fl_rob F = rob_list (s_rob s)" and "fl_tag F = rob_tag_of (s_rob s)"
    and "length (fl_ins F) = rob_count (s_rob s)" and "flight_ok F"
  using assms machine_ok_length [OF assms] unfolding machine_ok_def by blast+

lemma machine_key:
  assumes "machine_ok F P base s" and "k < rob_count (s_rob s)"
  shows "r_op (rob_list (s_rob s) ! k) = op_at F k" and "r_rd (rob_list (s_rob s) ! k) = in_rd (fl_ins F ! k)"
    and "r_rd_fp (rob_list (s_rob s) ! k) = in_rd_fp (fl_ins F ! k)"
proof -
  note m = machine_flight [OF assms(1)]
  have "rob_key (fl_rob F ! k) = instr_key (fl_ins F ! k)" by (rule flight_okD(4) [OF m(4)]) (simp add: m assms(2))
  then show "r_op (rob_list (s_rob s) ! k) = op_at F k" "r_rd (rob_list (s_rob s) ! k) = in_rd (fl_ins F ! k)"
    "r_rd_fp (rob_list (s_rob s) ! k) = in_rd_fp (fl_ins F ! k)"
    by (simp_all add: m rob_key_def instr_key_def)
qed

lemma tags_distinct:
  assumes "machine_ok F P base s" and "j < rob_count (s_rob s)" and "k < rob_count (s_rob s)"
    and "rob_tag_of (s_rob s) j = rob_tag_of (s_rob s) k"
  shows "j = k"
proof -
  note m = machine_flight [OF assms(1)]
  have "inj_on (fl_tag F) {..<length (fl_ins F)}" using m(4) by (simp add: flight_ok_def)
  then show ?thesis using assms by (auto simp: m inj_on_def)
qed

lemma last_writer_spec:
  "case last_writer is n r fp of
      None \<Rightarrow> \<forall>k < n. \<not> writes (is ! k) r fp
    | Some k \<Rightarrow> k < n \<and> writes (is ! k) r fp \<and> (\<forall>j. k < j \<longrightarrow> j < n \<longrightarrow> \<not> writes (is ! j) r fp)"
  by (induction n) (auto simp: less_Suc_eq split: option.splits)

lemma machine_writes:
  assumes "machine_ok F P base s" and "k < rob_count (s_rob s)" and "0 \<le> r"
  shows "entry_writes (rob_list (s_rob s) ! k) r fp = writes (fl_ins F ! k) r fp"
  using assms(3) by (auto simp: entry_writes_def writes_def machine_key [OF assms(1,2)])

section \<open>The first cycle\<close>

text \<open>In the first cycle the stations, the load/store buffer and the reorder buffer are empty, so only the last two
  phases do anything.\<close>

lemma rs_tick_new: "rs_tick fe (new_station n) = new_station n"
proof -
  have "st_entries (rs_tick fe (new_station n)) ! i = st_entries (new_station n) ! i" if "i < n" for i
    using rs_tick_entry [of i "new_station n" fe] that
    by (simp add: new_station_def rs_executing_def rs_ready_def empty_rs_entry_def)
  then have "st_entries (rs_tick fe (new_station n)) = st_entries (new_station n)"
    by (intro nth_equalityI) (simp_all add: new_station_def)
  then show ?thesis by (simp add: station.equality)
qed

lemma first_cycle:
  assumes "sim_init prog = Inr s"
  shows "sim_cycle fe s = res_bind (phase_dispatch s) (\<lambda>s'. Inr (phase_end s'))"
proof -
  obtain b q where b: "new_rob ROB_SIZE = Inr b" "new_lsb LSB_SIZE = Inr q" "s_rob s = b" "s_lsb s = q"
    "s_rs s = (\<lambda>u. new_station (unit_size u))" "s_cdb s = new_cdb" "s_last s = empty_commit_record"
    using assms by (auto simp: sim_init_def)
  have q: "lsb_count q = 0" "\<not> lsb_has_load_result q"
    using b(2) by (auto simp: new_lsb_def lsb_has_load_result_def lsb_empty_def split: if_splits)
  have "lsb_tick (s_mem s) q = q"
    by (simp add: lsb_tick_def lsb_each_def lsb_pass3_def q)
  then have "phase_execute fe s = s" by (simp add: phase_execute_def b rs_tick_new)
  moreover have "phase_stores s = Inr s" by (simp add: phase_stores_def lsb_update_rob_def b q)
  moreover have no: "\<not> rs_has_result (s_rs s u)" for u
    by (simp add: b rs_has_result_def new_station_def empty_rs_entry_def list_ex_iff)
  have "broadcast_unit u s = Inr s" for u
    using no [of u] by (simp add: broadcast_unit_def broadcast_station.simps)
  then have "res_fold broadcast_unit us s = Inr s" for us by (induction us) simp_all
  then have "phase_broadcast s = Inr s" by (simp add: phase_broadcast_def broadcast_loads.simps b q)
  moreover have "phase_snoop s = s"
  proof -
    have "rs_snoop new_cdb st = st" for st by (simp add: rs_snoop_def cdb_results_def new_cdb_def)
    then have "fold (\<lambda>u s. s\<lparr>s_rs := (s_rs s)(u := rs_snoop (s_cdb s) (s_rs s u))\<rparr>) us s = s" for us
      by (induction us) (simp_all add: b(6))
    then show ?thesis by (simp add: phase_snoop_def lsb_snoop_def b cdb_results_def new_cdb_def)
  qed
  moreover have "\<not> rob_head_ready b"
    using b(1) by (auto simp: new_rob_def rob_head_ready_def rob_empty_def split: if_splits)
  then have "phase_commit s = Inr s"
    by (simp add: phase_commit_def cu_tick_idle commit_args_def commit_results_def b)
  ultimately show ?thesis by (simp add: sim_cycle_def)
qed

text \<open>The state after it, with a property that is evaluated.\<close>

definition after_dispatch :: "(sim \<Rightarrow> bool) \<Rightarrow> instruction list \<Rightarrow> bool" where
  "after_dispatch P prog = (case res_bind (sim_init prog) phase_dispatch of Inl _ \<Rightarrow> False | Inr s \<Rightarrow> P (phase_end s))"

lemma after_first_cycle:
  assumes "after_dispatch P prog"
  obtains s where "sim_reach x86_env prog s" and "P s"
proof -
  obtain s0 s where s: "sim_init prog = Inr s0" "phase_dispatch s0 = Inr s" "P (phase_end s)"
    using assms by (auto simp: after_dispatch_def split: sum.splits)
  then have "sim_cycle x86_env s0 = Inr (phase_end s)" by (simp add: first_cycle)
  moreover have "\<not> s_halted s0" using s(1) by (auto simp: sim_init_def)
  ultimately have "sim_reach x86_env prog (phase_end s)" using reach_cycle [OF reach_init [OF s(1)]] by blast
  then show ?thesis using that s(3) by blast
qed

lemma chain_wf: "wf_program (drop n chain_program)"
proof -
  have "wf_program chain_program"
    by (simp add: wf_program_def chain_program_def wf_instr_def default_instruction_def class_defs)
  then show ?thesis by (auto simp: wf_program_def dest: in_set_dropD)
qed

lemma chain_dispatched:
  "after_dispatch (\<lambda>s. \<not> s_halted s \<and> rat_producer (s_rat s) 1 False = Some 0 \<and>
     map (\<lambda>e. (l_rob_tag e, l_op e)) (lsb_list (s_lsb s)) = [(0, Op_LW)]) (drop 0 chain_program)"
  "after_dispatch (\<lambda>s. \<not> s_halted s \<and> list_ex rs_busy (st_entries (s_rs s U_ALU))) (drop 1 chain_program)"
  "after_dispatch (\<lambda>s. \<not> s_halted s \<and> s_branch_in_flight s) (drop 2 chain_program)"
  by code_simp+

section \<open>The invariants\<close>

text \<open>C30. In every state the clock loop reaches with a well-formed program each unit satisfies the
  well-formedness invariant of its class, the bus is empty between cycles and \<open>x0\<close> holds zero.\<close>

theorem reachable_units_wf:
  assumes "wf_program prog" and "sim_reach fe prog s" and "\<not> s_halted s"
  shows "rob_wf (s_rob s) \<and> lsb_wf (s_lsb s) \<and> iq_wf (s_iq s) \<and> regfile_wf (s_rf s) \<and> rat_wf (s_rat s) \<and>
     (\<forall>u. station_wf fe (s_rs s u)) \<and> cdb_pending (s_cdb s) = []"
  using reach_machine [OF assms] by (metis machine_ok_def rat_ok_def station_ok_def)

theorem reachable_units_wf_witness:
  "\<exists>s. sim_reach x86_env (drop 0 chain_program) s \<and> lsb_list (s_lsb s) \<noteq> [] \<and> rob_wf (s_rob s) \<and> lsb_wf (s_lsb s) \<and>
     (\<forall>u. station_wf x86_env (s_rs s u))"
  by (rule after_first_cycle [OF chain_dispatched(1)])
     (use reachable_units_wf [OF chain_wf, of x86_env 0] in \<open>metis list.discI list.map_disc_iff\<close>)

text \<open>C17. The renaming table names, for each register, the youngest instruction in the reorder buffer
  that writes it, and nothing when there is none.\<close>

theorem rename_table_consistent:
  assumes "wf_program prog" and "sim_reach fe prog s" and "\<not> s_halted s" and "rat_index_ok r fp"
  shows "case rat_producer (s_rat s) r fp of
      None \<Rightarrow> \<forall>k < rob_count (s_rob s). \<not> entry_writes (rob_list (s_rob s) ! k) r fp
    | Some tag \<Rightarrow> \<exists>k < rob_count (s_rob s). tag = rob_tag_of (s_rob s) k \<and> entry_writes (rob_list (s_rob s) ! k) r fp \<and>
        (\<forall>j. k < j \<longrightarrow> j < rob_count (s_rob s) \<longrightarrow> \<not> entry_writes (rob_list (s_rob s) ! j) r fp)"
proof -
  obtain F base where M: "machine_ok F (program_of prog) base s" by (rule reach_machine [OF assms(1-3)])
  note m = machine_flight [OF M] and w = machine_writes [OF M]
  have "0 \<le> r" using assms(4) by (simp add: rat_index_ok_def)
  moreover have "rat_producer (s_rat s) r fp =
      map_option (rob_tag_of (s_rob s)) (last_writer (fl_ins F) (rob_count (s_rob s)) r fp)"
    using M assms(4) m(2,3) by (simp add: machine_ok_def rat_ok_def)
  ultimately show ?thesis
    using last_writer_spec [of "rob_count (s_rob s)" "fl_ins F" r fp] w
    by (auto split: option.splits)
qed

theorem rename_table_consistent_witness:
  "\<exists>s. sim_reach x86_env (drop 0 chain_program) s \<and> rat_producer (s_rat s) 1 False = Some 0 \<and>
     (\<exists>k < rob_count (s_rob s). 0 = rob_tag_of (s_rob s) k \<and> entry_writes (rob_list (s_rob s) ! k) 1 False \<and>
        (\<forall>j. k < j \<longrightarrow> j < rob_count (s_rob s) \<longrightarrow> \<not> entry_writes (rob_list (s_rob s) ! j) 1 False))"
proof (rule after_first_cycle [OF chain_dispatched(1)])
  fix s assume s: "sim_reach x86_env (drop 0 chain_program) s"
    "\<not> s_halted s \<and> rat_producer (s_rat s) 1 False = Some 0 \<and>
      map (\<lambda>e. (l_rob_tag e, l_op e)) (lsb_list (s_lsb s)) = [(0, Op_LW)]"
  have "rat_index_ok 1 False" by (simp add: rat_index_ok_def)
  from rename_table_consistent [OF chain_wf s(1) _ this] s show ?thesis by auto
qed

text \<open>C18. No instruction is lost or duplicated between the reorder buffer and the reservation stations:
  an instruction in flight that belongs to a station has exactly one busy slot there, and every
  busy slot belongs to one such instruction.\<close>

theorem stations_match_rob:
  assumes "wf_program prog" and "sim_reach fe prog s" and "\<not> s_halted s"
  shows "(\<forall>k < rob_count (s_rob s). r_state (rob_list (s_rob s) ! k) = ROB_IN_FLIGHT \<longrightarrow>
        target_unit (r_op (rob_list (s_rob s) ! k)) = Some u \<longrightarrow>
        (\<exists>!i. i < length (st_entries (s_rs s u)) \<and> rs_busy (st_entries (s_rs s u) ! i) \<and>
           rs_rob_tag (st_entries (s_rs s u) ! i) = rob_tag_of (s_rob s) k)) \<and>
     (\<forall>e \<in> set (st_entries (s_rs s u)). rs_busy e \<longrightarrow>
        (\<exists>!k. k < rob_count (s_rob s) \<and> rs_rob_tag e = rob_tag_of (s_rob s) k \<and>
           r_state (rob_list (s_rob s) ! k) = ROB_IN_FLIGHT \<and> r_op (rob_list (s_rob s) ! k) = rs_op e \<and>
           target_unit (rs_op e) = Some u))"
proof -
  obtain F base where M: "machine_ok F (program_of prog) base s" by (rule reach_machine [OF assms])
  note m = machine_flight [OF M] and key = machine_key [OF M] and tag = tags_distinct [OF M]
  have ok: "station_ok F u (s_rs s u)" using M by (simp add: machine_ok_def)
  have dist: "distinct_tags (st_entries (s_rs s u))" using ok by (simp add: station_ok_def)
  have "\<exists>!i. i < length (st_entries (s_rs s u)) \<and> rs_busy (st_entries (s_rs s u) ! i) \<and>
      rs_rob_tag (st_entries (s_rs s u) ! i) = rob_tag_of (s_rob s) k"
    if k: "k < rob_count (s_rob s)" "r_state (rob_list (s_rob s) ! k) = ROB_IN_FLIGHT"
      "target_unit (r_op (rob_list (s_rob s) ! k)) = Some u" for k
  proof -
    obtain i where "i < length (st_entries (s_rs s u))" "rs_busy (st_entries (s_rs s u) ! i)"
      "rs_rob_tag (st_entries (s_rs s u) ! i) = fl_tag F k"
      by (rule station_ok_held [OF ok, of k]) (use k key in \<open>simp_all add: m\<close>)
    then show ?thesis using dist by (auto simp: m distinct_tags_def)
  qed
  moreover have "\<exists>!k. k < rob_count (s_rob s) \<and> rs_rob_tag e = rob_tag_of (s_rob s) k \<and>
      r_state (rob_list (s_rob s) ! k) = ROB_IN_FLIGHT \<and> r_op (rob_list (s_rob s) ! k) = rs_op e \<and>
      target_unit (rs_op e) = Some u"
    if e: "e \<in> set (st_entries (s_rs s u))" "rs_busy e" for e
  proof -
    have "rs_entry_ok F u e" using ok e(1) by (simp add: station_ok_def)
    then show ?thesis using e(2) key tag by (auto simp: rs_entry_ok_def holds_def m)
  qed
  ultimately show ?thesis by blast
qed

theorem stations_match_rob_witness:
  "\<exists>s. sim_reach x86_env (drop 1 chain_program) s \<and> (\<exists>e \<in> set (st_entries (s_rs s U_ALU)). rs_busy e \<and>
     (\<exists>!k. k < rob_count (s_rob s) \<and> rs_rob_tag e = rob_tag_of (s_rob s) k \<and>
        r_state (rob_list (s_rob s) ! k) = ROB_IN_FLIGHT \<and> r_op (rob_list (s_rob s) ! k) = rs_op e \<and>
        target_unit (rs_op e) = Some U_ALU))"
proof (rule after_first_cycle [OF chain_dispatched(2)])
  fix s assume s: "sim_reach x86_env (drop 1 chain_program) s"
    "\<not> s_halted s \<and> list_ex rs_busy (st_entries (s_rs s U_ALU))"
  then obtain e where e: "e \<in> set (st_entries (s_rs s U_ALU))" "rs_busy e" and "\<not> s_halted s" by (auto simp: list_ex_iff)
  note m = stations_match_rob [OF chain_wf s(1) this(3), of U_ALU, THEN conjunct2, rule_format, OF e]
  show ?thesis by (rule exI [of _ s], rule conjI, rule s(1), rule bexI [OF _ e(1)], rule conjI, rule e(2), rule m)
qed

text \<open>C19. The load/store buffer holds, in program order, exactly the stores that have not retired and
  the loads that have not delivered their result. A load leaves when its result is broadcast, before it
  retires; \<open>docs/ISA.md\<close> (load lifecycle, DONE) has its slot freed after the commit.\<close>

theorem lsb_matches_rob:
  assumes "wf_program prog" and "sim_reach fe prog s" and "\<not> s_halted s"
  shows "map (\<lambda>e. (l_rob_tag e, l_op e)) (lsb_list (s_lsb s)) =
     map (\<lambda>k. (rob_tag_of (s_rob s) k, r_op (rob_list (s_rob s) ! k)))
       (filter (\<lambda>k. let e = rob_list (s_rob s) ! k in
          is_store (r_op e) \<or> (is_load (r_op e) \<and> r_state e = ROB_IN_FLIGHT)) [0..<rob_count (s_rob s)])"
proof -
  obtain F base where M: "machine_ok F (program_of prog) base s" by (rule reach_machine [OF assms])
  note m = machine_flight [OF M] and key = machine_key [OF M]
  have "filter (\<lambda>k. let e = rob_list (s_rob s) ! k in
      is_store (r_op e) \<or> (is_load (r_op e) \<and> r_state e = ROB_IN_FLIGHT)) [0..<rob_count (s_rob s)] = lsb_slots F"
    unfolding lsb_slots_def m in_lsb_def Let_def by (rule filter_cong) (simp_all add: key)
  moreover have "list_all2 (lsb_entry_ok F) (lsb_slots F) (lsb_list (s_lsb s))"
    using M by (simp add: machine_ok_def lsb_ok_def)
  moreover have "\<forall>k \<in> set (lsb_slots F). k < rob_count (s_rob s)" by (simp add: lsb_slots_def m)
  ultimately show ?thesis
    by (auto simp: list_eq_iff_nth_eq list_all2_conv_all_nth lsb_entry_ok_def m key)
qed

theorem lsb_matches_rob_witness:
  "\<exists>s. sim_reach x86_env (drop 0 chain_program) s \<and> map (\<lambda>e. (l_rob_tag e, l_op e)) (lsb_list (s_lsb s)) = [(0, Op_LW)] \<and>
     map (\<lambda>k. (rob_tag_of (s_rob s) k, r_op (rob_list (s_rob s) ! k)))
       (filter (\<lambda>k. let e = rob_list (s_rob s) ! k in
          is_store (r_op e) \<or> (is_load (r_op e) \<and> r_state e = ROB_IN_FLIGHT)) [0..<rob_count (s_rob s)]) = [(0, Op_LW)]"
proof (rule after_first_cycle [OF chain_dispatched(1)])
  fix s assume s: "sim_reach x86_env (drop 0 chain_program) s"
    "\<not> s_halted s \<and> rat_producer (s_rat s) 1 False = Some 0 \<and>
      map (\<lambda>e. (l_rob_tag e, l_op e)) (lsb_list (s_lsb s)) = [(0, Op_LW)]"
  then have "\<not> s_halted s" and l: "map (\<lambda>e. (l_rob_tag e, l_op e)) (lsb_list (s_lsb s)) = [(0, Op_LW)]" by simp_all
  note m = lsb_matches_rob [OF chain_wf s(1) this(1)]
  show ?thesis by (rule exI [of _ s], intro conjI, rule s(1), rule l, rule trans [OF m [symmetric] l])
qed

text \<open>C20. Nothing is ever dispatched behind an unresolved branch or jump: the branch flag is set exactly
  while one is in the reorder buffer, where it is the youngest entry. The simulator waits for the branch;
  \<open>docs/ISA.md\<close> (branch resolution) describes a prediction as not taken, with fetch continuing at \<open>PC + 4\<close>
  and a flush of the reorder buffer, the stations and the load/store buffer when it was wrong.\<close>

theorem branch_is_youngest:
  assumes "wf_program prog" and "sim_reach fe prog s" and "\<not> s_halted s"
  shows "(\<forall>k < rob_count (s_rob s). is_branch (r_op (rob_list (s_rob s) ! k)) \<or> is_jump (r_op (rob_list (s_rob s) ! k)) \<longleftrightarrow>
       s_branch_in_flight s \<and> Suc k = rob_count (s_rob s)) \<and>
     (s_branch_in_flight s \<longrightarrow> 0 < rob_count (s_rob s))"
proof -
  obtain F base where M: "machine_ok F (program_of prog) base s" by (rule reach_machine [OF assms])
  note m = machine_flight [OF M] and key = machine_key [OF M]
  have b: "if s_branch_in_flight s then fl_ins F \<noteq> [] \<and> control (in_op (last (fl_ins F)))
      else (\<forall>k < length (fl_ins F). \<not> control (op_at F k))" using M by (auto simp: machine_ok_def)
  have last: "last (fl_ins F) = fl_ins F ! k" if "Suc k = length (fl_ins F)" for k
    using that by (metis diff_Suc_1 last_conv_nth length_0_conv nat.distinct(1))
  have "control (op_at F k) \<longleftrightarrow> s_branch_in_flight s \<and> Suc k = length (fl_ins F)" if "k < length (fl_ins F)" for k
    using flight_okD(6) [OF m(4) that] b last that by (cases "s_branch_in_flight s") auto
  then show ?thesis using b by (auto simp: key m(3) [symmetric] control_def)
qed

theorem branch_is_youngest_witness:
  "\<exists>s. sim_reach x86_env (drop 2 chain_program) s \<and> s_branch_in_flight s \<and> 0 < rob_count (s_rob s) \<and>
     (let op = r_op (rob_list (s_rob s) ! (rob_count (s_rob s) - 1)) in is_branch op \<or> is_jump op)"
proof (rule after_first_cycle [OF chain_dispatched(3)])
  fix s assume s: "sim_reach x86_env (drop 2 chain_program) s" "\<not> s_halted s \<and> s_branch_in_flight s"
  note y = branch_is_youngest [OF chain_wf s(1)]
  then have "0 < rob_count (s_rob s)" using s by blast
  then show ?thesis using y s by (intro exI [of _ s]) (auto simp: Let_def)
qed

end
