(* ===== verification/Hw_Types.thy ===== *)
theory Hw_Types
  imports Sim
begin

text \<open>
  \<open>hardware/pkg/rv32if_pkg.sv\<close>: the types, sizes and helper functions shared by the modules of the
  SystemVerilog core. A packed structure is a record, a vector of \<open>n\<close> bits a word of length \<open>n\<close>, a
  module the record of its registers with one function per combinational output and one for the
  clock edge, in which every right-hand side reads the registers before the edge and a later
  assignment to a register overrides an earlier one. Values are two-valued: the registers hold
  what reset writes. \<open>hw_op\<close> is the opcode the hardware uses for an opcode of the simulator.
\<close>

unbundle bit_operations_syntax

type_synonym tag = "4 word"
type_synonym arch_reg = "5 word"

section \<open>Sizes\<close>

definition HW_ROB_SIZE :: nat where "HW_ROB_SIZE = 16"
definition HW_RS_ALU_SIZE :: nat where "HW_RS_ALU_SIZE = 6"
definition HW_RS_BRANCH_SIZE :: nat where "HW_RS_BRANCH_SIZE = 2"
definition HW_RS_FP_ADDSUB_SIZE :: nat where "HW_RS_FP_ADDSUB_SIZE = 3"
definition HW_RS_FP_MUL_SIZE :: nat where "HW_RS_FP_MUL_SIZE = 2"
definition HW_RS_FP_DIV_SIZE :: nat where "HW_RS_FP_DIV_SIZE = 2"
definition HW_RS_FP_CVT_SIZE :: nat where "HW_RS_FP_CVT_SIZE = 2"
definition HW_NUM_FU :: nat where "HW_NUM_FU = 7"

section \<open>Opcodes and structures\<close>

datatype opcode_e =
    OP_ADD | OP_SUB | OP_AND | OP_OR | OP_XOR | OP_SLL | OP_SRL | OP_SRA
  | OP_ADDI | OP_ANDI | OP_ORI | OP_XORI | OP_SLLI | OP_SRLI
  | OP_LW | OP_SW | OP_BEQ | OP_BNE | OP_BLT | OP_BGE | OP_JAL | OP_JALR | OP_LUI | OP_AUIPC
  | OP_SRAI | OP_SLT | OP_SLTU | OP_SLTI | OP_SLTIU
  | OP_LB | OP_LBU | OP_LH | OP_LHU | OP_SB | OP_SH | OP_BLTU | OP_BGEU
  | OP_FADD_S | OP_FSUB_S | OP_FMUL_S | OP_FDIV_S | OP_FLW | OP_FSW | OP_FCVT_W_S | OP_FCVT_S_W
  | OP_NOP | OP_HALT

record instr_t =
  i_op :: opcode_e
  i_rd :: arch_reg
  i_rs1 :: arch_reg
  i_rs2 :: arch_reg
  i_imm :: u32
  i_rd_fp :: bool
  i_rs1_fp :: bool
  i_rs2_fp :: bool
  i_rd_valid :: bool
  i_pc :: u32

record cdb_t =
  b_tag :: tag
  b_value :: u32
  b_valid :: bool

definition is_branch_op :: "opcode_e \<Rightarrow> bool" where
  "is_branch_op op \<longleftrightarrow> op = OP_BEQ \<or> op = OP_BNE \<or> op = OP_BLT \<or> op = OP_BGE \<or> op = OP_BLTU \<or> op = OP_BGEU"

definition is_jump_op :: "opcode_e \<Rightarrow> bool" where
  "is_jump_op op \<longleftrightarrow> op = OP_JAL \<or> op = OP_JALR"

definition is_load_op :: "opcode_e \<Rightarrow> bool" where
  "is_load_op op \<longleftrightarrow> op = OP_LW \<or> op = OP_FLW \<or> op = OP_LB \<or> op = OP_LBU \<or> op = OP_LH \<or> op = OP_LHU"

definition is_store_op :: "opcode_e \<Rightarrow> bool" where
  "is_store_op op \<longleftrightarrow> op = OP_SW \<or> op = OP_FSW \<or> op = OP_SB \<or> op = OP_SH"

section \<open>The simulator's opcodes in hardware\<close>

definition hw_op :: "opcode \<Rightarrow> opcode_e" where
  "hw_op op = (case op of
     Op_ADD \<Rightarrow> OP_ADD | Op_SUB \<Rightarrow> OP_SUB | Op_AND \<Rightarrow> OP_AND | Op_OR \<Rightarrow> OP_OR | Op_XOR \<Rightarrow> OP_XOR
   | Op_SLL \<Rightarrow> OP_SLL | Op_SRL \<Rightarrow> OP_SRL | Op_SRA \<Rightarrow> OP_SRA | Op_ADDI \<Rightarrow> OP_ADDI | Op_ANDI \<Rightarrow> OP_ANDI
   | Op_ORI \<Rightarrow> OP_ORI | Op_XORI \<Rightarrow> OP_XORI | Op_SLLI \<Rightarrow> OP_SLLI | Op_SRLI \<Rightarrow> OP_SRLI | Op_LUI \<Rightarrow> OP_LUI
   | Op_LW \<Rightarrow> OP_LW | Op_SW \<Rightarrow> OP_SW | Op_BEQ \<Rightarrow> OP_BEQ | Op_BNE \<Rightarrow> OP_BNE | Op_BLT \<Rightarrow> OP_BLT
   | Op_BGE \<Rightarrow> OP_BGE | Op_JAL \<Rightarrow> OP_JAL | Op_JALR \<Rightarrow> OP_JALR | Op_FADD_S \<Rightarrow> OP_FADD_S
   | Op_FSUB_S \<Rightarrow> OP_FSUB_S | Op_FMUL_S \<Rightarrow> OP_FMUL_S | Op_FDIV_S \<Rightarrow> OP_FDIV_S | Op_FLW \<Rightarrow> OP_FLW
   | Op_FSW \<Rightarrow> OP_FSW | Op_FCVT_W_S \<Rightarrow> OP_FCVT_W_S | Op_FCVT_S_W \<Rightarrow> OP_FCVT_S_W
   | Op_NOP \<Rightarrow> OP_NOP | Op_HALT \<Rightarrow> OP_HALT)"

text \<open>The simulator keeps the 20 bits of \<open>LUI\<close> as they are written and shifts them when it executes;
  the hardware decoder has shifted them already.\<close>

definition hw_imm :: "opcode \<Rightarrow> i32 \<Rightarrow> u32" where
  "hw_imm op imm = (if op = Op_LUI then push_bit 12 imm else imm)"

lemma hw_classes:
  "is_branch_op (hw_op op) = is_branch op" "is_jump_op (hw_op op) = is_jump op"
  "is_load_op (hw_op op) = is_load op" "is_store_op (hw_op op) = is_store op"
  by (cases op; simp add: hw_op_def class_defs is_branch_op_def is_jump_op_def is_load_op_def is_store_op_def)+

lemmas hw_size_defs = HW_ROB_SIZE_def HW_RS_ALU_SIZE_def HW_RS_BRANCH_SIZE_def HW_RS_FP_ADDSUB_SIZE_def
  HW_RS_FP_MUL_SIZE_def HW_RS_FP_DIV_SIZE_def HW_RS_FP_CVT_SIZE_def HW_NUM_FU_def

text \<open>The two configurations agree.\<close>

lemma hw_sizes:
  "int HW_ROB_SIZE = ROB_SIZE" "HW_RS_ALU_SIZE = unit_size U_ALU" "HW_RS_BRANCH_SIZE = unit_size U_BRANCH"
  "HW_RS_FP_ADDSUB_SIZE = unit_size U_FP_ADDSUB" "HW_RS_FP_MUL_SIZE = unit_size U_FP_MUL"
  "HW_RS_FP_DIV_SIZE = unit_size U_FP_DIV" "HW_RS_FP_CVT_SIZE = unit_size U_FP_CVT"
  by (simp_all add: hw_size_defs unit_size_def size_defs)

end
