(* ===== verification/Hw_Cdb.thy ===== *)
theory Hw_Cdb
  imports Hw_Types
begin

text \<open>
  \<open>hardware/core/arbiter.sv\<close> and \<open>hardware/core/cdb.sv\<close>: the round-robin arbiter of the common data bus.
  The arbiter subtracts the one-hot base from the doubled request vector, so that the borrow stops
  at the first request at or after the base. The specification of that trick is a search; from it
  follow that one result at most is on the bus, the one of a unit that has one, and that no unit
  waits longer than one round.
\<close>

section \<open>The modules\<close>

type_synonym fu_vec = "7 word"

definition arbiter :: "fu_vec \<Rightarrow> fu_vec \<Rightarrow> fu_vec" where
  "arbiter req base =
     (let double_req = (word_cat req req :: 14 word);
          double_grant = double_req AND NOT (double_req - ucast base)
      in ucast double_grant OR ucast (drop_bit 7 double_grant))"

record hw_cdb =
  last_grant :: fu_vec

definition hw_cdb_reset :: hw_cdb where
  "hw_cdb_reset = \<lparr>last_grant = 1\<rparr>"

text \<open>The base: the last winner rotated left by one.\<close>

definition cdb_base :: "hw_cdb \<Rightarrow> fu_vec" where
  "cdb_base c = push_bit 1 (last_grant c) OR drop_bit 6 (last_grant c)"

definition valid_vec :: "cdb_t list \<Rightarrow> fu_vec" where
  "valid_vec fus = fold (\<lambda>i v. if b_valid (fus ! i) then set_bit i v else v) [0..<HW_NUM_FU] 0"

definition fu_grant :: "cdb_t list \<Rightarrow> hw_cdb \<Rightarrow> fu_vec" where
  "fu_grant fus c = arbiter (valid_vec fus) (cdb_base c)"

text \<open>The one-hot vector as a number: the indices masked by their bits, or-ed together.\<close>

definition grant_idx :: "fu_vec \<Rightarrow> nat" where
  "grant_idx g = fold (\<lambda>i n. n OR (if bit g i then i else 0)) [0..<HW_NUM_FU] 0"

definition cdb_o :: "cdb_t list \<Rightarrow> hw_cdb \<Rightarrow> cdb_t" where
  "cdb_o fus c =
     (if fu_grant fus c \<noteq> 0 then fus ! grant_idx (fu_grant fus c)
      else \<lparr>b_tag = 0, b_value = 0, b_valid = False\<rparr>)"

definition hw_cdb_clock :: "cdb_t list \<Rightarrow> hw_cdb \<Rightarrow> hw_cdb" where
  "hw_cdb_clock fus c = (if fu_grant fus c \<noteq> 0 then c\<lparr>last_grant := fu_grant fus c\<rparr> else c)"

text \<open>The register after \<open>t\<close> clock edges, for a sequence of inputs.\<close>

primrec hw_cdb_run :: "(nat \<Rightarrow> cdb_t list) \<Rightarrow> nat \<Rightarrow> hw_cdb \<Rightarrow> hw_cdb" where
  "hw_cdb_run ins 0 c = c"
| "hw_cdb_run ins (Suc t) c = hw_cdb_clock (ins t) (hw_cdb_run ins t c)"

section \<open>The arbiter is a search\<close>

definition first_request :: "fu_vec \<Rightarrow> nat \<Rightarrow> nat option" where
  "first_request req b = find (\<lambda>i. bit req i) (map (\<lambda>k. (b + k) mod 7) [0..<7])"

lemma arbiter_table:
  "\<forall>b \<in> set [0..<7]. \<forall>r \<in> set [0..<128].
     arbiter (of_nat r) (2 ^ b) = (case first_request (of_nat r) b of None \<Rightarrow> 0 | Some i \<Rightarrow> 2 ^ i)"
  by code_simp

lemma arbiter_search:
  assumes "b < 7"
  shows "arbiter req (2 ^ b) = (case first_request req b of None \<Rightarrow> 0 | Some i \<Rightarrow> 2 ^ i)"
proof -
  have "unat req \<in> set [0..<128]" using unsigned_less [of req, where ?'a = nat] by simp
  moreover have "b \<in> set [0..<7]" using assms by simp
  ultimately have "arbiter (of_nat (unat req)) (2 ^ b) =
      (case first_request (of_nat (unat req)) b of None \<Rightarrow> 0 | Some i \<Rightarrow> 2 ^ i)"
    using arbiter_table by blast
  then show ?thesis by simp
qed

lemma base_rotates: "\<forall>l \<in> set [0..<7]. cdb_base \<lparr>last_grant = 2 ^ l\<rparr> = 2 ^ (Suc l mod 7)"
  by code_simp

lemma grant_idx_one_hot: "\<forall>i \<in> set [0..<7]. grant_idx (2 ^ i) = i \<and> (2 ^ i :: fu_vec) \<noteq> 0"
  by code_simp

lemma first_request_Some:
  assumes "first_request req b = Some i"
  obtains k where "k < 7" and "i = (b + k) mod 7" and "bit req i" and "\<forall>j < k. \<not> bit req ((b + j) mod 7)"
proof -
  obtain k where "k < 7" "bit req (map (\<lambda>k. (b + k) mod 7) [0..<7] ! k)" "map (\<lambda>k. (b + k) mod 7) [0..<7] ! k = i"
    "\<forall>j < k. \<not> bit req (map (\<lambda>k. (b + k) mod 7) [0..<7] ! j)"
    using assms by (auto simp: first_request_def find_Some_iff)
  then show thesis using that [of k] by auto
qed

lemma first_request_total: "i < 7 \<Longrightarrow> bit req i \<Longrightarrow> b < 7 \<Longrightarrow> \<exists>j. first_request req b = Some j"
proof (rule ccontr)
  assume a: "i < 7" "bit req i" "b < 7" and "\<not> (\<exists>j. first_request req b = Some j)"
  then have n: "\<forall>k < 7. \<not> bit req ((b + k) mod 7)" by (auto simp: first_request_def find_None_iff)
  have "(b + (i + 7 - b) mod 7) mod 7 = i" using a by (simp add: mod_add_right_eq)
  moreover have "(i + 7 - b) mod 7 < 7" by simp
  ultimately show False using n a(2) by metis
qed

text \<open>What the bus does in a cycle, when unit \<open>l\<close> was served last.\<close>

lemma bit_valid_vec: "i < 7 \<Longrightarrow> bit (valid_vec fus) i = b_valid (fus ! i)"
  by (auto simp: valid_vec_def HW_NUM_FU_def upt_conv_Cons bit_set_bit_iff eval_nat_numeral less_Suc_eq)

lemma fu_grant_search:
  assumes "l < 7" and "last_grant c = 2 ^ l"
  shows "fu_grant fus c = (case first_request (valid_vec fus) (Suc l mod 7) of None \<Rightarrow> 0 | Some i \<Rightarrow> 2 ^ i)"
proof -
  have "cdb_base c = 2 ^ (Suc l mod 7)"
    using base_rotates assms by (cases c) (auto simp: cdb_base_def)
  then show ?thesis by (simp add: fu_grant_def arbiter_search)
qed

definition waits :: "nat \<Rightarrow> nat \<Rightarrow> nat" where
  "waits l i = (i + 6 - l) mod 7"

text \<open>The unit \<open>i\<close> has \<open>waits l i\<close> units before it in the round after unit \<open>l\<close>.\<close>

lemma waits_last: "l < 7 \<Longrightarrow> i < 7 \<Longrightarrow> i = (Suc l mod 7 + waits l i) mod 7"
proof -
  assume l: "l < 7" "i < 7"
  have "(Suc l mod 7 + waits l i) mod 7 = (Suc l + (i + 6 - l)) mod 7" by (simp add: waits_def mod_add_eq)
  also have "\<dots> = i" using l by simp
  finally show ?thesis by simp
qed

lemma cdb_cycle:
  assumes "l < 7" and "last_grant c = 2 ^ l" and "i < 7" and "b_valid (fus ! i)"
  obtains (granted) "fu_grant fus c = 2 ^ i" and "cdb_o fus c = fus ! i"
  | (other) j where "j < 7" and "j \<noteq> i" and "b_valid (fus ! j)" and "cdb_o fus c = fus ! j"
      and "last_grant (hw_cdb_clock fus c) = 2 ^ j" and "waits j i < waits l i"
proof -
  let ?b = "Suc l mod 7"
  have "bit (valid_vec fus) i" using assms by (simp add: bit_valid_vec)
  then obtain j where j: "first_request (valid_vec fus) ?b = Some j"
    using first_request_total [OF assms(3), of "valid_vec fus" ?b] by auto
  obtain k where k: "k < 7" "j = (?b + k) mod 7" "bit (valid_vec fus) j" "\<forall>m < k. \<not> bit (valid_vec fus) ((?b + m) mod 7)"
    using j by (rule first_request_Some)
  have j7: "j < 7" using k(2) by simp
  have g: "fu_grant fus c = 2 ^ j" using fu_grant_search [OF assms(1,2)] j by simp
  have idx: "grant_idx (2 ^ j) = j" "(2 ^ j :: fu_vec) \<noteq> 0" using grant_idx_one_hot j7 by auto
  have o: "cdb_o fus c = fus ! j" "last_grant (hw_cdb_clock fus c) = 2 ^ j"
    using g idx by (simp_all add: cdb_o_def hw_cdb_clock_def)
  show thesis
  proof (cases "j = i")
    case True
    then show thesis using granted g o by simp
  next
    case False
    have "k \<le> waits l i"
      using k(4) waits_last [OF assms(1,3)] \<open>bit (valid_vec fus) i\<close> by (metis not_less)
    moreover have "k \<noteq> waits l i" using False k(2) waits_last [OF assms(1,3)] by metis
    ultimately have kl: "k < waits l i" by simp
    have "waits j i = (i + 6 - (Suc l + k) mod 7) mod 7" by (simp add: waits_def k(2) mod_add_left_eq)
    also have "\<dots> < waits l i"
      using kl assms(1,3) k(1) by (auto simp: waits_def mod_if split: if_splits)
    finally show thesis using other [OF j7 False] o k(3) j7 by (simp add: bit_valid_vec)
  qed
qed

lemma first_request_less: "first_request req b = Some i \<Longrightarrow> i < 7"
  by (erule first_request_Some) simp

text \<open>At every moment of a run exactly one unit was served last.\<close>

lemma hw_cdb_run_one_hot: "\<exists>l < 7. last_grant (hw_cdb_run ins t hw_cdb_reset) = 2 ^ l"
proof (induction t)
  case 0
  show ?case by (auto simp: hw_cdb_reset_def intro!: exI [of _ 0])
next
  case (Suc t)
  then obtain l where l: "l < 7" "last_grant (hw_cdb_run ins t hw_cdb_reset) = 2 ^ l" by blast
  have "\<exists>j < 7. fu_grant (ins t) (hw_cdb_run ins t hw_cdb_reset) = 2 ^ j"
    if "fu_grant (ins t) (hw_cdb_run ins t hw_cdb_reset) \<noteq> 0"
    using that fu_grant_search [OF l, of "ins t"] first_request_less by (fastforce split: option.splits)
  then show ?case using l by (cases "fu_grant (ins t) (hw_cdb_run ins t hw_cdb_reset) = 0") (auto simp: hw_cdb_clock_def)
qed

text \<open>C22. The bus is fair: at any moment of a run, a unit that keeps a result on offer sees it on the bus,
  and is told so, within seven cycles, whatever the other units do.\<close>

theorem cdb_grants_within_seven:
  assumes "i < 7" and "\<forall>t < 7. b_valid (ins (n + t) ! i)"
  shows "\<exists>t < 7. let c = hw_cdb_run ins (n + t) hw_cdb_reset in
     fu_grant (ins (n + t)) c = 2 ^ i \<and> cdb_o (ins (n + t)) c = ins (n + t) ! i"
proof (rule ccontr)
  assume never: "\<not> ?thesis"
  let ?c = "\<lambda>t. hw_cdb_run ins (n + t) hw_cdb_reset"
  obtain l where l: "l < 7" "last_grant (?c 0) = 2 ^ l" using hw_cdb_run_one_hot [of ins n] by auto
  have "\<exists>m < 7. last_grant (?c t) = 2 ^ m \<and> waits m i + t \<le> waits l i" if "t \<le> 7" for t
    using that
  proof (induction t)
    case 0
    then show ?case using l by auto
  next
    case (Suc t)
    then obtain m where m: "m < 7" "last_grant (?c t) = 2 ^ m" "waits m i + t \<le> waits l i" by auto
    have "b_valid (ins (n + t) ! i)" using assms(2) Suc.prems by simp
    then show ?case
    proof (cases rule: cdb_cycle [OF m(1,2) assms(1), of "ins (n + t)", case_names valid granted other])
      case granted
      then show ?thesis using never Suc.prems by (auto simp: Let_def)
    next
      case (other j)
      then show ?thesis using m(3) by auto
    qed
  qed
  from this [of 7] have "7 \<le> waits l i" by auto
  then show False by (simp add: waits_def not_le [symmetric])
qed

theorem cdb_grants_within_seven_witness:
  "\<exists>t < 7. fu_grant (replicate 7 \<lparr>b_tag = 1, b_value = 9, b_valid = True\<rparr>)
     (hw_cdb_run (\<lambda>_. replicate 7 \<lparr>b_tag = 1, b_value = 9, b_valid = True\<rparr>) t hw_cdb_reset) = 2 ^ 5"
  using cdb_grants_within_seven [of 5 "\<lambda>_. replicate 7 \<lparr>b_tag = 1, b_value = 9, b_valid = True\<rparr>" 0]
  by (auto simp: Let_def)
end
