(* ===== verification/Hw_Units.thy ===== *)
theory Hw_Units
  imports Hw_Types
begin

text \<open>
  \<open>hardware/execute/int_ops\<close>: the integer unit \<open>alu_int\<close> and the branch unit \<open>branch_unit\<close>, each one
  stage of registers behind combinational logic. On the opcodes of the simulator they compute what
  the simulator's stations compute.
\<close>

section \<open>alu_int\<close>

definition alu_next :: "opcode_e \<Rightarrow> u32 \<Rightarrow> u32 \<Rightarrow> u32 \<Rightarrow> u32 \<Rightarrow> u32" where
  "alu_next op pc rs1 rs2 imm = (case op of
     OP_ADD \<Rightarrow> rs1 + rs2
   | OP_SUB \<Rightarrow> rs1 - rs2
   | OP_AND \<Rightarrow> rs1 AND rs2
   | OP_OR \<Rightarrow> rs1 OR rs2
   | OP_XOR \<Rightarrow> rs1 XOR rs2
   | OP_SLL \<Rightarrow> push_bit (unat (take_bit 5 rs2)) rs1
   | OP_SRL \<Rightarrow> drop_bit (unat (take_bit 5 rs2)) rs1
   | OP_SRA \<Rightarrow> signed_drop_bit (unat (take_bit 5 rs2)) rs1
   | OP_SLT \<Rightarrow> if sint rs1 < sint rs2 then 1 else 0
   | OP_SLTU \<Rightarrow> if rs1 < rs2 then 1 else 0
   | OP_ADDI \<Rightarrow> rs1 + imm
   | OP_ANDI \<Rightarrow> rs1 AND imm
   | OP_ORI \<Rightarrow> rs1 OR imm
   | OP_XORI \<Rightarrow> rs1 XOR imm
   | OP_SLLI \<Rightarrow> push_bit (unat (take_bit 5 imm)) rs1
   | OP_SRLI \<Rightarrow> drop_bit (unat (take_bit 5 imm)) rs1
   | OP_SRAI \<Rightarrow> signed_drop_bit (unat (take_bit 5 imm)) rs1
   | OP_SLTI \<Rightarrow> if sint rs1 < sint imm then 1 else 0
   | OP_SLTIU \<Rightarrow> if rs1 < imm then 1 else 0
   | OP_LUI \<Rightarrow> imm
   | OP_AUIPC \<Rightarrow> pc + imm
   | _ \<Rightarrow> 0)"

record alu_regs =
  alu_valid_o :: bool
  alu_tag_o :: tag
  alu_result_o :: u32

definition alu_reset :: alu_regs where
  "alu_reset = \<lparr>alu_valid_o = False, alu_tag_o = 0, alu_result_o = 0\<rparr>"

text \<open>The issue port of a station.\<close>

record issue =
  s_valid :: bool
  s_op :: opcode_e
  s_tag :: tag
  s_pc :: u32
  s_rs1 :: u32
  s_rs2 :: u32
  s_imm :: u32

definition alu_clock :: "issue \<Rightarrow> alu_regs \<Rightarrow> alu_regs" where
  "alu_clock i r =
     (if s_valid i then \<lparr>alu_valid_o = True, alu_tag_o = s_tag i,
        alu_result_o = alu_next (s_op i) (s_pc i) (s_rs1 i) (s_rs2 i) (s_imm i)\<rparr>
      else r\<lparr>alu_valid_o := False\<rparr>)"

section \<open>branch_unit\<close>

definition br_taken_next :: "opcode_e \<Rightarrow> u32 \<Rightarrow> u32 \<Rightarrow> bool" where
  "br_taken_next op rs1 rs2 = (case op of
     OP_BEQ \<Rightarrow> rs1 = rs2
   | OP_BNE \<Rightarrow> rs1 \<noteq> rs2
   | OP_BLT \<Rightarrow> sint rs1 < sint rs2
   | OP_BGE \<Rightarrow> sint rs1 \<ge> sint rs2
   | OP_BLTU \<Rightarrow> rs1 < rs2
   | OP_BGEU \<Rightarrow> rs1 \<ge> rs2
   | OP_JAL \<Rightarrow> True
   | OP_JALR \<Rightarrow> True
   | _ \<Rightarrow> False)"

definition br_target_next :: "opcode_e \<Rightarrow> u32 \<Rightarrow> u32 \<Rightarrow> u32 \<Rightarrow> u32 \<Rightarrow> u32" where
  "br_target_next op pc rs1 rs2 imm =
     (if op \<in> {OP_BEQ, OP_BNE, OP_BLT, OP_BGE, OP_BLTU, OP_BGEU, OP_JAL}
      then (if br_taken_next op rs1 rs2 then pc + imm else pc + 4)
      else if op = OP_JALR then (rs1 + imm) AND NOT 1
      else 0)"

record br_regs =
  br_valid_o :: bool
  br_tag_o :: tag
  br_target_o :: u32
  br_taken_o :: bool

definition br_reset :: br_regs where
  "br_reset = \<lparr>br_valid_o = False, br_tag_o = 0, br_target_o = 0, br_taken_o = False\<rparr>"

definition br_clock :: "issue \<Rightarrow> br_regs \<Rightarrow> br_regs" where
  "br_clock i r =
     (if s_valid i then \<lparr>br_valid_o = True, br_tag_o = s_tag i,
        br_target_o = br_target_next (s_op i) (s_pc i) (s_rs1 i) (s_rs2 i) (s_imm i),
        br_taken_o = br_taken_next (s_op i) (s_rs1 i) (s_rs2 i)\<rparr>
      else br_reset)"

section \<open>The same results as the simulator\<close>

text \<open>The issue port for an entry of the simulator's station.\<close>

definition issue_of :: "tag \<Rightarrow> rs_entry \<Rightarrow> issue" where
  "issue_of tag e = \<lparr>s_valid = True, s_op = hw_op (rs_op e), s_tag = tag, s_pc = rs_pc e, s_rs1 = rs_vj e,
     s_rs2 = rs_vk e, s_imm = hw_imm (rs_op e) (rs_imm e)\<rparr>"

lemma take_bit_5: "take_bit 5 w = w AND 0x1F" for w :: u32
  by (simp add: take_bit_eq_mask mask_numeral)

lemma signed_equal: "sint a = sint b \<longleftrightarrow> a = b" for a b :: u32
  by (auto intro: signed_word_eqI)

lemma alu_agrees: "target_unit (rs_op e) = Some U_ALU \<Longrightarrow>
    alu_next (hw_op (rs_op e)) (rs_pc e) (rs_vj e) (rs_vk e) (hw_imm (rs_op e) (rs_imm e)) = execute_op fe e"
  by (cases "rs_op e") (simp_all add: target_unit_def class_defs hw_op_def hw_imm_def alu_next_def execute_op_def
      Let_def take_bit_5)

lemma branch_agrees: "target_unit (rs_op e) = Some U_BRANCH \<Longrightarrow>
    br_target_next (hw_op (rs_op e)) (rs_pc e) (rs_vj e) (rs_vk e) (hw_imm (rs_op e) (rs_imm e)) = execute_op fe e"
  by (cases "rs_op e") (simp_all add: target_unit_def class_defs hw_op_def hw_imm_def br_target_next_def
      br_taken_next_def execute_op_def Let_def signed_equal)

lemma branch_address: "target_unit (rs_op e) = Some U_BRANCH \<Longrightarrow>
    execute_op fe e = (if br_taken_next (hw_op (rs_op e)) (rs_vj e) (rs_vk e)
      then if rs_op e = Op_JALR then (rs_vj e + rs_imm e) AND NOT 1 else rs_pc e + rs_imm e else rs_pc e + 4)"
  by (cases "rs_op e") (simp_all add: target_unit_def class_defs hw_op_def br_taken_next_def execute_op_def
      Let_def signed_equal)

text \<open>C27. Hardware and simulator agree on integer arithmetic: one clock edge after a station issues an
  instruction of the integer or branch class, the unit holds its tag and exactly the result the
  simulator computes for it, for all operands and on overflow too; the branch unit's taken flag
  says which of the three addresses that result is.\<close>

theorem hw_units_match_simulator:
  "case target_unit (rs_op e) of
     Some U_ALU \<Rightarrow> alu_clock (issue_of tag e) r =
       \<lparr>alu_valid_o = True, alu_tag_o = tag, alu_result_o = execute_op fe e\<rparr>
   | Some U_BRANCH \<Rightarrow> (let q = br_clock (issue_of tag e) s in
       br_valid_o q \<and> br_tag_o q = tag \<and> br_target_o q = execute_op fe e \<and>
       execute_op fe e = (if br_taken_o q
         then if rs_op e = Op_JALR then (rs_vj e + rs_imm e) AND NOT 1 else rs_pc e + rs_imm e
         else rs_pc e + 4))
   | _ \<Rightarrow> True"
proof (cases "target_unit (rs_op e)")
  case (Some u)
  show ?thesis
  proof (cases u)
    case U_ALU
    then show ?thesis using Some alu_agrees [of e fe] by (simp add: alu_clock_def issue_of_def)
  next
    case U_BRANCH
    then have b: "target_unit (rs_op e) = Some U_BRANCH" using Some by simp
    show ?thesis
      unfolding b using branch_agrees [OF b, of fe] branch_address [OF b, of fe]
      by (simp add: br_clock_def issue_of_def Let_def)
  qed (simp_all add: Some)
qed simp

end
