(* ===== verification/Hw_Rob.thy ===== *)
theory Hw_Rob
  imports Hw_Types
begin

text \<open>
  \<open>hardware/core/rob.sv\<close> and \<open>hardware/core/commit_unit.sv\<close>: the reorder buffer of the core, a circular
  buffer of 16 entries with 4-bit pointers that wrap by themselves, and the combinational unit that
  retires its head. A clock edge of the hardware buffer is a commit, a result, a branch resolution
  and an allocation of the simulator's buffer, each of them if its inputs ask for it; the relation
  between the two buffers is slot by slot.
\<close>

section \<open>The modules\<close>

record rob_entry_t =
  e_state :: rob_state
  e_op :: opcode_e
  e_rd :: arch_reg
  e_rd_fp :: bool
  e_rd_valid :: bool
  e_result :: u32
  e_pc :: u32
  e_is_branch :: bool
  e_branch_taken :: bool
  e_branch_target :: u32

definition zero_entry :: rob_entry_t where
  "zero_entry = \<lparr>e_state = ROB_IDLE, e_op = OP_ADD, e_rd = 0, e_rd_fp = False, e_rd_valid = False, e_result = 0,
     e_pc = 0, e_is_branch = False, e_branch_taken = False, e_branch_target = 0\<rparr>"

record hw_rob =
  h_entries :: "rob_entry_t list"
  h_head :: tag
  h_tail :: tag
  h_count :: "5 word"

definition hw_rob_reset :: hw_rob where
  "hw_rob_reset = \<lparr>h_entries = replicate HW_ROB_SIZE zero_entry, h_head = 0, h_tail = 0, h_count = 0\<rparr>"

record rob_in =
  a_flush :: bool
  a_alloc_en :: bool
  a_alloc_instr :: instr_t
  a_cdb :: cdb_t
  a_br_valid :: bool
  a_br_tag :: tag
  a_br_taken :: bool
  a_br_target :: u32
  a_commit_en :: bool

definition hw_rob_full :: "hw_rob \<Rightarrow> bool" where
  "hw_rob_full r \<longleftrightarrow> h_count r = 16"

definition hw_commit_entry :: "hw_rob \<Rightarrow> rob_entry_t" where
  "hw_commit_entry r = h_entries r ! unat (h_head r)"

definition hw_commit_valid :: "hw_rob \<Rightarrow> bool" where
  "hw_commit_valid r \<longleftrightarrow> e_state (hw_commit_entry r) = ROB_DONE"

text \<open>The lookup ports of the dispatch stage: whether the slot is done, and its result.\<close>

definition hw_lookup :: "tag \<Rightarrow> hw_rob \<Rightarrow> bool \<times> u32" where
  "hw_lookup t r = (let e = h_entries r ! unat t in (e_state e = ROB_DONE, e_result e))"

definition new_entry :: "instr_t \<Rightarrow> rob_entry_t" where
  "new_entry i = \<lparr>e_state = ROB_IN_FLIGHT, e_op = i_op i, e_rd = i_rd i, e_rd_fp = i_rd_fp i, e_rd_valid = i_rd_valid i,
     e_result = 0, e_pc = i_pc i, e_is_branch = is_branch_op (i_op i) \<or> is_jump_op (i_op i),
     e_branch_taken = False, e_branch_target = 0\<rparr>"

text \<open>The four updates of the clock edge, in the order of the source.\<close>

definition hw_cdb_hit :: "rob_in \<Rightarrow> hw_rob \<Rightarrow> bool" where
  "hw_cdb_hit a r \<longleftrightarrow> b_valid (a_cdb a) \<and> e_state (h_entries r ! unat (b_tag (a_cdb a))) = ROB_IN_FLIGHT"

definition hw_br_hit :: "rob_in \<Rightarrow> hw_rob \<Rightarrow> bool" where
  "hw_br_hit a r \<longleftrightarrow> a_br_valid a \<and> e_is_branch (h_entries r ! unat (a_br_tag a))"

definition hw_allocates :: "rob_in \<Rightarrow> hw_rob \<Rightarrow> bool" where
  "hw_allocates a r \<longleftrightarrow> a_alloc_en a \<and> \<not> hw_rob_full r"

definition hw_commits :: "rob_in \<Rightarrow> hw_rob \<Rightarrow> bool" where
  "hw_commits a r \<longleftrightarrow> a_commit_en a \<and> hw_commit_valid r"

definition hw_rob_clock :: "rob_in \<Rightarrow> hw_rob \<Rightarrow> hw_rob" where
  "hw_rob_clock a r =
     (if a_flush a then hw_rob_reset
      else let es = h_entries r;
               es1 = (if hw_cdb_hit a r then let t = unat (b_tag (a_cdb a)) in
                        es[t := (es ! t)\<lparr>e_result := b_value (a_cdb a), e_state := ROB_DONE\<rparr>] else es);
               es2 = (if hw_br_hit a r then let t = unat (a_br_tag a) in
                        es1[t := (es ! t)\<lparr>e_branch_taken := a_br_taken a, e_branch_target := a_br_target a,
                                          e_state := ROB_DONE\<rparr>] else es1);
               es3 = (if hw_allocates a r then es2[unat (h_tail r) := new_entry (a_alloc_instr a)] else es2);
               es4 = (if hw_commits a r then es3[unat (h_head r) := (es ! unat (h_head r))\<lparr>e_state := ROB_IDLE\<rparr>] else es3)
           in \<lparr>h_entries = es4,
               h_head = (if hw_commits a r then h_head r + 1 else h_head r),
               h_tail = (if hw_allocates a r then h_tail r + 1 else h_tail r),
               h_count = h_count r + (if hw_allocates a r then 1 else 0) - (if hw_commits a r then 1 else 0)\<rparr>)"

text \<open>The outputs of \<open>commit_unit\<close>: the write ports of the register files, the clear ports of the renaming
  table, the redirection and the pulse to the load/store buffer.\<close>

record commit_out =
  o_commit_en :: bool
  o_x_wr :: "(arch_reg \<times> u32) option"
  o_f_wr :: "(arch_reg \<times> u32) option"
  o_x_commit :: "(arch_reg \<times> tag) option"
  o_f_commit :: "(arch_reg \<times> tag) option"
  o_flush :: bool
  o_redirect_pc :: u32
  o_store_commit :: bool
  o_store_tag :: tag

definition hw_commit_unit :: "bool \<Rightarrow> rob_entry_t \<Rightarrow> tag \<Rightarrow> commit_out" where
  "hw_commit_unit valid e tag =
     \<lparr>o_commit_en = valid,
      o_x_wr = (if valid \<and> e_rd_valid e \<and> \<not> e_rd_fp e then Some (e_rd e, e_result e) else None),
      o_f_wr = (if valid \<and> e_rd_valid e \<and> e_rd_fp e then Some (e_rd e, e_result e) else None),
      o_x_commit = (if valid \<and> e_rd_valid e \<and> \<not> e_rd_fp e then Some (e_rd e, tag) else None),
      o_f_commit = (if valid \<and> e_rd_valid e \<and> e_rd_fp e then Some (e_rd e, tag) else None),
      o_flush = (valid \<and> e_is_branch e \<and> e_branch_taken e),
      o_redirect_pc = (if valid \<and> e_is_branch e \<and> e_branch_taken e then e_branch_target e else 0),
      o_store_commit = (valid \<and> is_store_op (e_op e)), o_store_tag = tag\<rparr>"

section \<open>Slot by slot\<close>

definition entry_rel :: "rob_entry_t \<Rightarrow> rob_entry \<Rightarrow> bool" where
  "entry_rel e f \<longleftrightarrow> e_state e = r_state f \<and>
     (r_state f \<noteq> ROB_IDLE \<longrightarrow> e_op e = hw_op (r_op f) \<and> e_rd_valid e = (0 \<le> r_rd f) \<and>
        (0 \<le> r_rd f \<longrightarrow> e_rd e = of_int (r_rd f)) \<and> e_rd_fp e = r_rd_fp f \<and> e_pc e = r_pc f \<and>
        e_is_branch e = (is_branch (r_op f) \<or> is_jump (r_op f))) \<and>
     (r_state f = ROB_DONE \<longrightarrow> r_result f = (if e_is_branch e then e_branch_target e else e_result e))"

text \<open>The slots from the head on, as many as are counted; the others are idle.\<close>

definition live :: "nat \<Rightarrow> nat \<Rightarrow> nat \<Rightarrow> bool" where
  "live h n t \<longleftrightarrow> (t + 16 - h) mod 16 < n"

definition rob_rel :: "hw_rob \<Rightarrow> rob \<Rightarrow> bool" where
  "rob_rel r b \<longleftrightarrow> rob_size b = 16 \<and> length (h_entries r) = 16 \<and> rob_wf b \<and>
     unat (h_head r) = rob_head b \<and> unat (h_tail r) = rob_tail b \<and> unat (h_count r) = rob_count b \<and>
     (\<forall>t < 16. entry_rel (h_entries r ! t) (rob_entries b ! t) \<and>
        (r_state (rob_entries b ! t) \<noteq> ROB_IDLE \<longrightarrow> live (rob_head b) (rob_count b) t))"

text \<open>The operations of the simulator's buffer an edge stands for.\<close>

definition edge_ops :: "rob_in \<Rightarrow> instruction \<Rightarrow> hw_rob \<Rightarrow> rob \<Rightarrow> rob res" where
  "edge_ops a i r b =
     res_bind (if hw_commits a r then res_bind (rob_commit b) (\<lambda>(_, b'). Inr b') else Inr b) (\<lambda>b1.
     res_bind (if hw_cdb_hit a r then rob_write_result (uint (b_tag (a_cdb a))) (b_value (a_cdb a)) b1 else Inr b1) (\<lambda>b2.
     res_bind (if hw_br_hit a r then rob_write_result (uint (a_br_tag a)) (a_br_target a) b2 else Inr b2) (\<lambda>b3.
     Inr (if hw_allocates a r then snd (rob_allocate i b3) else b3))))"

text \<open>The decoded instruction of the core for one of the simulator.\<close>

definition instr_rel :: "instr_t \<Rightarrow> instruction \<Rightarrow> bool" where
  "instr_rel h i \<longleftrightarrow> i_op h = hw_op (in_op i) \<and> i_rd_valid h = (0 \<le> in_rd i) \<and> (0 \<le> in_rd i \<longrightarrow> i_rd h = of_int (in_rd i)) \<and>
     i_rd_fp h = in_rd_fp i \<and> i_pc h = in_pc i"

text \<open>What \<open>hw_rob_refines\<close> asks of the inputs: a branch resolution hits a branch in flight, and a result on
  the bus hits no branch. It is a hypothesis about the units around the buffer and not derived from them.\<close>

definition rob_env :: "rob_in \<Rightarrow> hw_rob \<Rightarrow> bool" where
  "rob_env a r \<longleftrightarrow>
     (hw_br_hit a r \<longrightarrow> e_state (h_entries r ! unat (a_br_tag a)) = ROB_IN_FLIGHT) \<and>
     (hw_cdb_hit a r \<longrightarrow> \<not> e_is_branch (h_entries r ! unat (b_tag (a_cdb a))))"

section \<open>An edge as a sequence of updates\<close>

text \<open>The slots an edge touches are pairwise different, so its updates can be made one after the other.\<close>

definition hw_do_commit :: "hw_rob \<Rightarrow> hw_rob" where
  "hw_do_commit r = r\<lparr>h_entries := (h_entries r)[unat (h_head r) := (h_entries r ! unat (h_head r))\<lparr>e_state := ROB_IDLE\<rparr>],
     h_head := h_head r + 1, h_count := h_count r - 1\<rparr>"

definition hw_do_result :: "nat \<Rightarrow> u32 \<Rightarrow> hw_rob \<Rightarrow> hw_rob" where
  "hw_do_result t v r = r\<lparr>h_entries := (h_entries r)[t := (h_entries r ! t)\<lparr>e_result := v, e_state := ROB_DONE\<rparr>]\<rparr>"

definition hw_do_resolve :: "nat \<Rightarrow> bool \<Rightarrow> u32 \<Rightarrow> hw_rob \<Rightarrow> hw_rob" where
  "hw_do_resolve t tk tg r = r\<lparr>h_entries := (h_entries r)[t := (h_entries r ! t)\<lparr>e_branch_taken := tk,
     e_branch_target := tg, e_state := ROB_DONE\<rparr>]\<rparr>"

definition hw_do_alloc :: "instr_t \<Rightarrow> hw_rob \<Rightarrow> hw_rob" where
  "hw_do_alloc i r = r\<lparr>h_entries := (h_entries r)[unat (h_tail r) := new_entry i],
     h_tail := h_tail r + 1, h_count := h_count r + 1\<rparr>"

lemmas hw_do = hw_do_commit_def hw_do_result_def hw_do_resolve_def hw_do_alloc_def

lemma hw_rob_clock_sequence:
  assumes "\<not> a_flush a"
    and "hw_commits a r \<and> hw_cdb_hit a r \<longrightarrow> h_head r \<noteq> b_tag (a_cdb a)"
    and "hw_commits a r \<and> hw_br_hit a r \<longrightarrow> h_head r \<noteq> a_br_tag a"
    and "hw_commits a r \<and> hw_allocates a r \<longrightarrow> h_head r \<noteq> h_tail r"
    and "hw_cdb_hit a r \<and> hw_br_hit a r \<longrightarrow> b_tag (a_cdb a) \<noteq> a_br_tag a"
  shows "hw_rob_clock a r =
     (let r1 = (if hw_commits a r then hw_do_commit r else r);
          r2 = (if hw_cdb_hit a r then hw_do_result (unat (b_tag (a_cdb a))) (b_value (a_cdb a)) r1 else r1);
          r3 = (if hw_br_hit a r then hw_do_resolve (unat (a_br_tag a)) (a_br_taken a) (a_br_target a) r2 else r2)
      in if hw_allocates a r then hw_do_alloc (a_alloc_instr a) r3 else r3)"
proof -
  have u: "hw_commits a r \<and> hw_cdb_hit a r \<Longrightarrow> unat (h_head r) \<noteq> unat (b_tag (a_cdb a))"
    "hw_commits a r \<and> hw_br_hit a r \<Longrightarrow> unat (h_head r) \<noteq> unat (a_br_tag a)"
    "hw_commits a r \<and> hw_allocates a r \<Longrightarrow> unat (h_head r) \<noteq> unat (h_tail r)"
    "hw_cdb_hit a r \<and> hw_br_hit a r \<Longrightarrow> unat (b_tag (a_cdb a)) \<noteq> unat (a_br_tag a)"
    using assms(2-5) by (simp_all add: word_unat_eq_iff)
  show ?thesis
    using assms(1) u
    by (cases "hw_commits a r"; cases "hw_cdb_hit a r"; cases "hw_br_hit a r"; cases "hw_allocates a r")
      (simp_all add: hw_rob_clock_def Let_def hw_do list_update_swap [of "unat (h_head r)"])
qed

section \<open>Each update refines an operation of the simulator\<close>

lemma live_bounds:
  assumes "h < 16" and "n \<le> 16"
  shows "live h n t \<Longrightarrow> 0 < n" and "n < 16 \<Longrightarrow> \<not> live h n ((h + n) mod 16)"
    and "t < 16 \<Longrightarrow> live h n t \<Longrightarrow> t \<noteq> h \<Longrightarrow> live ((h + 1) mod 16) (n - 1) t"
    and "live h n t \<Longrightarrow> live h (Suc n) t" and "live h (Suc n) ((h + n) mod 16)"
  using assms unfolding live_def by (auto simp: mod_if split: if_splits)

lemma rob_rel_entry:
  "rob_rel r b \<Longrightarrow> t < 16 \<Longrightarrow> entry_rel (h_entries r ! t) (rob_entries b ! t)"
  "rob_rel r b \<Longrightarrow> t < 16 \<Longrightarrow> r_state (rob_entries b ! t) \<noteq> ROB_IDLE \<Longrightarrow> live (rob_head b) (rob_count b) t"
  by (simp_all add: rob_rel_def)

lemma tag_lt [simp]: "unat (t :: tag) < 16"
  using unsigned_less [of t, where ?'a = nat] by simp

lemma rob_rel_head:
  assumes "rob_rel r b"
  shows "hw_commit_valid r \<longleftrightarrow> rob_head_ready b"
proof -
  have h: "rob_head b < 16" "rob_count b \<le> 16" "unat (h_head r) = rob_head b"
    using assms by (auto simp: rob_rel_def rob_wf_def)
  have "rob_count b \<noteq> 0" if "r_state (rob_entries b ! rob_head b) = ROB_DONE"
    using rob_rel_entry(2) [OF assms h(1)] that live_bounds(1) [OF h(1,2)] by auto
  then show ?thesis
    using rob_rel_entry(1) [OF assms h(1)] h(3)
    by (auto simp: hw_commit_valid_def hw_commit_entry_def rob_head_ready_def rob_empty_def entry_rel_def)
qed

lemma rob_rel_full: "rob_rel r b \<Longrightarrow> hw_rob_full r \<longleftrightarrow> rob_full b"
  by (auto simp: rob_rel_def hw_rob_full_def rob_full_def word_unat_eq_iff)

lemma rob_rel_update:
  assumes "rob_rel r b" and "t < 16" and "r_state (rob_entries b ! t) \<noteq> ROB_IDLE" and "entry_rel e f"
  shows "rob_rel (r\<lparr>h_entries := (h_entries r)[t := e]\<rparr>) (b\<lparr>rob_entries := (rob_entries b)[t := f]\<rparr>)"
  using assms by (auto simp: rob_rel_def rob_wf_def nth_list_update)

lemma rob_rel_tag:
  fixes t :: tag
  assumes "rob_rel r b" and "e_state (h_entries r ! unat t) = ROB_IN_FLIGHT"
  shows "rob_write_result (uint t) v b = Inr (b\<lparr>rob_entries := (rob_entries b)[unat t :=
           (rob_entries b ! unat t)\<lparr>r_result := v, r_state := ROB_DONE\<rparr>]\<rparr>)"
    and "r_state (rob_entries b ! unat t) = ROB_IN_FLIGHT"
proof -
  show s: "r_state (rob_entries b ! unat t) = ROB_IN_FLIGHT"
    using rob_rel_entry(1) [OF assms(1), of "unat t"] assms(2) by (simp add: entry_rel_def)
  have "rob_size b = 16" using assms(1) by (simp add: rob_rel_def)
  moreover have "uint t < 16" using unsigned_less [of t, where ?'a = int] by simp
  ultimately show "rob_write_result (uint t) v b = Inr (b\<lparr>rob_entries := (rob_entries b)[unat t :=
           (rob_entries b ! unat t)\<lparr>r_result := v, r_state := ROB_DONE\<rparr>]\<rparr>)"
    using s by (simp add: rob_write_result_def)
qed

text \<open>A lookup reads what the simulator peeks, branches apart: their result is the target in the simulator.\<close>

lemma lookup_refines:
  fixes t :: tag
  assumes "rob_rel r b"
  obtains f where "rob_peek (uint t) b = Inr f" and "fst (hw_lookup t r) = (r_state f = ROB_DONE)"
    and "r_state f = ROB_DONE \<Longrightarrow> \<not> is_branch (r_op f) \<Longrightarrow> \<not> is_jump (r_op f) \<Longrightarrow> snd (hw_lookup t r) = r_result f"
proof
  have "rob_size b = 16" using assms by (simp add: rob_rel_def)
  moreover have "uint t < 16" using unsigned_less [of t, where ?'a = int] by simp
  ultimately show "rob_peek (uint t) b = Inr (rob_entries b ! unat t)" by (simp add: rob_peek_def)
qed (use rob_rel_entry(1) [OF assms tag_lt [of t]] in \<open>auto simp: hw_lookup_def Let_def entry_rel_def\<close>)

lemma result_refines:
  fixes t :: tag
  assumes "rob_rel r b" and "e_state (h_entries r ! unat t) = ROB_IN_FLIGHT" and "\<not> e_is_branch (h_entries r ! unat t)"
  obtains b' where "rob_write_result (uint t) v b = Inr b'" and "rob_rel (hw_do_result (unat t) v r) b'"
  using rob_rel_tag [OF assms(1,2)] assms(3) rob_rel_entry(1) [OF assms(1) tag_lt [of t]]
  by (intro that, blast) (simp add: hw_do_result_def, rule rob_rel_update [OF assms(1)], auto simp: entry_rel_def)

lemma resolve_refines:
  fixes t :: tag
  assumes "rob_rel r b" and "e_state (h_entries r ! unat t) = ROB_IN_FLIGHT" and "e_is_branch (h_entries r ! unat t)"
  obtains b' where "rob_write_result (uint t) tg b = Inr b'" and "rob_rel (hw_do_resolve (unat t) tk tg r) b'"
  using rob_rel_tag [OF assms(1,2)] assms(3) rob_rel_entry(1) [OF assms(1) tag_lt [of t]]
  by (intro that, blast) (simp add: hw_do_resolve_def, rule rob_rel_update [OF assms(1)], auto simp: entry_rel_def)

lemma unat_tag_Suc: "unat (t + 1 :: tag) = (unat t + 1) mod 16"
  by (simp add: unat_word_ariths)

lemma unat_count:
  fixes c :: "5 word"
  shows "unat c < 16 \<Longrightarrow> unat (c + 1) = unat c + 1" and "0 < unat c \<Longrightarrow> unat (c - 1) = unat c - 1"
  by (simp add: unat_word_ariths) (metis unat_minus_one unat_0 less_irrefl)

lemma commit_refines:
  assumes "rob_rel r b" and "hw_commit_valid r"
  obtains e b' where "rob_commit b = Inr (e, b')" and "rob_rel (hw_do_commit r) b'"
    and "entry_rel (hw_commit_entry r) e"
proof -
  have R: "rob_size b = 16" "length (h_entries r) = 16" "length (rob_entries b) = 16" "rob_head b < 16"
    "rob_count b \<le> 16" "unat (h_head r) = rob_head b" "unat (h_tail r) = rob_tail b" "unat (h_count r) = rob_count b"
    "rob_tail b = (rob_head b + rob_count b) mod 16"
    using assms(1) by (simp_all add: rob_rel_def rob_wf_def)
  have ready: "rob_head_ready b" using rob_rel_head assms by blast
  then have c: "0 < rob_count b" by (simp add: rob_head_ready_def rob_empty_def)
  let ?b = "b\<lparr>rob_entries := (rob_entries b)[rob_head b := empty_rob_entry],
      rob_head := (rob_head b + 1) mod rob_size b, rob_count := rob_count b - 1\<rparr>"
  obtain n where "rob_count b = Suc n" using c gr0_conv_Suc by blast
  then have "rob_wf ?b" using assms(1) by (auto simp: rob_rel_def rob_wf_def mod_simps)
  moreover have "entry_rel (h_entries (hw_do_commit r) ! t) (rob_entries ?b ! t)" if "t < 16" for t
    using rob_rel_entry(1) [OF assms(1) that] R that
    by (auto simp: hw_do_commit_def nth_list_update entry_rel_def empty_rob_entry_def)
  moreover have "live (rob_head ?b) (rob_count ?b) t" if "t < 16" "r_state (rob_entries ?b ! t) \<noteq> ROB_IDLE" for t
    using rob_rel_entry(2) [OF assms(1) that(1)] live_bounds(3) [OF R(4,5) that(1)] that(2) R
    by (auto simp: nth_list_update empty_rob_entry_def split: if_splits)
  ultimately have "rob_rel (hw_do_commit r) ?b"
    using R c by (simp add: rob_rel_def hw_do_commit_def unat_tag_Suc unat_count(2))
  moreover have "rob_commit b = Inr (rob_entries b ! rob_head b, ?b)"
    using ready by (simp add: rob_commit_def)
  moreover have "entry_rel (hw_commit_entry r) (rob_entries b ! rob_head b)"
    using rob_rel_entry(1) [OF assms(1) R(4)] R(6) by (simp add: hw_commit_entry_def)
  ultimately show ?thesis using that by blast
qed

lemma alloc_refines:
  assumes "rob_rel r b" and "\<not> rob_full b" and "instr_rel h i"
  shows "rob_rel (hw_do_alloc h r) (snd (rob_allocate i b))"
proof -
  have R: "rob_size b = 16" "length (h_entries r) = 16" "length (rob_entries b) = 16" "rob_head b < 16"
    "rob_count b < 16" "unat (h_head r) = rob_head b" "unat (h_tail r) = rob_tail b" "unat (h_count r) = rob_count b"
    "rob_tail b = (rob_head b + rob_count b) mod 16"
    using assms(1,2) by (auto simp: rob_rel_def rob_wf_def rob_full_def)
  let ?b = "snd (rob_allocate i b)"
  note L = live_bounds [OF R(4) less_imp_le [OF R(5)]]
  have "rob_wf ?b" using assms(1,2) by (auto simp: rob_rel_def rob_wf_def rob_allocate_def Let_def rob_full_def mod_simps)
  moreover have "entry_rel (h_entries (hw_do_alloc h r) ! t) (rob_entries ?b ! t)" if "t < 16" for t
    using rob_rel_entry(1) [OF assms(1) that] R that assms(2,3)
    by (auto simp: hw_do_alloc_def nth_list_update rob_allocate_def Let_def entry_rel_def instr_rel_def new_entry_def hw_classes)
  moreover have "live (rob_head ?b) (rob_count ?b) t" if "t < 16" "r_state (rob_entries ?b ! t) \<noteq> ROB_IDLE" for t
    using rob_rel_entry(2) [OF assms(1) that(1)] L(4) L(5) that(2) assms(2) R
    by (auto simp: nth_list_update rob_allocate_def Let_def split: if_splits)
  ultimately show ?thesis
    using R assms(2) by (simp add: rob_rel_def hw_do_alloc_def unat_tag_Suc unat_count(1) rob_allocate_def Let_def)
qed

lemma reset_refines: "new_rob ROB_SIZE = Inr b \<Longrightarrow> rob_rel hw_rob_reset b"
  by (auto simp: new_rob_def rob_rel_def hw_rob_reset_def rob_wf_def zero_entry_def empty_rob_entry_def entry_rel_def
      ROB_SIZE_def hw_size_defs)

lemma flush_refines: "rob_rel r b \<Longrightarrow> rob_rel hw_rob_reset (rob_flush b)"
  by (auto simp: rob_flush_def rob_rel_def hw_rob_reset_def rob_wf_def zero_entry_def empty_rob_entry_def entry_rel_def
      hw_size_defs)

text \<open>The slots of an edge differ: the head is done, the slots of the bus and of the branch unit are in
  flight and only one of them is a branch, the tail is idle.\<close>

lemma hw_edge_slots:
  assumes "rob_rel r b" and "rob_env a r"
  shows "hw_commits a r \<and> hw_cdb_hit a r \<longrightarrow> h_head r \<noteq> b_tag (a_cdb a)"
    and "hw_commits a r \<and> hw_br_hit a r \<longrightarrow> h_head r \<noteq> a_br_tag a"
    and "hw_commits a r \<and> hw_allocates a r \<longrightarrow> h_head r \<noteq> h_tail r"
    and "hw_cdb_hit a r \<and> hw_br_hit a r \<longrightarrow> b_tag (a_cdb a) \<noteq> a_br_tag a"
proof -
  show "hw_commits a r \<and> hw_cdb_hit a r \<longrightarrow> h_head r \<noteq> b_tag (a_cdb a)"
    by (auto simp: hw_commits_def hw_commit_valid_def hw_commit_entry_def hw_cdb_hit_def)
  show "hw_commits a r \<and> hw_br_hit a r \<longrightarrow> h_head r \<noteq> a_br_tag a"
    using assms(2) by (auto simp: hw_commits_def hw_commit_valid_def hw_commit_entry_def rob_env_def)
  show "hw_cdb_hit a r \<and> hw_br_hit a r \<longrightarrow> b_tag (a_cdb a) \<noteq> a_br_tag a"
    using assms(2) by (auto simp: hw_br_hit_def rob_env_def)
  have R: "rob_head b < 16" "rob_count b \<le> 16" "unat (h_head r) = rob_head b" "unat (h_tail r) = rob_tail b"
    "rob_tail b = (rob_head b + rob_count b) mod 16"
    using assms(1) by (auto simp: rob_rel_def rob_wf_def)
  show "hw_commits a r \<and> hw_allocates a r \<longrightarrow> h_head r \<noteq> h_tail r"
  proof
    assume c: "hw_commits a r \<and> hw_allocates a r"
    then have "rob_head_ready b" and "rob_count b < 16"
      using rob_rel_head [OF assms(1)] rob_rel_full [OF assms(1)] assms(1) R
      by (auto simp: hw_commits_def hw_allocates_def rob_full_def rob_rel_def)
    then have "0 < rob_count b" and "rob_count b < 16" by (auto simp: rob_head_ready_def rob_empty_def)
    then have "rob_tail b \<noteq> rob_head b" using R by (auto simp: mod_if split: if_splits)
    then show "h_head r \<noteq> h_tail r" using R by (auto simp: word_unat_eq_iff)
  qed
qed

lemma hw_alloc_room:
  assumes "rob_rel r b" and "hw_allocates a r" and "rob_commit b = Inr (e, b')"
  shows "\<not> rob_full b'"
  using assms rob_rel_full [OF assms(1)] by (auto simp: hw_allocates_def rob_ops rob_rel_def rob_wf_def split: if_splits)

lemma hw_do_other_slot:
  "unat (h_head r) \<noteq> t \<Longrightarrow> h_entries (hw_do_commit r) ! t = h_entries r ! t"
  "u \<noteq> t \<Longrightarrow> h_entries (hw_do_result u v r) ! t = h_entries r ! t"
  by (simp_all add: hw_do)

lemma hw_rob_edge:
  assumes rel: "rob_rel r b" and env: "rob_env a r" and "\<not> a_flush a"
    and instr: "hw_allocates a r \<longrightarrow> instr_rel (a_alloc_instr a) i"
  shows "\<exists>b'. edge_ops a i r b = Inr b' \<and> rob_rel (hw_rob_clock a r) b'"
proof -
  let ?c = "b_tag (a_cdb a)" and ?v = "b_value (a_cdb a)" and ?t = "a_br_tag a"
  note slots = hw_edge_slots [OF rel env]
  define r1 where "r1 = (if hw_commits a r then hw_do_commit r else r)"
  define r2 where "r2 = (if hw_cdb_hit a r then hw_do_result (unat ?c) ?v r1 else r1)"
  define r3 where "r3 = (if hw_br_hit a r then hw_do_resolve (unat ?t) (a_br_taken a) (a_br_target a) r2 else r2)"
  have full: "\<not> rob_full b" if "hw_allocates a r" using that rob_rel_full [OF rel] by (simp add: hw_allocates_def)
  obtain b1 where b1: "(if hw_commits a r then res_bind (rob_commit b) (\<lambda>(_, b'). Inr b') else Inr b) = Inr b1"
    "rob_rel r1 b1" "hw_allocates a r \<longrightarrow> \<not> rob_full b1"
  proof (cases "hw_commits a r")
    case True
    then obtain e b' where "rob_commit b = Inr (e, b')" "rob_rel (hw_do_commit r) b'"
      using commit_refines [OF rel] unfolding hw_commits_def by metis
    then show ?thesis using True hw_alloc_room [OF rel] by (intro that [of b']) (auto simp: r1_def)
  qed (use rel full that r1_def in auto)
  have s1: "h_entries r1 ! unat ?c = h_entries r ! unat ?c" if "hw_cdb_hit a r"
    using that slots(1) by (simp add: r1_def hw_do_other_slot word_unat_eq_iff)
  have s2: "h_entries r2 ! unat ?t = h_entries r ! unat ?t" if "hw_br_hit a r"
    using that slots(2,4) by (simp add: r1_def r2_def hw_do_other_slot word_unat_eq_iff)
  obtain b2 where b2: "(if hw_cdb_hit a r then rob_write_result (uint ?c) ?v b1 else Inr b1) = Inr b2"
    "rob_rel r2 b2" "rob_full b2 = rob_full b1"
  proof (cases "hw_cdb_hit a r")
    case True
    then obtain b' where "rob_write_result (uint ?c) ?v b1 = Inr b'" "rob_rel (hw_do_result (unat ?c) ?v r1) b'"
      using result_refines [OF b1(2), of ?c ?v] env s1 by (auto simp: hw_cdb_hit_def rob_env_def)
    then show ?thesis using True by (intro that [of b']) (auto simp: r2_def rob_write_result_def rob_full_def split: if_splits)
  qed (use b1 that r2_def in auto)
  obtain b3 where b3: "(if hw_br_hit a r then rob_write_result (uint ?t) (a_br_target a) b2 else Inr b2) = Inr b3"
    "rob_rel r3 b3" "rob_full b3 = rob_full b2"
  proof (cases "hw_br_hit a r")
    case True
    then obtain b' where "rob_write_result (uint ?t) (a_br_target a) b2 = Inr b'"
        "rob_rel (hw_do_resolve (unat ?t) (a_br_taken a) (a_br_target a) r2) b'"
      using resolve_refines [OF b2(2), of ?t "a_br_target a" "a_br_taken a"] env s2
      by (auto simp: hw_br_hit_def rob_env_def)
    then show ?thesis using True by (intro that [of b']) (auto simp: r3_def rob_write_result_def rob_full_def split: if_splits)
  qed (use b2 that r3_def in auto)
  let ?b' = "if hw_allocates a r then snd (rob_allocate i b3) else b3"
  have "edge_ops a i r b = Inr ?b'" using b1(1) b2(1) b3(1) by (simp add: edge_ops_def)
  moreover have "hw_rob_clock a r = (if hw_allocates a r then hw_do_alloc (a_alloc_instr a) r3 else r3)"
    using hw_rob_clock_sequence [OF assms(3) slots] by (simp add: Let_def r1_def r2_def r3_def)
  moreover have "rob_rel (if hw_allocates a r then hw_do_alloc (a_alloc_instr a) r3 else r3) ?b'"
    using alloc_refines [OF b3(2)] instr b1(3) b2(3) b3(2,3) by simp
  ultimately show ?thesis by simp
qed

section \<open>Properties\<close>

text \<open>C10. The reorder buffer of the core refines the one of the simulator: on related buffers the head is
  ready and the buffer is full in both or in neither, the head retires with the same instruction and result, a flush leads to related buffers, and every other clock
  edge is a sequence of a commit, a result, a branch resolution and an allocation of the simulator's buffer,
  none of which fails one of its assertions. The inputs satisfy \<open>rob_env\<close>: a branch resolution hits a branch in
  flight, and a result on the bus hits no branch.\<close>

theorem hw_rob_refines:
  assumes "rob_rel r b" and "rob_env a r"
    and "hw_allocates a r \<longrightarrow> instr_rel (a_alloc_instr a) i"
  shows "hw_commit_valid r = rob_head_ready b \<and> hw_rob_full r = rob_full b \<and>
    (hw_commit_valid r \<longrightarrow> (\<exists>e b1. rob_commit b = Inr (e, b1) \<and> entry_rel (hw_commit_entry r) e)) \<and>
    (if a_flush a then rob_rel (hw_rob_clock a r) (rob_flush b)
     else \<exists>b'. edge_ops a i r b = Inr b' \<and> rob_rel (hw_rob_clock a r) b')"
proof -
  have "\<exists>e b1. rob_commit b = Inr (e, b1) \<and> entry_rel (hw_commit_entry r) e" if "hw_commit_valid r"
    using commit_refines [OF assms(1) that] by metis
  then show ?thesis
    using rob_rel_head [OF assms(1)] rob_rel_full [OF assms(1)] flush_refines [OF assms(1)]
      hw_rob_edge [OF assms(1,2) _ assms(3)]
    by (simp add: hw_rob_clock_def)
qed

text \<open>The first edge after reset, with an allocation of \<open>JAL ra\<close>.\<close>

definition sample_in :: rob_in where
  "sample_in = \<lparr>a_flush = False, a_alloc_en = True,
     a_alloc_instr = \<lparr>i_op = OP_JAL, i_rd = 1, i_rs1 = 0, i_rs2 = 0, i_imm = 8, i_rd_fp = False, i_rs1_fp = False,
       i_rs2_fp = False, i_rd_valid = True, i_pc = 0\<rparr>,
     a_cdb = \<lparr>b_tag = 0, b_value = 0, b_valid = False\<rparr>, a_br_valid = False, a_br_tag = 0, a_br_taken = False,
     a_br_target = 0, a_commit_en = True\<rparr>"

theorem hw_rob_refines_witness:
  "\<exists>b b'. new_rob ROB_SIZE = Inr b \<and>
     edge_ops sample_in (default_instruction\<lparr>in_op := Op_JAL, in_rd := 1\<rparr>) hw_rob_reset b = Inr b' \<and>
     rob_rel (hw_rob_clock sample_in hw_rob_reset) b'"
proof -
  obtain b where b: "new_rob ROB_SIZE = Inr b" by (simp add: new_rob_def ROB_SIZE_def)
  have "rob_env sample_in hw_rob_reset"
    by (simp add: rob_env_def sample_in_def hw_br_hit_def hw_cdb_hit_def)
  moreover have "instr_rel (a_alloc_instr sample_in) (default_instruction\<lparr>in_op := Op_JAL, in_rd := 1, in_pc := 0\<rparr>)"
    by (simp add: instr_rel_def sample_in_def default_instruction_def hw_op_def)
  ultimately show ?thesis
    using hw_rob_refines [OF reset_refines [OF b], of sample_in "default_instruction\<lparr>in_op := Op_JAL, in_rd := 1\<rparr>"] b
    by (simp add: sample_in_def default_instruction_def)
qed


end
