(* ===== verification/Hw_Branch.thy ===== *)
theory Hw_Branch
  imports Hw_Units Hw_Rob
begin

text \<open>
  The branch path of \<open>hardware/core/tomasulo_core.sv\<close>: the branch unit, the registers that delay its opcode
  and address, the latch in front of the common data bus, the reorder buffer and the commit unit, wired as the
  core wires them. A jump reaches the reorder buffer twice, first as a branch resolution and one cycle later,
  with the return address, over the bus; the second one finds the slot done and is dropped. The branch unit has no
  flush, so a branch issued in the cycle of a flush reaches the latch after it with the tag of a slot that is not
  its own any more; what that does to the next owner of the slot is evaluated at the end.
\<close>

section \<open>The path\<close>

record br_path =
  p_unit :: br_regs
  p_op_d :: opcode_e
  p_pc_d :: u32
  p_latch :: cdb_t
  p_rob :: hw_rob
  p_head_reg :: tag

definition br_path_reset :: br_path where
  "br_path_reset = \<lparr>p_unit = br_reset, p_op_d = OP_NOP, p_pc_d = 0,
     p_latch = \<lparr>b_tag = 0, b_value = 0, b_valid = False\<rparr>, p_rob = hw_rob_reset, p_head_reg = 0\<rparr>"

text \<open>What the rest of the core drives in a cycle: the issue port of the branch station, the grant of the
  bus, the value another unit broadcasts when the branch latch is not granted, and the dispatch stage.\<close>

record br_cycle =
  c_issue :: issue
  c_grant :: bool
  c_bus :: cdb_t
  c_alloc_en :: bool
  c_alloc_instr :: instr_t

definition br_cdb_val :: "br_path \<Rightarrow> u32" where
  "br_cdb_val p = (if p_op_d p = OP_JAL \<or> p_op_d p = OP_JALR then p_pc_d p + 4 else br_target_o (p_unit p))"

definition br_rs_fu_ready :: "bool \<Rightarrow> br_path \<Rightarrow> bool" where
  "br_rs_fu_ready grant p \<longleftrightarrow> (\<not> b_valid (p_latch p) \<or> grant) \<and> \<not> br_valid_o (p_unit p)"

definition br_latch_clock :: "bool \<Rightarrow> bool \<Rightarrow> br_path \<Rightarrow> cdb_t" where
  "br_latch_clock flush grant p =
     (if flush then \<lparr>b_tag = 0, b_value = 0, b_valid = False\<rparr>
      else if br_valid_o (p_unit p) then \<lparr>b_tag = br_tag_o (p_unit p), b_value = br_cdb_val p, b_valid = True\<rparr>
      else if grant then (p_latch p)\<lparr>b_valid := False\<rparr> else p_latch p)"

definition path_commit :: "br_path \<Rightarrow> commit_out" where
  "path_commit p = hw_commit_unit (hw_commit_valid (p_rob p)) (hw_commit_entry (p_rob p)) (p_head_reg p)"

definition path_rob_in :: "br_cycle \<Rightarrow> br_path \<Rightarrow> rob_in" where
  "path_rob_in c p = \<lparr>a_flush = o_flush (path_commit p), a_alloc_en = c_alloc_en c, a_alloc_instr = c_alloc_instr c,
     a_cdb = (if c_grant c then p_latch p else c_bus c),
     a_br_valid = br_valid_o (p_unit p), a_br_tag = br_tag_o (p_unit p), a_br_taken = br_taken_o (p_unit p),
     a_br_target = br_target_o (p_unit p), a_commit_en = o_commit_en (path_commit p)\<rparr>"

definition br_path_clock :: "br_cycle \<Rightarrow> br_path \<Rightarrow> br_path" where
  "br_path_clock c p = (let flush = o_flush (path_commit p) in
     \<lparr>p_unit = br_clock (c_issue c) (p_unit p), p_op_d = s_op (c_issue c), p_pc_d = s_pc (c_issue c),
      p_latch = br_latch_clock flush (c_grant c) p, p_rob = hw_rob_clock (path_rob_in c p) (p_rob p),
      p_head_reg = (if flush then 0
        else if o_commit_en (path_commit p) \<and> hw_commit_valid (p_rob p) then p_head_reg p + 1 else p_head_reg p)\<rparr>)"

definition path_slot :: "br_path \<Rightarrow> tag \<Rightarrow> rob_entry_t" where
  "path_slot p t = h_entries (p_rob p) ! unat t"

text \<open>Cycles in which slot \<open>t\<close> keeps its owner (no flush, the slot does not retire and is not allocated again)
  and no other unit broadcasts its tag: a valid value on the bus under that tag comes from the branch latch.\<close>

fun undisturbed :: "tag \<Rightarrow> br_cycle list \<Rightarrow> br_path \<Rightarrow> bool" where
  "undisturbed t [] p = True"
| "undisturbed t (c # cs) p \<longleftrightarrow>
     \<not> o_flush (path_commit p) \<and> \<not> (hw_commits (path_rob_in c p) (p_rob p) \<and> h_head (p_rob p) = t) \<and>
     \<not> (hw_allocates (path_rob_in c p) (p_rob p) \<and> h_tail (p_rob p) = t) \<and>
     (c_grant c \<or> \<not> b_valid (c_bus c) \<or> b_tag (c_bus c) \<noteq> t) \<and> undisturbed t cs (br_path_clock c p)"

section \<open>No jump gets a result\<close>

text \<open>The slots after an edge without a flush, one by one.\<close>

lemma hw_rob_clock_nth:
  assumes "\<not> a_flush a" and "t < length (h_entries r)"
  shows "h_entries (hw_rob_clock a r) ! t =
     (if hw_commits a r \<and> t = unat (h_head r) then (h_entries r ! t)\<lparr>e_state := ROB_IDLE\<rparr>
      else if hw_allocates a r \<and> t = unat (h_tail r) then new_entry (a_alloc_instr a)
      else if hw_br_hit a r \<and> t = unat (a_br_tag a)
        then (h_entries r ! t)\<lparr>e_branch_taken := a_br_taken a, e_branch_target := a_br_target a, e_state := ROB_DONE\<rparr>
      else if hw_cdb_hit a r \<and> t = unat (b_tag (a_cdb a))
        then (h_entries r ! t)\<lparr>e_result := b_value (a_cdb a), e_state := ROB_DONE\<rparr>
      else h_entries r ! t)"
  using assms by (simp add: hw_rob_clock_def Let_def nth_list_update)

lemma length_hw_rob_clock [simp]: "length (h_entries r) = 16 \<Longrightarrow> length (h_entries (hw_rob_clock a r)) = 16"
  by (simp add: hw_rob_clock_def Let_def hw_rob_reset_def hw_size_defs)

lemma length_path [simp]:
  "length (h_entries (p_rob p)) = 16 \<Longrightarrow> length (h_entries (p_rob (br_path_clock c p))) = 16"
  by (simp add: br_path_clock_def Let_def)

lemma path_slot_clock:
  assumes "length (h_entries (p_rob p)) = 16" and "\<not> o_flush (path_commit p)"
  shows "path_slot (br_path_clock c p) t = (let a = path_rob_in c p; r = p_rob p in
     if hw_commits a r \<and> t = h_head r then (path_slot p t)\<lparr>e_state := ROB_IDLE\<rparr>
     else if hw_allocates a r \<and> t = h_tail r then new_entry (c_alloc_instr c)
     else if hw_br_hit a r \<and> t = a_br_tag a
       then (path_slot p t)\<lparr>e_branch_taken := a_br_taken a, e_branch_target := a_br_target a, e_state := ROB_DONE\<rparr>
     else if hw_cdb_hit a r \<and> t = b_tag (a_cdb a)
       then (path_slot p t)\<lparr>e_result := b_value (a_cdb a), e_state := ROB_DONE\<rparr>
     else path_slot p t)"
proof -
  have nf: "\<not> a_flush (path_rob_in c p)" and al: "a_alloc_instr (path_rob_in c p) = c_alloc_instr c"
    using assms(2) by (simp_all add: path_rob_in_def)
  have "path_slot (br_path_clock c p) t = h_entries (hw_rob_clock (path_rob_in c p) (p_rob p)) ! unat t"
    by (simp add: path_slot_def br_path_clock_def Let_def)
  then show ?thesis
    using hw_rob_clock_nth [OF nf, of "unat t" "p_rob p"] assms(1)
    by (simp only: al Let_def path_slot_def tag_lt flip: word_unat_eq_iff)
qed

text \<open>Slot \<open>t\<close> belongs to the jump \<open>i\<close>, has no result, and while it is in flight the latch holds nothing for it.\<close>

definition unlinked :: "instr_t \<Rightarrow> tag \<Rightarrow> br_path \<Rightarrow> bool" where
  "unlinked i t p \<longleftrightarrow> length (h_entries (p_rob p)) = 16 \<and>
     e_rd (path_slot p t) = i_rd i \<and> e_rd_valid (path_slot p t) = i_rd_valid i \<and> e_rd_fp (path_slot p t) = i_rd_fp i \<and>
     e_is_branch (path_slot p t) \<and> e_result (path_slot p t) = 0 \<and>
     (e_state (path_slot p t) = ROB_IN_FLIGHT \<longrightarrow> \<not> (b_valid (p_latch p) \<and> b_tag (p_latch p) = t))"

lemma unlinked_new:
  assumes "length (h_entries (p_rob p)) = 16" and "path_slot p t = new_entry i" and "is_jump_op (i_op i)"
    and "\<not> (b_valid (p_latch p) \<and> b_tag (p_latch p) = t)"
  shows "unlinked i t p"
  using assms by (simp add: unlinked_def new_entry_def)

text \<open>The slot after an undisturbed edge: resolved or as it was, but not written from the bus.\<close>

lemma undisturbed_slot:
  assumes "unlinked i t p" and "undisturbed t (c # cs) p"
  shows "path_slot (br_path_clock c p) t = (if br_valid_o (p_unit p) \<and> br_tag_o (p_unit p) = t
    then (path_slot p t)\<lparr>e_branch_taken := br_taken_o (p_unit p), e_branch_target := br_target_o (p_unit p), e_state := ROB_DONE\<rparr>
    else path_slot p t)"
proof -
  have len: "length (h_entries (p_rob p)) = 16" and nf: "\<not> o_flush (path_commit p)"
    using assms by (simp_all add: unlinked_def)
  have c: "\<not> (hw_cdb_hit (path_rob_in c p) (p_rob p) \<and> t = b_tag (a_cdb (path_rob_in c p)))"
  proof (cases "c_grant c")
    case True
    then have "a_cdb (path_rob_in c p) = p_latch p" by (simp add: path_rob_in_def)
    then show ?thesis using assms(1) by (auto simp: unlinked_def hw_cdb_hit_def path_slot_def)
  next
    case False
    then have "a_cdb (path_rob_in c p) = c_bus c" by (simp add: path_rob_in_def)
    then show ?thesis using assms(2) False by (auto simp: hw_cdb_hit_def)
  qed
  have b: "hw_br_hit (path_rob_in c p) (p_rob p) \<and> t = a_br_tag (path_rob_in c p) \<longleftrightarrow>
      br_valid_o (p_unit p) \<and> br_tag_o (p_unit p) = t"
    using assms(1) by (auto simp: unlinked_def hw_br_hit_def path_rob_in_def path_slot_def)
  have "\<not> (hw_commits (path_rob_in c p) (p_rob p) \<and> t = h_head (p_rob p))"
    "\<not> (hw_allocates (path_rob_in c p) (p_rob p) \<and> t = h_tail (p_rob p))"
    "a_br_taken (path_rob_in c p) = br_taken_o (p_unit p)" "a_br_target (path_rob_in c p) = br_target_o (p_unit p)"
    using assms(2) by (auto simp: path_rob_in_def)
  with b c show ?thesis by (simp only: path_slot_clock [OF len nf] Let_def if_False)
qed

lemma unlinked_clock:
  assumes "unlinked i t p" and "undisturbed t (c # cs) p"
  shows "unlinked i t (br_path_clock c p)"
proof -
  have "p_latch (br_path_clock c p) = br_latch_clock False (c_grant c) p"
    using assms(2) by (simp add: br_path_clock_def Let_def)
  then show ?thesis
    using assms(1) unfolding unlinked_def undisturbed_slot [OF assms] by (auto simp: br_latch_clock_def)
qed

lemma unlinked_run: "unlinked i t p \<Longrightarrow> undisturbed t cs p \<Longrightarrow> unlinked i t (fold br_path_clock cs p)"
proof (induction cs arbitrary: p)
  case (Cons c cs)
  from unlinked_clock [OF Cons.prems] Cons show ?case by simp
qed simp

section \<open>Properties\<close>

text \<open>C16. A \<open>JAL\<close> or \<open>JALR\<close> retires by writing 0, not its return address, to its destination register. The jump
  has just been allocated slot \<open>t\<close>, with nothing in the branch latch under that tag; then the path runs for any
  number of cycles in which the slot is not flushed, retired or allocated again and no other unit broadcasts its
  tag. The branch resolution marks the entry done one cycle before the return address can be on the bus, and the
  reorder buffer takes results only for entries in flight.\<close>

theorem hw_jump_links_zero:
  assumes "length (h_entries (p_rob p)) = 16" and "path_slot p t = new_entry i" and "is_jump_op (i_op i)"
    and "\<not> (b_valid (p_latch p) \<and> b_tag (p_latch p) = t)" and "undisturbed t cs p"
    and "q = fold br_path_clock cs p" and "hw_commit_valid (p_rob q)" and "h_head (p_rob q) = t"
    and "i_rd_valid i" and "\<not> i_rd_fp i"
  shows "o_x_wr (path_commit q) = Some (i_rd i, 0)"
  using unlinked_run [OF unlinked_new [OF assms(1-4)] assms(5)] assms(6-10)
  by (simp add: path_commit_def hw_commit_unit_def unlinked_def path_slot_def hw_commit_entry_def)

text \<open>\<open>JAL ra\<close> at address 0x40: dispatched, issued, resolved; it retires while the latch holds 0x44.\<close>

definition jump_at :: "arch_reg \<Rightarrow> u32 \<Rightarrow> instr_t" where
  "jump_at rd pc = \<lparr>i_op = OP_JAL, i_rd = rd, i_rs1 = 0, i_rs2 = 0, i_imm = 16, i_rd_fp = False, i_rs1_fp = False,
     i_rs2_fp = False, i_rd_valid = True, i_pc = pc\<rparr>"

definition issue_jump :: "tag \<Rightarrow> u32 \<Rightarrow> issue" where
  "issue_jump t pc = \<lparr>s_valid = True, s_op = OP_JAL, s_tag = t, s_pc = pc, s_rs1 = 0, s_rs2 = 0, s_imm = 16\<rparr>"

definition idle_cycle :: br_cycle where
  "idle_cycle = \<lparr>c_issue = (issue_jump 0 0)\<lparr>s_valid := False\<rparr>, c_grant = False,
     c_bus = \<lparr>b_tag = 0, b_value = 0, b_valid = False\<rparr>, c_alloc_en = False, c_alloc_instr = jump_at 0 0\<rparr>"

definition alloc_cycle :: "instr_t \<Rightarrow> br_cycle" where
  "alloc_cycle i = idle_cycle\<lparr>c_alloc_en := True, c_alloc_instr := i\<rparr>"

definition jal_allocated :: br_path where
  "jal_allocated = br_path_clock (alloc_cycle (jump_at 1 0x40)) br_path_reset"

definition jal_retiring :: br_path where
  "jal_retiring = fold br_path_clock [idle_cycle\<lparr>c_issue := issue_jump 0 0x40\<rparr>, idle_cycle] jal_allocated"

lemma jal_run:
  "length (h_entries (p_rob jal_allocated)) = 16" "path_slot jal_allocated 0 = new_entry (jump_at 1 0x40)"
  "\<not> b_valid (p_latch jal_allocated)" "undisturbed 0 [idle_cycle\<lparr>c_issue := issue_jump 0 0x40\<rparr>, idle_cycle] jal_allocated"
  "hw_commit_valid (p_rob jal_retiring)" "h_head (p_rob jal_retiring) = 0"
  "p_latch jal_retiring = \<lparr>b_tag = 0, b_value = 0x44, b_valid = True\<rparr>"
  by code_simp+

theorem hw_jump_links_zero_witness:
  "o_x_wr (path_commit jal_retiring) = Some (1, 0) \<and> p_latch jal_retiring = \<lparr>b_tag = 0, b_value = 0x44, b_valid = True\<rparr>"
proof -
  have "\<not> (b_valid (p_latch jal_allocated) \<and> b_tag (p_latch jal_allocated) = 0)" using jal_run(3) by simp
  from hw_jump_links_zero [OF jal_run(1,2) _ this jal_run(4) jal_retiring_def jal_run(5,6)] jal_run(7)
  show ?thesis by (simp add: jump_at_def is_jump_op_def)
qed

text \<open>A stale result. The jump in slot 0 flushes the core in the cycle in which the jump behind it, in slot 1, is
  issued; that one reaches the latch after the flush. Two instructions are allocated before the latch is granted,
  and the second, a jump at 0x54, is marked done with the return address 0x48 of the squashed one, as not taken.\<close>

lemma stale_link_after_flush:
  "let q = fold br_path_clock
       [alloc_cycle (jump_at 1 0x40), (alloc_cycle (jump_at 2 0x44))\<lparr>c_issue := issue_jump 0 0x40\<rparr>, idle_cycle,
        idle_cycle\<lparr>c_issue := issue_jump 1 0x44, c_grant := True\<rparr>, idle_cycle,
        alloc_cycle ((jump_at 0 0x50)\<lparr>i_op := OP_ADD\<rparr>), alloc_cycle (jump_at 3 0x54), idle_cycle\<lparr>c_grant := True\<rparr>]
       br_path_reset
   in path_slot q 1 = (new_entry (jump_at 3 0x54))\<lparr>e_state := ROB_DONE, e_result := 0x48\<rparr>"
  by code_simp


end
