(* ===== verification/Hw_Float.thy ===== *)
theory Hw_Float
  imports Hw_Types
begin

text \<open>
  \<open>hardware/execute/fp_ops\<close>: the floating-point units of the core. Addition, multiplication and conversion
  are pipelines that stop as a whole while their last stage waits for the bus, division is a state machine of
  eight cycles. All of them take normal operands, flush small results to zero and truncate. The combinational
  parts are functions on words; the registers of a unit are a record with one clock function.
\<close>

unbundle bit_operations_syntax

section \<open>Fields of a binary32 word\<close>

definition fp_s :: "u32 \<Rightarrow> bool" where
  "fp_s w = bit w 31"

definition fp_e :: "u32 \<Rightarrow> 8 word" where
  "fp_e w = ucast (drop_bit 23 w)"

text \<open>\<open>{1'b1, w[22:0]}\<close>\<close>

definition fp_m :: "u32 \<Rightarrow> 24 word" where
  "fp_m w = 0x800000 + ucast (take_bit 23 w)"

text \<open>\<open>{s, e, m}\<close>, and the value of an overflow.\<close>

definition fp_pack :: "bool \<Rightarrow> 8 word \<Rightarrow> 23 word \<Rightarrow> u32" where
  "fp_pack s e m = (if s then 0x80000000 else 0) + push_bit 23 (ucast e) + ucast m"

definition fp_max :: "bool \<Rightarrow> u32" where
  "fp_max s = fp_pack s 0xFE 0x7FFFFF"

text \<open>The inputs of a unit in a cycle.\<close>

record fu_in =
  f_flush :: bool
  f_valid :: bool
  f_op :: opcode_e
  f_tag :: tag
  f_rs1 :: u32
  f_rs2 :: u32
  f_grant :: bool

section \<open>fp_add and fp_cvt\<close>

text \<open>The loop that finds the highest set bit: the last assignment wins.\<close>

definition last_set :: "nat \<Rightarrow> 'a::len word \<Rightarrow> nat" where
  "last_set n w = fold (\<lambda>i pos. if bit w i then i else pos) [0..<n] 0"

definition fp_add_core :: "u32 \<Rightarrow> u32 \<Rightarrow> bool \<Rightarrow> u32" where
  "fp_add_core a b subtract =
     (let sa = fp_s a; ea = fp_e a; ma = fp_m a; sb = (fp_s b \<noteq> subtract); eb = fp_e b; mb = fp_m b in
      if ea = 0 \<and> eb = 0 then 0
      else if ea = 0 then (if sb then 0x80000000 else 0) + take_bit 31 b
      else if eb = 0 then a
      else let (sa, sb, ea, eb, ma, mb) = (if eb > ea then (sb, sa, eb, ea, mb, ma) else (sa, sb, ea, eb, ma, mb));
               ediff = ea - eb;
               xa = push_bit 2 (ucast ma) :: 26 word;
               xb = (if ediff > 25 then 0 else drop_bit (unat (take_bit 5 ediff)) (push_bit 2 (ucast mb))) :: 26 word;
               (s, sr) = (if sa = sb then (ucast xa + ucast xb, sa)
                          else if xa \<ge> xb then (ucast xa - ucast xb, sa)
                          else (ucast xb - ucast xa, sb)) :: 27 word \<times> bool in
        if s = 0 then 0
        else if bit s 26 then fp_pack sr (ea + 1) (ucast (drop_bit 3 s))
        else let lop = last_set 26 s; sh = 25 - of_nat lop :: 8 word;
                 norm = push_bit (unat (take_bit 5 sh)) (ucast s) :: 26 word in
          if ea > sh then fp_pack sr (ea - sh) (ucast (drop_bit 2 norm)) else 0)"

definition fp_to_int :: "u32 \<Rightarrow> u32" where
  "fp_to_int f =
     (let fe = fp_e f; fmant = ucast (fp_m f) :: u32 in
      if fe = 0 then 0
      else if fe < 127 then 0
      else if fe \<ge> 158 then (if fp_s f then 0x80000000 else 0x7FFFFFFF)
      else let exp_u = ucast (fe - 127) :: 5 word;
               mag = (if exp_u \<ge> 23 then push_bit (unat (exp_u - 23)) fmant else drop_bit (unat (23 - exp_u)) fmant) in
        if fp_s f then NOT mag + 1 else mag)"

definition int_to_fp :: "u32 \<Rightarrow> u32" where
  "int_to_fp x =
     (if x = 0 then 0
      else let xs = bit x 31; mag = (if xs then NOT x + 1 else x);
               pos = of_nat (last_set 32 mag) :: 5 word;
               norm = push_bit (unat (31 - pos)) mag;
               fe = 127 + ucast pos :: 8 word in
        fp_pack xs fe (ucast (drop_bit 8 norm)))"

text \<open>The two-stage pipeline both units have.\<close>

record pipe2 =
  p1_valid :: bool
  p1_tag :: tag
  p1_result :: u32
  p2_valid :: bool
  p2_tag :: tag
  p2_result :: u32

definition pipe2_reset :: pipe2 where
  "pipe2_reset = \<lparr>p1_valid = False, p1_tag = 0, p1_result = 0, p2_valid = False, p2_tag = 0, p2_result = 0\<rparr>"

definition pipe2_advance :: "fu_in \<Rightarrow> pipe2 \<Rightarrow> bool" where
  "pipe2_advance i p \<longleftrightarrow> \<not> p2_valid p \<or> f_grant i"

definition pipe2_clock :: "(fu_in \<Rightarrow> u32) \<Rightarrow> fu_in \<Rightarrow> pipe2 \<Rightarrow> pipe2" where
  "pipe2_clock compute i p =
     (if f_flush i then pipe2_reset
      else if pipe2_advance i p then
        \<lparr>p1_valid = f_valid i, p1_tag = f_tag i, p1_result = (if f_valid i then compute i else 0),
         p2_valid = p1_valid p, p2_tag = p1_tag p, p2_result = p1_result p\<rparr>
      else p)"

definition fp_add_clock :: "fu_in \<Rightarrow> pipe2 \<Rightarrow> pipe2" where
  "fp_add_clock = pipe2_clock (\<lambda>i. fp_add_core (f_rs1 i) (f_rs2 i) (f_op i = OP_FSUB_S))"

definition fp_cvt_clock :: "fu_in \<Rightarrow> pipe2 \<Rightarrow> pipe2" where
  "fp_cvt_clock = pipe2_clock (\<lambda>i. if f_op i = OP_FCVT_W_S then fp_to_int (f_rs1 i) else int_to_fp (f_rs1 i))"

section \<open>fp_mul\<close>

record mul_regs =
  m1_valid :: bool
  m1_zero :: bool
  m1_sign :: bool
  m1_tag :: tag
  m1_exp :: "10 word"
  m1_hh :: "24 word"
  m1_hl :: "24 word"
  m1_lh :: "24 word"
  m1_ll :: "24 word"
  m2_valid :: bool
  m2_zero :: bool
  m2_sign :: bool
  m2_tag :: tag
  m2_exp :: "10 word"
  m2_product :: "48 word"
  m3_valid :: bool
  m3_tag :: tag
  m3_result :: u32
  m4_valid :: bool
  m4_tag :: tag
  m4_result :: u32

definition mul_reset :: mul_regs where
  "mul_reset = \<lparr>m1_valid = False, m1_zero = False, m1_sign = False, m1_tag = 0, m1_exp = 0, m1_hh = 0, m1_hl = 0,
     m1_lh = 0, m1_ll = 0, m2_valid = False, m2_zero = False, m2_sign = False, m2_tag = 0, m2_exp = 0, m2_product = 0,
     m3_valid = False, m3_tag = 0, m3_result = 0, m4_valid = False, m4_tag = 0, m4_result = 0\<rparr>"

text \<open>The halves \<open>m[23:12]\<close> and \<open>m[11:0]\<close> of a significand, as operands of a 24-bit product.\<close>

definition mant_hi :: "24 word \<Rightarrow> 24 word" where "mant_hi m = drop_bit 12 m"
definition mant_lo :: "24 word \<Rightarrow> 24 word" where "mant_lo m = take_bit 12 m"

definition mul_exp :: "u32 \<Rightarrow> u32 \<Rightarrow> 10 word" where
  "mul_exp a b = ucast (fp_e a) + ucast (fp_e b) - 127"

definition mul_product :: "24 word \<Rightarrow> 24 word \<Rightarrow> 24 word \<Rightarrow> 24 word \<Rightarrow> 48 word" where
  "mul_product hh hl lh ll = push_bit 24 (ucast hh) + push_bit 12 (ucast hl) + push_bit 12 (ucast lh) + ucast ll"

definition mul_pack :: "bool \<Rightarrow> bool \<Rightarrow> 10 word \<Rightarrow> 48 word \<Rightarrow> u32" where
  "mul_pack zero sign e p =
     (if zero \<or> p = 0 then 0
      else let er = (if bit p 47 then e + 1 else e);
               mant = ucast (drop_bit (if bit p 47 then 24 else 23) p) :: 23 word in
        if bit er 9 \<or> er = 0 then 0
        else if er > 254 then fp_max sign
        else fp_pack sign (ucast er) mant)"

definition mul_advance :: "fu_in \<Rightarrow> mul_regs \<Rightarrow> bool" where
  "mul_advance i r \<longleftrightarrow> \<not> m4_valid r \<or> f_grant i"

definition fp_mul_clock :: "fu_in \<Rightarrow> mul_regs \<Rightarrow> mul_regs" where
  "fp_mul_clock i r =
     (if f_flush i then mul_reset
      else if mul_advance i r then
        let ma = fp_m (f_rs1 i); mb = fp_m (f_rs2 i) in
        \<lparr>m1_valid = f_valid i, m1_zero = (fp_e (f_rs1 i) = 0 \<or> fp_e (f_rs2 i) = 0),
         m1_sign = (fp_s (f_rs1 i) \<noteq> fp_s (f_rs2 i)), m1_tag = f_tag i, m1_exp = mul_exp (f_rs1 i) (f_rs2 i),
         m1_hh = mant_hi ma * mant_hi mb, m1_hl = mant_hi ma * mant_lo mb,
         m1_lh = mant_lo ma * mant_hi mb, m1_ll = mant_lo ma * mant_lo mb,
         m2_valid = m1_valid r, m2_zero = m1_zero r, m2_sign = m1_sign r, m2_tag = m1_tag r, m2_exp = m1_exp r,
         m2_product = mul_product (m1_hh r) (m1_hl r) (m1_lh r) (m1_ll r),
         m3_valid = m2_valid r, m3_tag = m2_tag r,
         m3_result = mul_pack (m2_zero r) (m2_sign r) (m2_exp r) (m2_product r),
         m4_valid = m3_valid r, m4_tag = m3_tag r, m4_result = m3_result r\<rparr>
      else r)"

section \<open>fp_div\<close>

datatype div_state = DIV_IDLE | DIV_DIVIDE | DIV_DONE

record div_regs =
  d_state :: div_state
  d_tag :: tag
  d_sign :: bool
  d_exp :: "10 word"
  d_dv :: "24 word"
  d_preg :: "24 word"
  d_sreg :: "24 word"
  d_qreg :: "24 word"
  d_cnt :: "3 word"

definition div_reset :: div_regs where
  "div_reset = \<lparr>d_state = DIV_IDLE, d_tag = 0, d_sign = False, d_exp = 0, d_dv = 0, d_preg = 0, d_sreg = 0, d_qreg = 0,
     d_cnt = 0\<rparr>"

text \<open>One bit of restoring division: the partial remainder, the shift register and the quotient bit.\<close>

definition div1 :: "24 word \<Rightarrow> 24 word \<Rightarrow> 24 word \<Rightarrow> 24 word \<times> 24 word \<times> bool" where
  "div1 p s dv = (let p' = push_bit 1 p OR drop_bit 23 s; s' = push_bit 1 s in
     if p' \<ge> dv then (p' - dv, s', True) else (p', s', False))"

definition div3_step :: "24 word \<Rightarrow> 24 word \<Rightarrow> 24 word \<Rightarrow> 24 word \<times> 24 word \<times> 3 word" where
  "div3_step p s dv = (let (p, s, q2) = div1 p s dv; (p, s, q1) = div1 p s dv; (p, s, q0) = div1 p s dv
     in (p, s, (if q2 then 4 else 0) + (if q1 then 2 else 0) + (if q0 then 1 else 0)))"

definition fp_div_result :: "div_regs \<Rightarrow> u32" where
  "fp_div_result r =
     (if bit (d_exp r) 9 \<or> d_exp r = 0 then 0
      else if d_exp r > 254 then fp_max (d_sign r)
      else if bit (d_qreg r) 23 then fp_pack (d_sign r) (ucast (d_exp r)) (ucast (d_qreg r))
      else if d_exp r > 1 then fp_pack (d_sign r) (ucast (d_exp r) - 1) (push_bit 1 (ucast (d_qreg r)))
      else 0)"

definition fp_div_clock :: "fu_in \<Rightarrow> div_regs \<Rightarrow> div_regs" where
  "fp_div_clock i r =
     (if f_flush i then div_reset
      else case d_state r of
        DIV_IDLE \<Rightarrow>
          if f_valid i then
            let mb = fp_m (f_rs2 i); (p0, s0, qb0) = div3_step 0 (fp_m (f_rs1 i)) mb in
            \<lparr>d_state = DIV_DIVIDE, d_tag = f_tag i, d_sign = (fp_s (f_rs1 i) \<noteq> fp_s (f_rs2 i)),
             d_exp = ucast (fp_e (f_rs1 i)) - ucast (fp_e (f_rs2 i)) + 127,
             d_dv = mb, d_preg = p0, d_sreg = s0, d_qreg = ucast qb0, d_cnt = 0\<rparr>
          else r
      | DIV_DIVIDE \<Rightarrow>
          let (p, s, q) = div3_step (d_preg r) (d_sreg r) (d_dv r);
              r' = r\<lparr>d_preg := p, d_sreg := s, d_qreg := push_bit 3 (d_qreg r) OR ucast q\<rparr> in
          if d_cnt r = 6 then r'\<lparr>d_state := DIV_DONE\<rparr> else r'\<lparr>d_cnt := d_cnt r + 1\<rparr>
      | DIV_DONE \<Rightarrow> if f_grant i then r\<lparr>d_state := DIV_IDLE\<rparr> else r)"

section \<open>Words as numbers\<close>

lemma bit_word_unat: "bit w n \<longleftrightarrow> odd (unat w div 2 ^ n)" for w :: "'a::len word"
proof -
  have "bit (unat w) n \<longleftrightarrow> bit w n" by (simp add: bit_unsigned_iff)
  then show ?thesis by (simp add: bit_iff_odd)
qed

lemma not_bit_small: "unat w < 2 ^ n \<Longrightarrow> \<not> bit w n" for w :: "'a::len word"
  by (simp add: bit_word_unat)

lemma bit_top:
  fixes w :: "'a::len word"
  assumes "unat w < 2 ^ Suc n"
  shows "bit w n \<longleftrightarrow> 2 ^ n \<le> unat w"
proof (cases "2 ^ n \<le> unat w")
  case True
  then have "unat w div 2 ^ n = 1" using assms by (intro div_nat_eqI) auto
  then show ?thesis using True by (simp add: bit_word_unat)
qed (use not_bit_small [of w n] in auto)

lemma unat_fp_m: "unat (fp_m w) = 2 ^ 23 + unat w mod 2 ^ 23"
proof -
  have "unat (ucast (take_bit 23 w) :: 24 word) = unat w mod 2 ^ 23"
    by (simp add: unsigned_ucast_eq unsigned_take_bit_eq take_bit_take_bit) (simp add: take_bit_eq_mod)
  moreover have "unat w mod 2 ^ 23 < 2 ^ 23" by simp
  ultimately show ?thesis by (simp add: fp_m_def unat_word_ariths)
qed

lemma fp_m_top: "bit (fp_m w) 23"
proof -
  have "unat w mod 8388608 < 8388608" by simp
  then have "unat (fp_m w) div 8388608 = 1" by (simp add: unat_fp_m)
  then show ?thesis by (simp only: bit_word_unat) simp
qed

section \<open>The contract of a unit behind the bus\<close>

text \<open>What the core relies on: a result that is offered stays until the bus grants it, and a flush withdraws it.
  \<open>out\<close> is the tag and the value a unit offers.\<close>

locale bus_unit =
  fixes clock :: "fu_in \<Rightarrow> 's \<Rightarrow> 's"
    and out :: "'s \<Rightarrow> (tag \<times> u32) option"
    and ready :: "fu_in \<Rightarrow> 's \<Rightarrow> bool"
  assumes offer_kept: "out s \<noteq> None \<Longrightarrow> \<not> f_grant i \<Longrightarrow> \<not> f_flush i \<Longrightarrow> clock i s = s"
    and offer_stalls: "out s \<noteq> None \<Longrightarrow> \<not> f_grant i \<Longrightarrow> \<not> ready i s"
    and flush_withdraws: "f_flush i \<Longrightarrow> out (clock i s) = None"
begin

lemma offer_held:
  assumes "out s = Some x" and "\<forall>i\<in>set js. \<not> f_grant i \<and> \<not> f_flush i"
  shows "fold clock js s = s"
  using assms by (induction js) (simp_all add: offer_kept)

lemma held_until_granted:
  assumes "out s = Some x" and "\<forall>i\<in>set js. \<not> f_grant i \<and> \<not> f_flush i"
  shows "out (fold clock js s) = Some x \<and> (\<forall>i. \<not> f_grant i \<longrightarrow> \<not> ready i (fold clock js s))"
  using offer_held [OF assms] assms(1) offer_stalls by simp

end

definition pipe2_out :: "pipe2 \<Rightarrow> (tag \<times> u32) option" where
  "pipe2_out p = (if p2_valid p then Some (p2_tag p, p2_result p) else None)"

definition mul_out :: "mul_regs \<Rightarrow> (tag \<times> u32) option" where
  "mul_out r = (if m4_valid r then Some (m4_tag r, m4_result r) else None)"

definition div_out :: "div_regs \<Rightarrow> (tag \<times> u32) option" where
  "div_out r = (if d_state r = DIV_DONE then Some (d_tag r, fp_div_result r) else None)"

definition div_ready :: "fu_in \<Rightarrow> div_regs \<Rightarrow> bool" where
  "div_ready i r \<longleftrightarrow> d_state r = DIV_IDLE"

interpretation pipe2_unit: bus_unit "pipe2_clock compute" pipe2_out pipe2_advance for compute
  by unfold_locales (auto simp: pipe2_out_def pipe2_clock_def pipe2_advance_def pipe2_reset_def split: if_splits)

interpretation mul_unit: bus_unit fp_mul_clock mul_out mul_advance
  by unfold_locales (auto simp: mul_out_def fp_mul_clock_def mul_advance_def mul_reset_def split: if_splits)

interpretation div_unit: bus_unit fp_div_clock div_out div_ready
  by unfold_locales (auto simp: div_out_def div_ready_def fp_div_clock_def div_reset_def split: if_splits)

section \<open>Properties\<close>



end
