(* ===== verification/Hw_Divide.thy ===== *)
theory Hw_Divide
  imports Hw_Float
begin

text \<open>
  \<open>hardware/execute/fp_ops/fp_div.sv\<close>: what the state machine computes. The 24 steps of restoring division
  start from the significand of the dividend, without the 24 further bits a fraction needs, so the quotient is
  the integer quotient of two significands, 0 or 1.
\<close>

section \<open>The steps\<close>

text \<open>After \<open>k\<close> steps the partial remainder holds the first \<open>k\<close> bits of the dividend: a divisor with its
  top bit set is larger than any 23 of them.\<close>

lemma shift_in:
  fixes m :: "24 word"
  assumes "k < 24"
  shows "push_bit 1 (drop_bit (24 - k) m) OR drop_bit 23 (push_bit k m) = drop_bit (23 - k) m"
proof (rule bit_word_eqI)
  fix n assume n: "n < LENGTH(24)"
  show "bit (push_bit 1 (drop_bit (24 - k) m) OR drop_bit 23 (push_bit k m)) n = bit (drop_bit (23 - k) m) n"
  proof (cases n)
    case 0
    then show ?thesis using assms by (simp only: bit_or_iff bit_push_bit_iff bit_drop_bit_eq comp_def) simp
  next
    case (Suc j)
    have "24 - k + j = 23 - k + Suc j" using assms by simp
    moreover have "\<not> bit (push_bit k m) (23 + n)" using Suc bit_imp_le_length [of "push_bit k m" "23 + n"] by auto
    ultimately show ?thesis
      using Suc n by (simp only: bit_or_iff bit_push_bit_iff bit_drop_bit_eq comp_def) simp
  qed
qed

lemma prefix_less:
  fixes m d :: "24 word"
  assumes "k < 23" and "bit d 23"
  shows "drop_bit (23 - k) m < d"
proof -
  have "unat (drop_bit (23 - k) m) = unat m div 2 ^ (23 - k)" 
    unfolding unat_drop_bit_eq by (simp add: drop_bit_eq_div)
  also have "\<dots> \<le> unat m div 2 ^ 1" using assms(1) by (intro div_le_mono2 power_increasing) auto
  also have "\<dots> < 2 ^ 23" using unsigned_less [of m, where ?'a = nat] by simp
  also have "\<dots> \<le> unat d"
  proof (rule ccontr)
    assume "\<not> 2 ^ 23 \<le> unat d"
    then have "unat d div 2 ^ 23 = 0" by simp
    with assms(2) show False by (simp only: bit_word_unat) simp
  qed
  finally show ?thesis by (simp add: word_less_nat_alt)
qed

lemma div1_prefix:
  fixes m d :: "24 word"
  assumes "bit d 23" and "k < 23"
  shows "div1 (drop_bit (24 - k) m) (push_bit k m) d = (drop_bit (24 - Suc k) m, push_bit (Suc k) m, False)"
  using shift_in [of k m] prefix_less [OF assms(2,1), of m] assms(2)
  by (simp add: div1_def Let_def not_le push_bit_double)

lemma div1_last:
  fixes m d :: "24 word"
  shows "div1 (drop_bit 1 m) (push_bit 23 m) d = (if m \<ge> d then (m - d, push_bit 24 m, True) else (m, push_bit 24 m, False))"
  using shift_in [of 23 m] by (simp add: div1_def Let_def push_bit_double)

lemma div3_prefix:
  fixes m d :: "24 word"
  assumes "bit d 23" and "k < 21"
  shows "div3_step (drop_bit (24 - k) m) (push_bit k m) d = (drop_bit (24 - (k + 3)) m, push_bit (k + 3) m, 0)"
  using div1_prefix [OF assms(1), of k m] div1_prefix [OF assms(1), of "Suc k" m]
    div1_prefix [OF assms(1), of "Suc (Suc k)" m] assms(2)
  by (simp add: div3_step_def Let_def numeral_3_eq_3)

lemma div3_last:
  fixes m d :: "24 word"
  assumes "bit d 23"
  shows "snd (snd (div3_step (drop_bit 3 m) (push_bit 21 m) d)) = (if m \<ge> d then 1 else 0)"
  using div1_prefix [OF assms, of 21 m] div1_prefix [OF assms, of 22 m] div1_last [of m d]
  by (simp add: div3_step_def Let_def)

section \<open>The state machine\<close>

definition div_exp :: "u32 \<Rightarrow> u32 \<Rightarrow> 10 word" where
  "div_exp a b = ucast (fp_e a) - ucast (fp_e b) + 127"

text \<open>The registers while the counter is \<open>c\<close>.\<close>

definition div_at :: "u32 \<Rightarrow> u32 \<Rightarrow> tag \<Rightarrow> nat \<Rightarrow> div_regs" where
  "div_at a b t c = \<lparr>d_state = DIV_DIVIDE, d_tag = t, d_sign = (fp_s a \<noteq> fp_s b), d_exp = div_exp a b, d_dv = fp_m b,
     d_preg = drop_bit (24 - (3 * c + 3)) (fp_m a), d_sreg = push_bit (3 * c + 3) (fp_m a), d_qreg = 0, d_cnt = of_nat c\<rparr>"

lemma div_issue:
  assumes "d_state r = DIV_IDLE" and "f_valid i" and "\<not> f_flush i"
  shows "fp_div_clock i r = div_at (f_rs1 i) (f_rs2 i) (f_tag i) 0"
proof -
  have "drop_bit 24 m = 0" for m :: "24 word" by (rule bit_word_eqI) (auto simp: bit_simps dest: bit_imp_le_length)
  then show ?thesis
    using assms div3_prefix [OF fp_m_top [of "f_rs2 i"], of 0 "fp_m (f_rs1 i)"]
    by (simp add: fp_div_clock_def div_at_def div_exp_def Let_def)
qed

lemma div_step:
  assumes "c < 6" and "\<not> f_flush i"
  shows "fp_div_clock i (div_at a b t c) = div_at a b t (Suc c)"
proof -
  have "(of_nat c :: 3 word) \<noteq> 6"
    using assms(1) by (simp add: word_unat_eq_iff unat_of_nat)
  then show ?thesis
    using assms div3_prefix [OF fp_m_top [of b], of "3 * c + 3" "fp_m a"]
    by (simp add: fp_div_clock_def div_at_def Let_def algebra_simps)
qed

lemma div_run:
  "length js \<le> 6 \<Longrightarrow> \<forall>i\<in>set js. \<not> f_flush i \<Longrightarrow>
     fold fp_div_clock js (div_at a b t 0) = div_at a b t (length js)"
  by (induction js rule: rev_induct) (simp_all add: div_step)

lemma div_finish:
  fixes a b t i
  defines "r \<equiv> fp_div_clock i (div_at a b t 6)"
  assumes "\<not> f_flush i"
  shows "d_state r = DIV_DONE \<and> d_tag r = t \<and> d_sign r = (fp_s a \<noteq> fp_s b) \<and> d_exp r = div_exp a b \<and>
    d_qreg r = (if fp_m a \<ge> fp_m b then 1 else 0)"
proof -
  obtain p s q where "div3_step (drop_bit 3 (fp_m a)) (push_bit 21 (fp_m a)) (fp_m b) = (p, s, q)"
    by (metis prod_cases3)
  then show ?thesis
    using assms(2) div3_last [OF fp_m_top [of b], of "fp_m a"]
    by (auto simp: r_def fp_div_clock_def div_at_def Let_def)
qed

section \<open>Properties\<close>

text \<open>C26. A division takes eight clock edges: the one that issues it and seven more, and with the eighth the unit
  offers a result under the tag of the instruction. Its quotient register then holds only whether the significand of
  the dividend is at least the one of the divisor, so for every quotient in range the fraction of the result is
  0 or 2, whatever the operands are.\<close>

theorem fp_div_quotient_bit:
  assumes "d_state r0 = DIV_IDLE" and "f_valid i" and "length js = 7" and "\<forall>j\<in>set (i # js). \<not> f_flush j"
    and "1 < div_exp (f_rs1 i) (f_rs2 i)" and "div_exp (f_rs1 i) (f_rs2 i) \<le> 254"
  shows "let r = fold fp_div_clock (i # js) r0; q = (fp_m (f_rs1 i) \<ge> fp_m (f_rs2 i)) in
    d_state r = DIV_DONE \<and> d_tag r = f_tag i \<and> d_qreg r = (if q then 1 else 0) \<and>
    fp_div_result r = fp_pack (fp_s (f_rs1 i) \<noteq> fp_s (f_rs2 i)) (ucast (div_exp (f_rs1 i) (f_rs2 i)) - 1) (if q then 2 else 0)"
proof -
  let ?a = "f_rs1 i" and ?b = "f_rs2 i"
  obtain ks j where js: "js = ks @ [j]" "length ks = 6"
    using assms(3) by (cases js rule: rev_cases) auto
  have nf: "\<not> f_flush i" "\<forall>k\<in>set ks. \<not> f_flush k" "\<not> f_flush j"
    using assms(4) unfolding js(1) by auto
  define r where "r = fold fp_div_clock (i # js) r0"
  have "r = fp_div_clock j (fold fp_div_clock ks (fp_div_clock i r0))"
    by (simp add: r_def js(1))
  also have "fold fp_div_clock ks (fp_div_clock i r0) = div_at ?a ?b (f_tag i) 6"
    unfolding div_issue [OF assms(1,2) nf(1)] using div_run [of ks ?a ?b "f_tag i"] nf(2) js(2) by (metis order_refl)
  finally have r: "d_state r = DIV_DONE" "d_tag r = f_tag i" "d_sign r = (fp_s ?a \<noteq> fp_s ?b)"
      "d_exp r = div_exp ?a ?b" "d_qreg r = (if fp_m ?a \<ge> fp_m ?b then 1 else 0)"
    using div_finish [OF nf(3), of ?a ?b "f_tag i"] by auto
  have "\<not> bit (div_exp ?a ?b) 9"
    using assms(6) by (intro not_bit_small) (simp add: word_le_nat_alt)
  moreover have "\<not> bit (1 :: 24 word) 23" and "div_exp ?a ?b \<noteq> 0" and "\<not> div_exp ?a ?b > 254"
    using assms(5,6) by (auto simp: bit_simps)
  ultimately have "fp_div_result r = fp_pack (d_sign r) (ucast (d_exp r) - 1) (if fp_m ?a \<ge> fp_m ?b then 2 else 0)"
    using r assms(5) by (simp add: fp_div_result_def)
  then show ?thesis using r unfolding r_def [symmetric] Let_def by simp
qed

text \<open>6 / 2: the unit gives 0x3F800002, a little over 1, and the simulator 3.\<close>

theorem fp_div_quotient_bit_witness:
  "let i = \<lparr>f_flush = False, f_valid = True, f_op = OP_FDIV_S, f_tag = 5, f_rs1 = 0x40C00000, f_rs2 = 0x40000000,
         f_grant = False\<rparr>; r = fold fp_div_clock (i # replicate 7 (i\<lparr>f_valid := False\<rparr>)) div_reset in
   d_state r = DIV_DONE \<and> d_tag r = 5 \<and> fp_div_result r = 0x3F800002 \<and>
   float_div x86_env (Float32 0x40C00000) (Float32 0x40000000) = Float32 0x40400000"
proof -
  let ?i = "\<lparr>f_flush = False, f_valid = True, f_op = OP_FDIV_S, f_tag = 5, f_rs1 = 0x40C00000, f_rs2 = 0x40000000,
         f_grant = False\<rparr>"
  have "1 < div_exp (f_rs1 ?i) (f_rs2 ?i)" "div_exp (f_rs1 ?i) (f_rs2 ?i) \<le> 254" by code_simp+
  moreover have "fp_pack (fp_s (f_rs1 ?i) \<noteq> fp_s (f_rs2 ?i)) (ucast (div_exp (f_rs1 ?i) (f_rs2 ?i)) - 1)
      (if fp_m (f_rs1 ?i) \<ge> fp_m (f_rs2 ?i) then 2 else 0) = 0x3F800002" by code_simp
  moreover have "float_div x86_env (Float32 0x40C00000) (Float32 0x40000000) = Float32 0x40400000" by code_simp
  moreover have "d_state div_reset = DIV_IDLE" by (simp add: div_reset_def)
  ultimately show ?thesis
    using fp_div_quotient_bit [of div_reset ?i "replicate 7 (?i\<lparr>f_valid := False\<rparr>)"]
    by (simp add: Let_def del: fold_simps)
qed

end
