(* ===== verification/Hw_Rounding.thy ===== *)
theory Hw_Rounding
  imports Hw_Float
begin

text \<open>
  The results of \<open>fp_mul\<close>, \<open>fp_add\<close> and \<open>fp_cvt\<close> against the arithmetic of the simulator. The hardware
  drops the bits past the 24th of an exact product or of an exact sum of equal signs; the simulator rounds the same
  exact value to nearest. A conversion of a number that fits is the same in both.
\<close>

section \<open>Fields\<close>

lemma unat_fp_e: "unat (fp_e w) = unat w div 2 ^ 23 mod 256"
proof -
  have "unat (fp_e w) = take_bit 8 (drop_bit 23 (unat w))"
    by (simp only: fp_e_def unsigned_ucast_eq unat_drop_bit_eq) simp
  then show ?thesis by (simp add: take_bit_eq_mod drop_bit_eq_div)
qed

lemma f_exp_fp_e: "f_exp (Float32 w) = int (unat (fp_e w))"
  by (simp only: f_exp_def unat_fp_e float32.sel uint_nat zdiv_int zmod_int of_nat_power of_nat_numeral)

lemma int_pow_le: "(2 :: int) ^ k \<le> int n \<longleftrightarrow> 2 ^ k \<le> n"
  by (metis of_nat_le_iff of_nat_numeral of_nat_power)

lemma int_pow_gt: "int n < (2 :: int) ^ k \<longleftrightarrow> n < 2 ^ k"
  by (metis of_nat_less_iff of_nat_numeral of_nat_power)

lemma f_sign_fp_s: "f_sign (Float32 w) = fp_s w"
proof -
  have "unat w < 2 ^ Suc 31" using unsigned_less [of w, where ?'a = nat] by simp
  then have "fp_s w \<longleftrightarrow> 2 ^ 31 \<le> unat w" unfolding fp_s_def by (rule bit_top)
  then show ?thesis by (simp only: f_sign_def float32.sel uint_nat int_pow_le)
qed

lemma f_mant_fp_m:
  assumes "fp_e w \<noteq> 0"
  shows "f_mant (Float32 w) = int (unat (fp_m w))"
proof -
  have "f_exp (Float32 w) \<noteq> 0" using assms by (simp only: f_exp_fp_e of_nat_eq_0_iff unat_eq_zero not_False_eq_True)
  moreover have "f_frac (Float32 w) = int (unat w mod 2 ^ 23)"
    by (simp only: f_frac_def float32.sel uint_nat zmod_int of_nat_power of_nat_numeral)
  ultimately show ?thesis by (simp add: f_mant_def unat_fp_m)
qed

lemma float_scale_normal: "fp_e w \<noteq> 0 \<Longrightarrow> f_scale (Float32 w) = int (unat (fp_e w)) - 150"
  by (simp add: f_scale_def f_exp_fp_e word_uint_eq_iff)

lemma fp_pack_f_pack: "Float32 (fp_pack s e m) = f_pack s (uint e * 2 ^ 23 + uint m)"
  by (simp add: f_pack_def fp_pack_def push_bit_eq_mult)

section \<open>Truncation\<close>

lemma f_pack_Suc: "Float32 w = f_pack s x \<Longrightarrow> f_pack s (x + 1) = Float32 (w + 1)"
  by (simp add: f_pack_def)

lemma bit_len_eq: "2 ^ k \<le> m \<Longrightarrow> m < 2 ^ Suc k \<Longrightarrow> bit_len m = int k + 1"
proof (induction k arbitrary: m)
  case 0
  then have "m = 1" by simp
  then show ?case by (simp add: bit_len.simps)
next
  case (Suc k)
  then have "2 ^ k \<le> m div 2" "m div 2 < 2 ^ Suc k" by auto
  then have "bit_len (m div 2) = int k + 1" by (rule Suc.IH)
  moreover have "0 < m" using Suc.prems(1) by (smt (verit) zero_less_power)
  ultimately show ?case by (subst bit_len.simps) simp
qed

text \<open>\<open>truncates_to s m e v\<close>: the normal number \<open>v\<close> is the exact value \<open>(-1) ^ s * m * 2 ^ e\<close> with the bits below
  its last place dropped. The significand of a normal number has 24 bits, so there is at most one such \<open>v\<close>.
  \<open>rounds_up m e v\<close>: the dropped bits are more than half a unit in the last place, or half a unit and \<open>v\<close> is odd;
  then rounding to nearest, ties to even, gives the successor of \<open>v\<close>.\<close>

definition truncates_to :: "bool \<Rightarrow> int \<Rightarrow> int \<Rightarrow> float32 \<Rightarrow> bool" where
  "truncates_to s m e v \<longleftrightarrow> f_sign v = s \<and> f_exp v \<in> {1..254} \<and> e \<le> f_scale v \<and> f_mant v = m div 2 ^ nat (f_scale v - e)"

definition rounds_up :: "int \<Rightarrow> int \<Rightarrow> float32 \<Rightarrow> bool" where
  "rounds_up m e v \<longleftrightarrow> (let k = nat (f_scale v - e); r = 2 * (m mod 2 ^ k) in 2 ^ k < r \<or> r = 2 ^ k \<and> odd (f_mant v))"

lemma truncates_to_bit_len:
  assumes "truncates_to s m e v"
  shows "bit_len m = f_scale v - e + 24"
proof -
  define k where "k = nat (f_scale v - e)"
  have "0 \<le> f_frac v" "f_frac v < 2 ^ 23" by (simp_all add: f_frac_def)
  then have m: "2 ^ 23 \<le> m div 2 ^ k" "m div 2 ^ k < 2 ^ 24" and k: "int k = f_scale v - e"
    using assms by (auto simp: truncates_to_def f_mant_def k_def)
  have r: "0 \<le> m mod 2 ^ k" "m mod 2 ^ k < 2 ^ k" by simp_all
  have "(m div 2 ^ k) * 2 ^ k \<le> m" "m < (m div 2 ^ k + 1) * 2 ^ k"
    using div_mult_mod_eq [of m "2 ^ k"] r by (simp_all only: distrib_right mult_1)
  moreover have "2 ^ 23 * 2 ^ k \<le> (m div 2 ^ k) * 2 ^ k" "(m div 2 ^ k + 1) * 2 ^ k \<le> 2 ^ 24 * 2 ^ k"
    using m by (simp_all add: mult_right_mono)
  ultimately have "2 ^ 23 * 2 ^ k \<le> m" "m < 2 ^ 24 * 2 ^ k" by linarith+
  then have "2 ^ (23 + k) \<le> m" "m < 2 ^ Suc (23 + k)" by (simp_all add: power_add)
  from bit_len_eq [OF this] show ?thesis using k by simp
qed

lemma truncates_to_unique:
  assumes "truncates_to s m e v" and "truncates_to s m e w"
  shows "v = w"
proof -
  have "f_scale v = f_scale w" using truncates_to_bit_len [OF assms(1)] truncates_to_bit_len [OF assms(2)] by simp
  then have f: "f_sign v = f_sign w" "f_exp v = f_exp w" "f_frac v = f_frac w"
    using assms by (auto simp: truncates_to_def f_scale_def f_mant_def split: if_splits)
  have bits: "uint (float_bits x) = (if f_sign x then 2 ^ 31 else 0) + f_exp x * 2 ^ 23 + f_frac x" for x
  proof -
    define n where "n = uint (float_bits x)"
    have "0 \<le> n" "n < 2 ^ 32" using uint_lt2p [of "float_bits x"] by (simp_all add: n_def)
    then have d: "0 \<le> n div 2 ^ 23" "n div 2 ^ 23 < 512" "2 ^ 31 \<le> n \<longleftrightarrow> 256 \<le> n div 2 ^ 23" by auto
    have "c mod 256 = c - (if 256 \<le> c then 256 else 0)" if "0 \<le> c" "c < 512" for c :: int
      using that int_mod_pos_eq [of c 256 1 "c - 256"] by auto
    from this [OF d(1,2)] show ?thesis
      using div_mult_mod_eq [of n "2 ^ 23"] d(3) by (simp add: f_sign_def f_exp_def f_frac_def flip: n_def)
  qed
  have "uint (float_bits v) = uint (float_bits w)" using f by (simp only: bits)
  then show ?thesis by (simp add: word_uint_eq_iff float32.expand)
qed

lemma f_pack_fields:
  assumes x: "x = (E - 1) * 2 ^ 23 + q" and "1 \<le> E" and "E \<le> 254" and "2 ^ 23 \<le> q" and "q < 2 ^ 24"
  shows "f_sign (f_pack s x) = s" and "f_exp (f_pack s x) = E" and "f_mant (f_pack s x) = q" and "f_scale (f_pack s x) = E - 150"
proof -
  define y where "y = (if s then 2 ^ 31 else 0) + x"
  have "0 \<le> y" "y < 2 ^ 32" using assms by (simp_all add: y_def)
  then have bits: "uint (float_bits (f_pack s x)) = y"
    by (simp add: f_pack_def uint_word_of_int flip: y_def)
  show "f_sign (f_pack s x) = s" unfolding f_sign_def bits using assms by (simp add: y_def)
  have y: "y = (q - 2 ^ 23) + (E + (if s then 256 else 0)) * 2 ^ 23" by (simp add: y_def x algebra_simps)
  have split: "(z + G * 2 ^ 23) div 2 ^ 23 = G" "(z + G * 2 ^ 23) mod 2 ^ 23 = z" if "0 \<le> z" "z < 2 ^ 23" for z G :: int
    using that by simp_all
  have "y div 2 ^ 23 = E + (if s then 256 else 0)" "y mod 2 ^ 23 = q - 2 ^ 23"
    unfolding y by (rule split; use assms(4,5) in simp)+
  then have e: "f_exp (f_pack s x) = E" and fr: "f_frac (f_pack s x) = q - 2 ^ 23"
    unfolding f_exp_def f_frac_def bits using assms(2,3) by auto
  show "f_exp (f_pack s x) = E" by (rule e)
  show "f_mant (f_pack s x) = q" "f_scale (f_pack s x) = E - 150"
    using e fr assms(2) by (simp_all add: f_mant_def f_scale_def)
qed

lemma div_pow_bounds:
  fixes m :: int
  assumes "2 ^ (23 + k) \<le> m" and "m < 2 ^ (24 + k)"
  shows "2 ^ 23 \<le> m div 2 ^ k" and "m div 2 ^ k < 2 ^ 24"
proof -
  show "2 ^ 23 \<le> m div 2 ^ k"
    using zdiv_mono1 [OF assms(1), of "2 ^ k"] by (simp add: power_add)
  show "m div 2 ^ k < 2 ^ 24"
  proof (rule ccontr)
    assume "\<not> m div 2 ^ k < 2 ^ 24"
    then have "2 ^ 24 * 2 ^ k \<le> (m div 2 ^ k) * 2 ^ k" by simp
    also have "\<dots> \<le> m" by (simp flip: minus_mod_eq_div_mult)
    finally show False using assms(2) by (simp add: power_add)
  qed
qed

lemma f_round_truncated:
  fixes s :: bool and m e :: int and k :: nat
  defines "v \<equiv> f_pack s ((e + int k + 149) * 2 ^ 23 + m div 2 ^ k)"
  assumes "2 ^ (23 + k) \<le> m" and "m < 2 ^ (24 + k)" and "-149 \<le> e + int k" and "e + int k + 150 \<le> 254"
  shows "truncates_to s m e v"
    and "f_round s m e = (if rounds_up m e v then f_pack s ((e + int k + 149) * 2 ^ 23 + m div 2 ^ k + 1) else v)"
proof -
  note q = div_pow_bounds [OF assms(2,3)]
  have x: "(e + int k + 149) * 2 ^ 23 + m div 2 ^ k = (e + int k + 150 - 1) * 2 ^ 23 + m div 2 ^ k" by simp
  have f: "f_sign v = s" "f_exp v = e + int k + 150" "f_mant v = m div 2 ^ k" "f_scale v = e + int k"
    unfolding v_def using f_pack_fields [OF x _ assms(5) q, of s] assms(4) by linarith+
  show "truncates_to s m e v" using assms(4,5) by (simp add: truncates_to_def f)
  have len: "bit_len m = int k + 24" using bit_len_eq [of "23 + k" m] assms(2,3) by simp
  have "0 < m" using assms(2) by (smt (verit) zero_less_power)
  have "(e + int k + 149) * 2 ^ 23 + m div 2 ^ k + 1 \<le> 255 * 2 ^ 23" using assms(5) q(2) by simp
  moreover have "(if e + int k \<le> e then m * 2 ^ nat (e - (e + int k)) else shift_round m (nat (e + int k - e)))
      = m div 2 ^ k + (if rounds_up m e v then 1 else 0)"
    by (cases "k = 0") (simp_all add: rounds_up_def shift_round_def Let_def f)
  ultimately show "f_round s m e = (if rounds_up m e v then f_pack s ((e + int k + 149) * 2 ^ 23 + m div 2 ^ k + 1) else v)"
    using \<open>0 < m\<close> assms(4) len by (auto simp: f_round_def Let_def max_def min_def v_def)
qed

text \<open>The same for a value the hardware has packed.\<close>

lemma packed_truncates:
  assumes "Float32 w = f_pack s ((e + int k + 149) * 2 ^ 23 + m div 2 ^ k)"
    and "2 ^ (23 + k) \<le> m" and "m < 2 ^ (24 + k)" and "-149 \<le> e + int k" and "e + int k + 150 \<le> 254"
  shows "truncates_to s m e (Float32 w)" and "f_round s m e = Float32 (if rounds_up m e (Float32 w) then w + 1 else w)"
  using f_round_truncated [OF assms(2-5), of s, folded assms(1)] f_pack_Suc [OF assms(1)] by (auto split: if_splits)

section \<open>The product\<close>

lemma unat_halves:
  "unat (mant_hi m) = unat m div 2 ^ 12" "unat (mant_lo m) = unat m mod 2 ^ 12"
  "unat (mant_hi m) < 2 ^ 12" "unat (mant_lo m) < 2 ^ 12"
proof -
  show hi: "unat (mant_hi m) = unat m div 2 ^ 12"
    unfolding mant_hi_def unat_drop_bit_eq by (simp add: drop_bit_eq_div)
  show lo: "unat (mant_lo m) = unat m mod 2 ^ 12"
    unfolding mant_lo_def unsigned_take_bit_eq by (simp add: take_bit_eq_mod)
  have "unat m < 2 ^ 24" using unsigned_less [of m, where ?'a = nat] by simp
  then show "unat (mant_hi m) < 2 ^ 12" unfolding hi by (simp add: less_mult_imp_div_less)
  show "unat (mant_lo m) < 2 ^ 12" unfolding lo by simp
qed

lemma unat_partial:
  fixes x y :: "24 word"
  assumes "unat x < 2 ^ 12" and "unat y < 2 ^ 12"
  shows "unat (x * y) = unat x * unat y"
proof -
  have "unat x * unat y \<le> (2 ^ 12 - 1) * (2 ^ 12 - 1)" using assms by (intro mult_le_mono) auto
  then show ?thesis by (simp add: unat_word_ariths)
qed

text \<open>The four partial products add up to the exact product.\<close>

lemma mul_product_exact:
  "unat (mul_product (mant_hi a * mant_hi b) (mant_hi a * mant_lo b) (mant_lo a * mant_hi b) (mant_lo a * mant_lo b))
     = unat a * unat b"
proof -
  have p: "ucast (x * y) = (of_nat (unat x * unat y) :: 48 word)" if "unat x < 2 ^ 12" "unat y < 2 ^ 12" for x y :: "24 word"
    by (simp only: unat_partial [OF that, symmetric] of_nat_unat)
  let ?ha = "unat (mant_hi a)" and ?la = "unat (mant_lo a)" and ?hb = "unat (mant_hi b)" and ?lb = "unat (mant_lo b)"
  have ab: "unat a = ?ha * 2 ^ 12 + ?la" "unat b = ?hb * 2 ^ 12 + ?lb" by (simp_all add: unat_halves)
  have "mul_product (mant_hi a * mant_hi b) (mant_hi a * mant_lo b) (mant_lo a * mant_hi b) (mant_lo a * mant_lo b)
      = of_nat (?ha * ?hb) * 2 ^ 24 + of_nat (?ha * ?lb) * 2 ^ 12 + of_nat (?la * ?hb) * 2 ^ 12 + of_nat (?la * ?lb)"
    unfolding mul_product_def push_bit_eq_mult by (simp only: p unat_halves(3,4))
  also have "\<dots> = of_nat ((?ha * 2 ^ 12 + ?la) * (?hb * 2 ^ 12 + ?lb))"
    by (simp add: algebra_simps)
  also have "\<dots> = of_nat (unat a * unat b)" by (simp only: ab [symmetric])
  finally have m: "mul_product (mant_hi a * mant_hi b) (mant_hi a * mant_lo b) (mant_lo a * mant_hi b) (mant_lo a * mant_lo b)
      = of_nat (unat a * unat b)" .
  have "unat a * unat b \<le> (2 ^ 24 - 1) * (2 ^ 24 - 1)"
    using unsigned_less [of a, where ?'a = nat] unsigned_less [of b, where ?'a = nat] by (intro mult_le_mono) simp_all
  then have "unat a * unat b < 2 ^ 48" by simp
  then show ?thesis unfolding m unat_of_nat by simp
qed

lemma unat_mul_exp:
  assumes "127 \<le> unat (fp_e a) + unat (fp_e b)"
  shows "unat (mul_exp a b) = unat (fp_e a) + unat (fp_e b) - 127"
proof -
  have e: "unat (ucast (fp_e w) :: 10 word) = unat (fp_e w)" "unat (fp_e w) < 256" for w
    using unsigned_less [of "fp_e w", where ?'a = nat] by (simp_all add: unsigned_ucast_eq take_bit_nat_eq_self)
  have s: "unat (ucast (fp_e a) + ucast (fp_e b) :: 10 word) = unat (fp_e a) + unat (fp_e b)"
    using e(2) [of a] e(2) [of b] by (simp only: unat_word_ariths e(1)) simp
  then have "(127 :: 10 word) \<le> ucast (fp_e a) + ucast (fp_e b)" using assms by (simp add: word_le_nat_alt)
  then show ?thesis unfolding mul_exp_def using s by (simp add: unat_sub)
qed

lemma uint_ucast_small: "unat w < 2 ^ LENGTH('b) \<Longrightarrow> uint (ucast w :: 'b::len word) = int (unat w)"
  by (simp only: uint_nat unsigned_ucast_eq) (simp add: take_bit_nat_eq_self)

text \<open>The low 23 bits of a shifted significand of 24 bits.\<close>

lemma uint_mant:
  fixes p :: "'a::len word"
  assumes "2 ^ 23 \<le> unat p div 2 ^ k" and "unat p div 2 ^ k < 2 ^ 24"
  shows "uint (ucast (drop_bit k p) :: 23 word) = int (unat p div 2 ^ k) - 2 ^ 23"
proof -
  have "unat (ucast (drop_bit k p) :: 23 word) = unat p div 2 ^ k mod 2 ^ 23"
    unfolding unsigned_ucast_eq unat_drop_bit_eq by (simp add: take_bit_eq_mod drop_bit_eq_div)
  also have "\<dots> = unat p div 2 ^ k - 2 ^ 23" using assms by (simp add: le_mod_geq)
  finally show ?thesis using assms(1) by (simp only: uint_nat of_nat_diff of_nat_power of_nat_numeral)
qed

lemma unat_fp_m_bounds: "2 ^ 23 \<le> unat (fp_m w)" "unat (fp_m w) < 2 ^ 24"
  by (simp_all add: unat_fp_m mod_less_divisor [of "8388608", THEN order_less_le_trans])

lemma fp_m_product_bounds: "2 ^ 46 \<le> unat (fp_m a) * unat (fp_m b)" "unat (fp_m a) * unat (fp_m b) < 2 ^ 48"
proof -
  have "(2 :: nat) ^ 23 * 2 ^ 23 \<le> unat (fp_m a) * unat (fp_m b)"
    by (intro mult_le_mono unat_fp_m_bounds)
  then show "2 ^ 46 \<le> unat (fp_m a) * unat (fp_m b)" by simp
  have "unat (fp_m a) * unat (fp_m b) \<le> (2 ^ 24 - 1) * (2 ^ 24 - 1)"
    using unat_fp_m_bounds(2) [of a] unat_fp_m_bounds(2) [of b] by (intro mult_le_mono) auto
  then show "unat (fp_m a) * unat (fp_m b) < 2 ^ 48" by simp
qed

text \<open>The packed product is the exact product truncated to 24 bits.\<close>

lemma mul_pack_truncates:
  fixes a b :: u32 and p :: "48 word"
  defines "E \<equiv> unat (fp_e a) + unat (fp_e b)"
  assumes p: "unat p = unat (fp_m a) * unat (fp_m b)" and E: "128 \<le> E" "E \<le> 380"
    and k: "k = (if 2 ^ 47 \<le> unat p then 24 else 23)"
  shows "Float32 (mul_pack False s (mul_exp a b) p)
    = f_pack s ((int E - 300 + int k + 149) * 2 ^ 23 + int (unat p) div 2 ^ k)"
    and "2 ^ (23 + k) \<le> unat p" and "unat p < 2 ^ (24 + k)"
proof -
  have P: "2 ^ 46 \<le> unat p" "unat p < 2 ^ 48" using fp_m_product_bounds [of a b] p by simp_all
  show B: "2 ^ (23 + k) \<le> unat p" "unat p < 2 ^ (24 + k)" using P k by (auto split: if_splits)
  have top: "bit p 47 \<longleftrightarrow> k = 24" using bit_top [of p 47] P k by simp
  have "unat (mul_exp a b) = E - 127" using unat_mul_exp [of a b] E by (simp add: E_def)
  then have er: "unat (if bit p 47 then mul_exp a b + 1 else mul_exp a b) = E + k - 150" (is "unat ?er = _")
    using top k E by (auto simp: unat_word_ariths split: if_splits)
  then have small: "unat ?er < 2 ^ 8" "?er \<noteq> 0" "\<not> bit ?er 9" "\<not> ?er > 254"
    using E k by (auto intro!: not_bit_small simp: word_less_nat_alt word_unat_eq_iff split: if_splits)
  have q: "2 ^ 23 \<le> unat p div 2 ^ k" "unat p div 2 ^ k < 2 ^ 24"
    using B by (simp_all add: less_eq_div_iff_mult_less_eq div_less_iff_less_mult power_add)
  have "p \<noteq> 0" using P(1) by auto
  then have "mul_pack False s (mul_exp a b) p = fp_pack s (ucast ?er) (ucast (drop_bit k p))"
    using small(2-4) top k by (auto simp: mul_pack_def Let_def)
  also have "Float32 \<dots> = f_pack s (int (unat ?er) * 2 ^ 23 + (int (unat p div 2 ^ k) - 2 ^ 23))"
    using uint_mant [OF q] uint_ucast_small [of ?er, where 'b = 8] small(1) by (simp only: fp_pack_f_pack) simp
  also have "int (unat ?er) * 2 ^ 23 + (int (unat p div 2 ^ k) - 2 ^ 23)
      = (int E - 300 + int k + 149) * 2 ^ 23 + int (unat p) div 2 ^ k"
    using er E k by (simp add: zdiv_int of_nat_diff)
  finally show "Float32 (mul_pack False s (mul_exp a b) p)
    = f_pack s ((int E - 300 + int k + 149) * 2 ^ 23 + int (unat p) div 2 ^ k)" .
qed

text \<open>Edges at which the pipeline moves.\<close>

fun mul_moves :: "fu_in list \<Rightarrow> mul_regs \<Rightarrow> bool" where
  "mul_moves [] r = True"
| "mul_moves (j # js) r = (\<not> f_flush j \<and> mul_advance j r \<and> mul_moves js (fp_mul_clock j r))"

lemma mul_stages:
  assumes "\<not> f_flush j" and "mul_advance j r"
  shows "m1_valid (fp_mul_clock j r) = f_valid j" "m1_zero (fp_mul_clock j r) = (fp_e (f_rs1 j) = 0 \<or> fp_e (f_rs2 j) = 0)"
    "m1_sign (fp_mul_clock j r) = (fp_s (f_rs1 j) \<noteq> fp_s (f_rs2 j))" "m1_tag (fp_mul_clock j r) = f_tag j"
    "m1_exp (fp_mul_clock j r) = mul_exp (f_rs1 j) (f_rs2 j)"
    "m1_hh (fp_mul_clock j r) = mant_hi (fp_m (f_rs1 j)) * mant_hi (fp_m (f_rs2 j))"
    "m1_hl (fp_mul_clock j r) = mant_hi (fp_m (f_rs1 j)) * mant_lo (fp_m (f_rs2 j))"
    "m1_lh (fp_mul_clock j r) = mant_lo (fp_m (f_rs1 j)) * mant_hi (fp_m (f_rs2 j))"
    "m1_ll (fp_mul_clock j r) = mant_lo (fp_m (f_rs1 j)) * mant_lo (fp_m (f_rs2 j))"
    "m2_valid (fp_mul_clock j r) = m1_valid r" "m2_zero (fp_mul_clock j r) = m1_zero r"
    "m2_sign (fp_mul_clock j r) = m1_sign r" "m2_tag (fp_mul_clock j r) = m1_tag r" "m2_exp (fp_mul_clock j r) = m1_exp r"
    "m2_product (fp_mul_clock j r) = mul_product (m1_hh r) (m1_hl r) (m1_lh r) (m1_ll r)"
    "m3_valid (fp_mul_clock j r) = m2_valid r" "m3_tag (fp_mul_clock j r) = m2_tag r"
    "m3_result (fp_mul_clock j r) = mul_pack (m2_zero r) (m2_sign r) (m2_exp r) (m2_product r)"
    "m4_valid (fp_mul_clock j r) = m3_valid r" "m4_tag (fp_mul_clock j r) = m3_tag r"
    "m4_result (fp_mul_clock j r) = m3_result r"
  using assms by (simp_all add: fp_mul_clock_def Let_def)

lemma mul_pipeline:
  assumes "mul_moves [i, j1, j2, j3] r0" and "f_valid i" and "fp_e (f_rs1 i) \<noteq> 0" and "fp_e (f_rs2 i) \<noteq> 0"
  shows "mul_out (fold fp_mul_clock [i, j1, j2, j3] r0) =
    Some (f_tag i, mul_pack False (fp_s (f_rs1 i) \<noteq> fp_s (f_rs2 i)) (mul_exp (f_rs1 i) (f_rs2 i))
      (mul_product (mant_hi (fp_m (f_rs1 i)) * mant_hi (fp_m (f_rs2 i))) (mant_hi (fp_m (f_rs1 i)) * mant_lo (fp_m (f_rs2 i)))
        (mant_lo (fp_m (f_rs1 i)) * mant_hi (fp_m (f_rs2 i))) (mant_lo (fp_m (f_rs1 i)) * mant_lo (fp_m (f_rs2 i)))))"
  using assms by (simp add: mul_stages mul_out_def)

lemma float_mul_normal:
  assumes "fp_e a \<noteq> 0" "fp_e b \<noteq> 0" "fp_e a \<noteq> 255" "fp_e b \<noteq> 255"
  shows "float_mul fe (Float32 a) (Float32 b) = f_round (fp_s a \<noteq> fp_s b) (int (unat (fp_m a) * unat (fp_m b)))
    (int (unat (fp_e a) + unat (fp_e b)) - 300)"
proof -
  have "f_exp (Float32 w) \<noteq> 0" "f_exp (Float32 w) \<noteq> 255" if "fp_e w \<noteq> 0" "fp_e w \<noteq> 255" for w
    using that by (simp_all add: f_exp_fp_e word_uint_eq_iff)
  then have "f_exp (Float32 a) \<noteq> 0" "f_exp (Float32 a) \<noteq> 255" "f_exp (Float32 b) \<noteq> 0" "f_exp (Float32 b) \<noteq> 255"
    using assms by auto
  then show ?thesis
    using assms(1,2) by (simp add: float_mul_def Let_def f_is_nan_def f_is_inf_def f_scale_def f_mant_fp_m f_sign_fp_s f_exp_fp_e algebra_simps)
qed

text \<open>C23. A multiplication of normal numbers whose biased exponents add up to 128 to 380 (so that the product is
  a normal number before rounding) is offered on the bus after the pipeline has moved four times without a flush,
  under the tag of the instruction. The value is the exact product with the bits past the 24th dropped; the
  simulator's product is the same number where those bits are below half a unit in the last place, or half a unit
  behind an even significand, and its successor otherwise.\<close>

theorem fp_mul_truncates:
  assumes "mul_moves [i, j1, j2, j3] r0" and "f_valid i"
    and "f_exp (Float32 (f_rs1 i)) \<in> {1..254}" and "f_exp (Float32 (f_rs2 i)) \<in> {1..254}"
    and "f_exp (Float32 (f_rs1 i)) + f_exp (Float32 (f_rs2 i)) \<in> {128..380}"
  shows "\<exists>v. mul_out (fold fp_mul_clock [i, j1, j2, j3] r0) = Some (f_tag i, v) \<and>
    (let a = Float32 (f_rs1 i); b = Float32 (f_rs2 i); m = f_mant a * f_mant b; e = f_scale a + f_scale b in
      truncates_to (f_sign a \<noteq> f_sign b) m e (Float32 v) \<and>
      float_mul fe a b = Float32 (if rounds_up m e (Float32 v) then v + 1 else v))"
proof -
  let ?a = "f_rs1 i" and ?b = "f_rs2 i"
  let ?p = "mul_product (mant_hi (fp_m ?a) * mant_hi (fp_m ?b)) (mant_hi (fp_m ?a) * mant_lo (fp_m ?b))
        (mant_lo (fp_m ?a) * mant_hi (fp_m ?b)) (mant_lo (fp_m ?a) * mant_lo (fp_m ?b))"
  let ?s = "fp_s ?a \<noteq> fp_s ?b" and ?E = "unat (fp_e ?a) + unat (fp_e ?b)"
  define k :: nat where "k = (if 2 ^ 47 \<le> unat ?p then 24 else 23)"
  have e: "fp_e ?a \<noteq> 0" "fp_e ?b \<noteq> 0" "fp_e ?a \<noteq> 255" "fp_e ?b \<noteq> 255"
    using assms(3,4) by (auto simp: f_exp_fp_e)
  have E: "128 \<le> ?E" "?E \<le> 380" using assms(5) unfolding f_exp_fp_e atLeastAtMost_iff by linarith+
  have k: "k = 23 \<or> k = 24" by (simp add: k_def)
  note px = mul_product_exact [of "fp_m ?a" "fp_m ?b"]
  note t = mul_pack_truncates [OF px E k_def]
  have m: "f_mant (Float32 ?a) * f_mant (Float32 ?b) = int (unat ?p)"
    and sc: "f_scale (Float32 ?a) + f_scale (Float32 ?b) = int ?E - 300"
    using e(1,2) by (simp_all add: f_mant_fp_m px float_scale_normal)
  have "(2 :: int) ^ (23 + k) \<le> int (unat ?p)" "int (unat ?p) < 2 ^ (24 + k)"
    using t(2,3) by (simp_all only: int_pow_le int_pow_gt)
  moreover have "- 149 \<le> int ?E - 300 + int k" "int ?E - 300 + int k + 150 \<le> 254"
    using E k by linarith+
  ultimately have tr: "truncates_to ?s (int (unat ?p)) (int ?E - 300) (Float32 w)"
    "f_round ?s (int (unat ?p)) (int ?E - 300) = Float32 (if rounds_up (int (unat ?p)) (int ?E - 300) (Float32 w) then w + 1 else w)"
    if "w = mul_pack False ?s (mul_exp ?a ?b) ?p" for w
    using packed_truncates [OF t(1) [of ?s]] unfolding that by blast+
  have "float_mul fe (Float32 ?a) (Float32 ?b) = f_round ?s (int (unat ?p)) (int ?E - 300)"
    using float_mul_normal [OF e] px by simp
  then show ?thesis
    unfolding Let_def m sc f_sign_fp_s using tr [OF refl] mul_pipeline [OF assms(1,2) e(1,2)] by metis
qed

text \<open>0.1 times 0.1, by an otherwise empty pipeline: here the simulator rounds up.\<close>

definition mul_sample :: fu_in where
  "mul_sample = \<lparr>f_flush = False, f_valid = True, f_op = OP_FMUL_S, f_tag = 9, f_rs1 = 0x3DCCCCCD, f_rs2 = 0x3DCCCCCD,
     f_grant = False\<rparr>"

theorem fp_mul_truncates_witness:
  "mul_moves [mul_sample, mul_sample, mul_sample, mul_sample] mul_reset \<and>
   (\<exists>v. mul_out (fold fp_mul_clock [mul_sample, mul_sample, mul_sample, mul_sample] mul_reset) = Some (9, v) \<and>
     v = 0x3C23D70A \<and> truncates_to False (0xCCCCCD * 0xCCCCCD) (-54) (Float32 v) \<and>
     float_mul x86_env (Float32 0x3DCCCCCD) (Float32 0x3DCCCCCD) = Float32 (v + 1))"
proof -
  have m: "mul_moves [mul_sample, mul_sample, mul_sample, mul_sample] mul_reset" by code_simp
  have o: "mul_out (fold fp_mul_clock [mul_sample, mul_sample, mul_sample, mul_sample] mul_reset) = Some (9, 0x3C23D70A)"
    by code_simp
  have "f_exp (Float32 0x3DCCCCCD) = 123" "f_mant (Float32 0x3DCCCCCD) = 0xCCCCCD" "f_scale (Float32 0x3DCCCCCD) = -27"
    "rounds_up (0xCCCCCD * 0xCCCCCD) (-54) (Float32 0x3C23D70A)" by code_simp+
  then show ?thesis
    using fp_mul_truncates [OF m, of x86_env] m o by (simp add: mul_sample_def Let_def del: mul_moves.simps fold_simps)
qed

section \<open>The sum of numbers of equal sign\<close>

text \<open>The aligned sum and the packing of \<open>fp_add_core\<close>, when the signs agree.\<close>

definition aligned_sum :: "24 word \<Rightarrow> 24 word \<Rightarrow> 8 word \<Rightarrow> 27 word" where
  "aligned_sum ma mb d = ucast (push_bit 2 (ucast ma) :: 26 word) +
     ucast ((if d > 25 then 0 else drop_bit (unat (take_bit 5 d)) (push_bit 2 (ucast mb))) :: 26 word)"

definition sum_pack :: "bool \<Rightarrow> 8 word \<Rightarrow> 27 word \<Rightarrow> u32" where
  "sum_pack sr e s =
     (if s = 0 then 0
      else if bit s 26 then fp_pack sr (e + 1) (ucast (drop_bit 3 s))
      else let sh = 25 - of_nat (last_set 26 s) :: 8 word; norm = push_bit (unat (take_bit 5 sh)) (ucast s) :: 26 word in
        if e > sh then fp_pack sr (e - sh) (ucast (drop_bit 2 norm)) else 0)"

lemma fp_add_core_same_sign:
  assumes "fp_e a \<noteq> 0" and "fp_e b \<noteq> 0" and "fp_s a = (fp_s b \<noteq> sub)"
  shows "fp_add_core a b sub =
    (if fp_e b > fp_e a then sum_pack (fp_s a) (fp_e b) (aligned_sum (fp_m b) (fp_m a) (fp_e b - fp_e a))
     else sum_pack (fp_s a) (fp_e a) (aligned_sum (fp_m a) (fp_m b) (fp_e a - fp_e b)))"
  using assms by (simp add: fp_add_core_def Let_def sum_pack_def aligned_sum_def)

lemma unat_guarded: "unat (push_bit 2 (ucast m) :: 26 word) = 4 * unat m" for m :: "24 word"
proof -
  have "unat m < 2 ^ 24" using unsigned_less [of m, where ?'a = nat] by simp
  moreover have "unat (ucast m :: 26 word) = unat m"
    using calculation by (simp add: unsigned_ucast_eq take_bit_nat_eq_self)
  ultimately show ?thesis by (simp only: push_bit_eq_mult unat_word_ariths) simp
qed

lemma unat_aligned_sum: "unat (aligned_sum ma mb d) = 4 * unat ma + 4 * unat mb div 2 ^ unat d"
proof -
  let ?xb = "(if d > 25 then 0 else drop_bit (unat (take_bit 5 d)) (push_bit 2 (ucast mb))) :: 26 word"
  have b: "unat ma < 2 ^ 24" "unat mb < 2 ^ 24"
    using unsigned_less [of ma, where ?'a = nat] unsigned_less [of mb, where ?'a = nat] by simp_all
  have xb: "unat ?xb = 4 * unat mb div 2 ^ unat d"
  proof (cases "d > 25")
    case True
    then have "26 \<le> unat d" by (simp add: word_less_nat_alt)
    then have "(2 :: nat) ^ 26 \<le> 2 ^ unat d" by (intro power_increasing) auto
    then have "4 * unat mb div 2 ^ unat d = 0" using b(2) by (intro div_less) simp
    then show ?thesis using True by simp
  next
    case False
    then have "unat d < 32" by (simp add: word_less_nat_alt)
    then have "unat (take_bit 5 d) = unat d" by (simp add: unsigned_take_bit_eq take_bit_nat_eq_self)
    moreover have "unat (drop_bit n (push_bit 2 (ucast mb) :: 26 word)) = 4 * unat mb div 2 ^ n" for n
      unfolding unat_drop_bit_eq unat_guarded by (simp add: drop_bit_eq_div)
    ultimately show ?thesis using False by simp
  qed
  have "4 * unat ma + x < 2 ^ 27" if "x \<le> 4 * unat mb" for x using b that by simp
  then have s: "4 * unat ma + 4 * unat mb div 2 ^ unat d < 2 ^ 27" by (simp only: div_le_dividend)
  have up: "unat (ucast w :: 27 word) = unat w" for w :: "26 word"
    using unsigned_less [of w, where ?'a = nat] by (simp add: unsigned_ucast_eq take_bit_nat_eq_self)
  show ?thesis using s by (simp only: aligned_sum_def unat_word_ariths up unat_guarded xb) simp
qed

text \<open>The sum is the exact sum of the significands, scaled by two guard bits and truncated there.\<close>

lemma aligned_sum_exact: "unat (aligned_sum ma mb d) = 4 * (unat ma * 2 ^ unat d + unat mb) div 2 ^ unat d"
proof -
  have "4 * (unat ma * 2 ^ unat d + unat mb) = 4 * unat ma * 2 ^ unat d + 4 * unat mb" by (simp add: algebra_simps)
  also have "\<dots> div 2 ^ unat d = 4 * unat ma + 4 * unat mb div 2 ^ unat d" by simp
  finally show ?thesis by (simp only: unat_aligned_sum)
qed

lemma last_set_top: "bit w n \<Longrightarrow> last_set (Suc n) w = n"
  by (simp add: last_set_def)

lemma sum_pack_truncates:
  assumes "2 ^ 25 \<le> unat w" and "unat w < 2 ^ 27" and "e \<noteq> 0" and "unat e \<le> 253"
  shows "Float32 (sum_pack s e w) = f_pack s (if 2 ^ 26 \<le> unat w then int (unat e) * 2 ^ 23 + int (unat w div 8)
    else (int (unat e) - 1) * 2 ^ 23 + int (unat w div 4))"
proof -
  have nz: "w \<noteq> 0" using assms(1) by auto
  have top: "bit w 26 \<longleftrightarrow> 2 ^ 26 \<le> unat w" using assms(2) by (intro bit_top) simp
  show ?thesis
  proof (cases "2 ^ 26 \<le> unat w")
    case True
    have q: "2 ^ 23 \<le> unat w div 2 ^ 3" "unat w div 2 ^ 3 < 2 ^ 24"
      using True assms(2) by (simp_all add: less_eq_div_iff_mult_less_eq div_less_iff_less_mult)
    have "unat (e + 1) = unat e + 1" using assms(4) by (simp add: unat_word_ariths)
    then have "uint (e + 1) = int (unat e) + 1" by (simp only: uint_nat of_nat_add of_nat_1)
    then show ?thesis using nz top True uint_mant [OF q] by (simp add: sum_pack_def fp_pack_f_pack)
  next
    case False
    have "bit w 25" using bit_top [of w 25] False assms(1) by simp
    then have ls: "last_set 26 w = 25" using last_set_top [of w 25] by simp
    have low: "unat (ucast w :: 26 word) = unat w" using False by (simp add: unsigned_ucast_eq take_bit_nat_eq_self)
    have q: "2 ^ 23 \<le> unat (ucast w :: 26 word) div 2 ^ 2" "unat (ucast w :: 26 word) div 2 ^ 2 < 2 ^ 24"
      unfolding low using False assms(1) by (simp_all add: less_eq_div_iff_mult_less_eq div_less_iff_less_mult)
    have "e > 0" using assms(3) by (simp add: word_neq_0_conv)
    then have "Float32 (sum_pack s e w) = f_pack s (uint e * 2 ^ 23 + uint (ucast (drop_bit 2 (ucast w :: 26 word)) :: 23 word))"
      using nz top False ls by (simp add: sum_pack_def fp_pack_f_pack Let_def)
    also have "uint e * 2 ^ 23 + uint (ucast (drop_bit 2 (ucast w :: 26 word)) :: 23 word)
        = (int (unat e) - 1) * 2 ^ 23 + int (unat w div 4)"
      using uint_mant [OF q] low by simp
    finally show ?thesis using False by simp
  qed
qed

lemma signed_cases: "0 < n \<Longrightarrow> v = (if s then - int n else int n) \<Longrightarrow> v \<noteq> 0 \<and> (v < 0) = s \<and> \<bar>v\<bar> = int n"
  by auto

lemma f_add_finite:
  assumes "f_exp a \<noteq> 255" and "f_exp b \<noteq> 255"
  shows "f_add fe op a b c = (let e = min (f_scale a) (f_scale b);
      v = f_signed_mant a * 2 ^ nat (f_scale a - e) + f_signed_mant b * 2 ^ nat (f_scale b - e)
    in if v = 0 then f_pack (f_sign a \<and> f_sign b) 0 else f_round (v < 0) \<bar>v\<bar> e)"
  using assms by (simp only: f_add_def f_is_nan_def f_is_inf_def simp_thms if_False)

text \<open>Both operands normal, \<open>a\<close> with the larger exponent: the simulator's sum of equal signs.\<close>

lemma f_add_same_sign:
  assumes "fp_e a \<noteq> 0" "fp_e b \<noteq> 0" "fp_e a \<noteq> 255" "fp_e b \<noteq> 255" "fp_s a = fp_s b" "fp_e b \<le> fp_e a"
  shows "f_add fe op (Float32 a) (Float32 b) c = f_round (fp_s a)
      (int (unat (fp_m a) * 2 ^ unat (fp_e a - fp_e b) + unat (fp_m b))) (int (unat (fp_e b)) - 150)"
    and "f_add fe op (Float32 b) (Float32 a) c = f_round (fp_s a)
      (int (unat (fp_m a) * 2 ^ unat (fp_e a - fp_e b) + unat (fp_m b))) (int (unat (fp_e b)) - 150)"
proof -
  have e: "f_exp (Float32 a) \<noteq> 255" "f_exp (Float32 b) \<noteq> 255"
    using assms(3,4) by (simp_all add: f_exp_fp_e word_uint_eq_iff)
  have le: "unat (fp_e b) \<le> unat (fp_e a)" using assms(6) by (simp add: word_le_nat_alt)
  have d: "nat (int (unat (fp_e a)) - 150 - (int (unat (fp_e b)) - 150)) = unat (fp_e a - fp_e b)"
    using assms(6) le by (simp only: unat_sub)
  let ?M = "unat (fp_m a) * 2 ^ unat (fp_e a - fp_e b) + unat (fp_m b)"
  have M: "0 < ?M" using unat_fp_m_bounds(1) [of b] by simp
  define sm where "sm w = (if fp_s a then - int (unat (fp_m w)) else int (unat (fp_m w)))" for w
  have sm: "f_signed_mant (Float32 a) = sm a" "f_signed_mant (Float32 b) = sm b"
    using assms(1,2,5) by (simp_all add: f_signed_mant_def f_mant_fp_m f_sign_fp_s sm_def)
  have v: "sm a * 2 ^ unat (fp_e a - fp_e b) + sm b = (if fp_s a then - int ?M else int ?M)"
    by (simp add: sm_def)
  have le': "int (unat (fp_e b)) - 150 \<le> int (unat (fp_e a)) - 150" using le by linarith
  have m: "min (int (unat (fp_e a)) - 150) (int (unat (fp_e b)) - 150) = int (unat (fp_e b)) - 150"
    "min (int (unat (fp_e b)) - 150) (int (unat (fp_e a)) - 150) = int (unat (fp_e b)) - 150"
    using le' by (simp_all only: min.absorb1 min.absorb2)
  define V where "V = (if fp_s a then - int ?M else int ?M)"
  have V: "V \<noteq> 0" "(V < 0) = fp_s a" "\<bar>V\<bar> = int ?M" using signed_cases [OF M V_def] by blast+
  have v1: "sm a * 2 ^ unat (fp_e a - fp_e b) + sm b * 2 ^ nat 0 = V" using v by (simp add: V_def)
  have v2: "sm b * 2 ^ nat 0 + sm a * 2 ^ unat (fp_e a - fp_e b) = V" using v1 by (simp only: add.commute)
  note scales = float_scale_normal [OF assms(1)] float_scale_normal [OF assms(2)]
  show "f_add fe op (Float32 a) (Float32 b) c = f_round (fp_s a) (int ?M) (int (unat (fp_e b)) - 150)"
    unfolding f_add_finite [OF e] scales sm m d Let_def diff_self v1 using V by simp
  show "f_add fe op (Float32 b) (Float32 a) c = f_round (fp_s a) (int ?M) (int (unat (fp_e b)) - 150)"
    unfolding f_add_finite [OF e(2,1)] scales sm m d Let_def diff_self v2 using V by simp
qed

text \<open>The hardware's sum, \<open>a\<close> with the larger exponent, against the rounding of the exact sum.\<close>

lemma sum_truncates:
  fixes a b :: u32
  defines "d \<equiv> fp_e a - fp_e b" and "w \<equiv> aligned_sum (fp_m a) (fp_m b) (fp_e a - fp_e b)"
  defines "M \<equiv> unat (fp_m a) * 2 ^ unat d + unat (fp_m b)"
  assumes "fp_e b \<noteq> 0" and "fp_e b \<le> fp_e a" and "unat (fp_e a) \<le> 253"
  shows "truncates_to s (int M) (int (unat (fp_e b)) - 150) (Float32 (sum_pack s (fp_e a) w))"
    and "f_round s (int M) (int (unat (fp_e b)) - 150) = Float32
      (if rounds_up (int M) (int (unat (fp_e b)) - 150) (Float32 (sum_pack s (fp_e a) w)) then sum_pack s (fp_e a) w + 1
       else sum_pack s (fp_e a) w)"
proof -
  let ?n = "unat d"
  define k where "k = (if 2 ^ 26 \<le> unat w then ?n + 1 else ?n)"
  have w: "unat w = 4 * M div 2 ^ ?n" by (simp add: w_def M_def d_def aligned_sum_exact)
  have w2: "unat w = 4 * unat (fp_m a) + 4 * unat (fp_m b) div 2 ^ ?n" by (simp add: w_def d_def unat_aligned_sum)
  have ea: "unat (fp_e a) = unat (fp_e b) + ?n" using assms(5) by (simp add: d_def unat_sub word_le_nat_alt)
  have ea0: "fp_e a \<noteq> 0" using assms(4,5) by auto
  have "2 ^ 25 \<le> 4 * unat (fp_m a) + x \<and> 4 * unat (fp_m a) + x < 2 ^ 27" if "x \<le> 4 * unat (fp_m b)" for x
    using unat_fp_m_bounds [of a] unat_fp_m_bounds(2) [of b] that by simp
  then have W: "2 ^ 25 \<le> unat w" "unat w < 2 ^ 27" unfolding w2 by (simp_all only: div_le_dividend)
  note t = sum_pack_truncates [OF W ea0 assms(6), of s]
  have up: "2 ^ c \<le> unat w \<longleftrightarrow> 2 ^ (c + ?n) \<le> 4 * M" for c
    unfolding w by (simp add: less_eq_div_iff_mult_less_eq power_add)
  have M: "2 ^ (23 + k) \<le> M" "M < 2 ^ (24 + k)"
    using W up [of 25] up [of 26] up [of 27] by (auto simp: k_def power_add split: if_splits)
  have M': "(2 :: int) ^ (23 + k) \<le> int M" "int M < 2 ^ (24 + k)"
    using M by (simp_all only: int_pow_le int_pow_gt)
  have "(int (unat (fp_e b)) - 150 + int k + 149) * 2 ^ 23 + int M div 2 ^ k
      = (if 2 ^ 26 \<le> unat w then int (unat (fp_e a)) * 2 ^ 23 + int (unat w div 8)
         else (int (unat (fp_e a)) - 1) * 2 ^ 23 + int (unat w div 4))"
  proof -
    have "4 * M div 2 ^ ?n div 4 = M div 2 ^ ?n" "4 * M div 2 ^ ?n div 8 = M div 2 ^ (?n + 1)"
      by (simp_all flip: div_mult2_eq add: mult.commute [of "2 ^ ?n"] div_mult_mult1 [of 4 M "2 ^ ?n"])
    then have "M div 2 ^ k = (if 2 ^ 26 \<le> unat w then unat w div 8 else unat w div 4)"
      unfolding w k_def by auto
    moreover have "int M div 2 ^ k = int (M div 2 ^ k)" by (simp add: zdiv_int)
    ultimately have "int M div 2 ^ k = int (if 2 ^ 26 \<le> unat w then unat w div 8 else unat w div 4)" by (simp only:)
    then show ?thesis by (simp add: k_def ea algebra_simps)
  qed
  then have "Float32 (sum_pack s (fp_e a) w)
      = f_pack s ((int (unat (fp_e b)) - 150 + int k + 149) * 2 ^ 23 + int M div 2 ^ k)"
    using t by (simp only:)
  note hw = this
  have eb: "0 < unat (fp_e b)" using assms(4) by (simp add: unat_gt_0)
  have k: "k = ?n \<or> k = ?n + 1" by (simp add: k_def)
  have "- 149 \<le> int (unat (fp_e b)) - 150 + int k" "int (unat (fp_e b)) - 150 + int k + 150 \<le> 254"
    using eb k assms(6) ea by linarith+
  from packed_truncates [OF hw M' this]
  show "truncates_to s (int M) (int (unat (fp_e b)) - 150) (Float32 (sum_pack s (fp_e a) w))"
    and "f_round s (int M) (int (unat (fp_e b)) - 150) = Float32
      (if rounds_up (int M) (int (unat (fp_e b)) - 150) (Float32 (sum_pack s (fp_e a) w)) then sum_pack s (fp_e a) w + 1
       else sum_pack s (fp_e a) w)" .
qed

text \<open>Edges at which a two-stage pipeline moves.\<close>

lemma add_pipeline:
  assumes "\<not> f_flush i" "\<not> f_flush j" "pipe2_advance i p" "pipe2_advance j (fp_add_clock i p)" "f_valid i"
  shows "pipe2_out (fp_add_clock j (fp_add_clock i p)) =
    Some (f_tag i, fp_add_core (f_rs1 i) (f_rs2 i) (f_op i = OP_FSUB_S))"
  using assms by (simp add: fp_add_clock_def pipe2_clock_def pipe2_out_def)

lemma f_neg_fields: "fp_s (w + 2 ^ 31) = (\<not> fp_s w)" "fp_e (w + 2 ^ 31) = fp_e w" "fp_m (w + 2 ^ 31) = fp_m w"
proof -
  have low: "take_bit n (w + 2 ^ 31) = take_bit n w" if "n \<le> 31" for n
  proof -
    have d: "(2 :: nat) ^ n dvd 2 ^ 31" "(2 :: nat) ^ n dvd 2 ^ 32"
      using that by (auto intro: le_imp_power_dvd simp del: power_numeral)
    have tb: "unat (take_bit n v) = unat v mod 2 ^ n" for v :: u32
      unfolding unsigned_take_bit_eq by (simp only: take_bit_eq_mod)
    have "unat (take_bit n (w + 2 ^ 31)) = (unat w + 2 ^ 31) mod 2 ^ 32 mod 2 ^ n"
      unfolding tb by (simp add: unat_word_ariths)
    also have "\<dots> = (unat w + 2 ^ 31) mod 2 ^ n" using d(2) by (rule mod_mod_cancel)
    also have "\<dots> = unat w mod 2 ^ n" using d(1) by (metis add.right_neutral dvd_eq_mod_eq_0 mod_add_right_eq)
    also have "\<dots> = unat (take_bit n w)" by (simp only: tb)
    finally show ?thesis by (simp only: word_unat_eq_iff)
  qed
  have "bit (w + 2 ^ 31) m = bit w m" if "m < 31" for m
    using low [of 31] that by (metis bit_take_bit_iff order_refl)
  then show "fp_e (w + 2 ^ 31) = fp_e w"
    unfolding fp_e_def by (intro bit_word_eqI) (simp only: bit_ucast_iff bit_drop_bit_eq comp_def, simp)
  show "fp_m (w + 2 ^ 31) = fp_m w" using low [of 23] by (simp add: fp_m_def)
  have b: "unat v < 2 ^ Suc 31" for v :: u32 using unsigned_less [of v, where ?'a = nat] by simp
  have "unat (w + 2 ^ 31) = (unat w + 2 ^ 31) mod 2 ^ 32" by (simp add: unat_word_ariths)
  also have "\<dots> = (if unat w < 2 ^ 31 then unat w + 2 ^ 31 else unat w - 2 ^ 31)"
    using b [of w] by (auto simp: mod_if)
  finally show "fp_s (w + 2 ^ 31) = (\<not> fp_s w)"
    using b [of w] by (simp only: fp_s_def bit_top [OF b]) auto
qed

text \<open>The exact sum of two numbers of one sign, at the smaller of their scales.\<close>

definition sum_scale :: "float32 \<Rightarrow> float32 \<Rightarrow> int" where
  "sum_scale a b = min (f_scale a) (f_scale b)"

definition sum_mant :: "float32 \<Rightarrow> float32 \<Rightarrow> int" where
  "sum_mant a b = f_mant a * 2 ^ nat (f_scale a - sum_scale a b) + f_mant b * 2 ^ nat (f_scale b - sum_scale a b)"

lemma sum_mant_normal:
  assumes "fp_e a \<noteq> 0" "fp_e b \<noteq> 0" "fp_e b \<le> fp_e a"
  shows "sum_scale (Float32 a) (Float32 b) = int (unat (fp_e b)) - 150"
    and "sum_scale (Float32 b) (Float32 a) = int (unat (fp_e b)) - 150"
    and "sum_mant (Float32 a) (Float32 b) = int (unat (fp_m a) * 2 ^ unat (fp_e a - fp_e b) + unat (fp_m b))"
    and "sum_mant (Float32 b) (Float32 a) = int (unat (fp_m a) * 2 ^ unat (fp_e a - fp_e b) + unat (fp_m b))"
proof -
  have le: "unat (fp_e b) \<le> unat (fp_e a)" using assms(3) by (simp add: word_le_nat_alt)
  show sc: "sum_scale (Float32 a) (Float32 b) = int (unat (fp_e b)) - 150"
    "sum_scale (Float32 b) (Float32 a) = int (unat (fp_e b)) - 150"
    using le by (simp_all only: sum_scale_def float_scale_normal [OF assms(1)] float_scale_normal [OF assms(2)])
  have d: "nat (int (unat (fp_e a)) - 150 - (int (unat (fp_e b)) - 150)) = unat (fp_e a - fp_e b)"
    using assms(3) le by (simp only: unat_sub)
  show "sum_mant (Float32 a) (Float32 b) = int (unat (fp_m a) * 2 ^ unat (fp_e a - fp_e b) + unat (fp_m b))"
    "sum_mant (Float32 b) (Float32 a) = int (unat (fp_m a) * 2 ^ unat (fp_e a - fp_e b) + unat (fp_m b))"
    unfolding sum_mant_def sc float_scale_normal [OF assms(1)] float_scale_normal [OF assms(2)] d
      f_mant_fp_m [OF assms(1)] f_mant_fp_m [OF assms(2)] by simp_all
qed

text \<open>C24. A sum of two normal numbers of one sign, by \<open>FADD.S\<close> or by \<open>FSUB.S\<close> with opposite signs, with biased
  exponents up to 253 (above that the carry makes a NaN) is offered after the pipeline has moved twice without a
  flush, under the tag of the instruction. The value is the exact sum with the bits past the 24th dropped, so the
  two guard bits lose nothing; the simulator's sum is the same number where the dropped bits are below half a unit
  in the last place, or half a unit behind an even significand, and its successor otherwise.\<close>

theorem fp_add_truncates:
  assumes "\<not> f_flush i" "\<not> f_flush j" "pipe2_advance i p" "pipe2_advance j (fp_add_clock i p)" "f_valid i"
    and "f_exp (Float32 (f_rs1 i)) \<in> {1..253}" and "f_exp (Float32 (f_rs2 i)) \<in> {1..253}"
    and "f_sign (Float32 (f_rs1 i)) = (f_sign (Float32 (f_rs2 i)) \<noteq> (f_op i = OP_FSUB_S))"
  shows "\<exists>v. pipe2_out (fp_add_clock j (fp_add_clock i p)) = Some (f_tag i, v) \<and>
    (let a = Float32 (f_rs1 i); b = Float32 (f_rs2 i); m = sum_mant a b; e = sum_scale a b in
      truncates_to (f_sign a) m e (Float32 v) \<and>
      (if f_op i = OP_FSUB_S then float_sub fe a b else float_add fe a b)
        = Float32 (if rounds_up m e (Float32 v) then v + 1 else v))"
proof -
  let ?a = "f_rs1 i" and ?b = "f_rs2 i"
  let ?m = "sum_mant (Float32 ?a) (Float32 ?b)" and ?e = "sum_scale (Float32 ?a) (Float32 ?b)"
  define c where "c = (if f_op i = OP_FSUB_S then ?b + 2 ^ 31 else ?b)"
  define v where "v = fp_add_core ?a ?b (f_op i = OP_FSUB_S)"
  have "unat (fp_e ?a) \<noteq> 0" "unat (fp_e ?b) \<noteq> 0" "unat (fp_e ?a) \<le> 253" "unat (fp_e ?b) \<le> 253"
    using assms(6,7) unfolding f_exp_fp_e atLeastAtMost_iff by linarith+
  then have exps: "fp_e ?a \<noteq> 0" "fp_e ?b \<noteq> 0" "fp_e ?a \<noteq> 255" "fp_e ?b \<noteq> 255" "unat (fp_e ?a) \<le> 253" "unat (fp_e ?b) \<le> 253"
    by auto
  have c: "fp_e c = fp_e ?b" "fp_m c = fp_m ?b" "fp_s ?a = fp_s c" "fp_s ?a = (fp_s ?b \<noteq> (f_op i = OP_FSUB_S))"
    using assms(8) by (auto simp: c_def f_neg_fields [simplified] f_sign_fp_s)
  have sim: "(if f_op i = OP_FSUB_S then float_sub fe (Float32 ?a) (Float32 ?b) else float_add fe (Float32 ?a) (Float32 ?b))
      = f_add fe (if f_op i = OP_FSUB_S then Op_FSUB_S else Op_FADD_S) (Float32 ?a) (Float32 c) (Float32 ?b)"
    by (simp add: float_add_def float_sub_def f_neg_def c_def)
  have "truncates_to (fp_s ?a) ?m ?e (Float32 v) \<and>
    f_add fe op (Float32 ?a) (Float32 c) x = Float32 (if rounds_up ?m ?e (Float32 v) then v + 1 else v)" for op x
  proof (cases "fp_e ?b > fp_e ?a")
    case True
    have "f_add fe op (Float32 ?a) (Float32 c) x = f_round (fp_s ?a) ?m ?e"
      using f_add_same_sign(2) [of c ?a fe op x] exps c(1-3) True by (simp add: sum_mant_normal(2,4))
    then show ?thesis
      using sum_truncates [of ?a ?b "fp_s ?a"] exps True
      by (simp add: v_def fp_add_core_same_sign [OF exps(1,2) c(4)] sum_mant_normal(2,4))
  next
    case False
    then have le: "fp_e ?b \<le> fp_e ?a" by simp
    have "f_add fe op (Float32 ?a) (Float32 c) x = f_round (fp_s ?a) ?m ?e"
      using f_add_same_sign(1) [of ?a c fe op x] exps c(1-3) le by (simp add: sum_mant_normal(1,3))
    then show ?thesis
      using sum_truncates [of ?b ?a "fp_s ?a"] exps le False
      by (simp add: v_def fp_add_core_same_sign [OF exps(1,2) c(4)] sum_mant_normal(1,3))
  qed
  then show ?thesis using add_pipeline [OF assms(1-5)] unfolding Let_def sim f_sign_fp_s v_def [symmetric] by blast
qed

section \<open>Conversions\<close>

lemma fp_to_int_normal:
  fixes w :: u32
  defines "e \<equiv> unat (fp_e w)"
  defines "T \<equiv> (if 150 \<le> e then unat (fp_m w) * 2 ^ (e - 150) else unat (fp_m w) div 2 ^ (150 - e))"
  assumes "127 \<le> e" and "e < 158"
  shows "fp_to_int w = (if fp_s w then - of_nat T else of_nat T)" and "T < 2 ^ 31"
proof -
  have m: "unat (fp_m w) < 2 ^ 24" by (rule unat_fp_m_bounds)
  have "unat (fp_m w) * 2 ^ (e - 150) < 2 ^ 24 * 2 ^ 7" if "150 \<le> e"
    using m that assms(4) by (intro mult_less_le_imp_less power_increasing) auto
  moreover have "unat (fp_m w) div 2 ^ (150 - e) < 2 ^ 24" using div_le_dividend m by (rule le_less_trans)
  ultimately show "T < 2 ^ 31" by (cases "150 \<le> e") (simp_all add: T_def)
  have fe: "fp_e w \<noteq> 0" "\<not> fp_e w < 127" "\<not> fp_e w \<ge> 158"
    using assms(3,4) by (auto simp: e_def word_le_nat_alt word_less_nat_alt)
  have "unat (fp_e w - 127) = e - 127"
    using assms(3) by (simp add: e_def unat_sub word_le_nat_alt)
  then have u: "unat (ucast (fp_e w - 127) :: 5 word) = e - 127"
    using assms(4) by (simp add: unsigned_ucast_eq take_bit_nat_eq_self)
  have fm: "ucast (fp_m w) = (of_nat (unat (fp_m w)) :: u32)" by (simp only: of_nat_unat)
  have fmu: "unat (ucast (fp_m w) :: u32) = unat (fp_m w)"
    using m by (simp add: unsigned_ucast_eq take_bit_nat_eq_self)
  let ?x = "ucast (fp_e w - 127) :: 5 word"
  have "(if ?x \<ge> 23 then push_bit (unat (?x - 23)) (ucast (fp_m w)) else drop_bit (unat (23 - ?x)) (ucast (fp_m w)))
      = (of_nat T :: u32)"
  proof (cases "150 \<le> e")
    case True
    then have "?x \<ge> 23" using u by (simp add: word_le_nat_alt)
    moreover then have "unat (?x - 23) = e - 150" using u True by (simp add: unat_sub)
    ultimately show ?thesis using True by (simp add: T_def push_bit_eq_mult fm del: of_nat_unat)
  next
    case False
    then have x: "\<not> ?x \<ge> 23" using u by (simp add: word_le_nat_alt)
    then have "unat (23 - ?x) = 150 - e" using u False assms(3) by (simp add: unat_sub)
    moreover have "unat (drop_bit n (ucast (fp_m w)) :: u32) = unat (fp_m w) div 2 ^ n" for n
      unfolding unat_drop_bit_eq fmu by (simp add: drop_bit_eq_div)
    ultimately show ?thesis using False x by (simp add: T_def) (metis of_nat_unat ucast_id)
  qed
  then show "fp_to_int w = (if fp_s w then - of_nat T else of_nat T)"
    using fe by (simp add: fp_to_int_def Let_def minus_eq_not_plus_1)
qed

lemma f_trunc_fp:
  assumes "unat (fp_e w) < 127"
  shows "f_trunc (Float32 w) = 0"
proof -
  have "f_mant (Float32 w) < 2 ^ 24" "0 \<le> f_mant (Float32 w)"
    by (auto simp: f_mant_def f_frac_def intro: less_trans [OF pos_mod_bound])
  moreover have "f_scale (Float32 w) \<le> - 24" using assms by (simp only: f_scale_def f_exp_fp_e split: if_split) linarith
  moreover then have "(2 :: int) ^ 24 \<le> 2 ^ nat (- f_scale (Float32 w))" by (intro power_increasing) auto
  ultimately have "f_mant (Float32 w) div 2 ^ nat (- f_scale (Float32 w)) = 0"
    by (intro div_pos_pos_trivial) auto
  then show ?thesis using \<open>f_scale (Float32 w) \<le> - 24\<close> by (simp add: f_trunc_def Let_def)
qed

lemma fp_to_int_matches:
  assumes "f_exp (Float32 w) < 158"
  shows "fp_to_int w = int32_of_float fe (Float32 w)"
proof -
  let ?e = "unat (fp_e w)"
  have e: "?e < 158" using assms unfolding f_exp_fp_e by linarith
  then have e255: "f_exp (Float32 w) \<noteq> 255" unfolding f_exp_fp_e by linarith
  show ?thesis
  proof (cases "?e < 127")
    case True
    then have "fp_to_int w = 0" by (simp add: fp_to_int_def Let_def word_less_nat_alt)
    then show ?thesis using f_trunc_fp [OF True] e255 by (simp add: int32_of_float_def)
  next
    case False
    define T where "T = (if 150 \<le> ?e then unat (fp_m w) * 2 ^ (?e - 150) else unat (fp_m w) div 2 ^ (150 - ?e))"
    have hw: "fp_to_int w = (if fp_s w then - of_nat T else of_nat T)" "T < 2 ^ 31"
      using fp_to_int_normal [of w] False e by (auto simp: T_def)
    have e0: "fp_e w \<noteq> 0" using False by auto
    have sc: "f_scale (Float32 w) = int ?e - 150" using e0 by (rule float_scale_normal)
    have "(if 0 \<le> f_scale (Float32 w) then f_mant (Float32 w) * 2 ^ nat (f_scale (Float32 w))
        else f_mant (Float32 w) div 2 ^ nat (- f_scale (Float32 w))) = int T"
    proof (cases "150 \<le> ?e")
      case True
      then have "nat (int ?e - 150) = ?e - 150" "0 \<le> int ?e - 150" by linarith+
      then show ?thesis using True by (simp add: sc f_mant_fp_m [OF e0] T_def del: int_nat_eq)
    next
      case False
      then have "nat (- (int ?e - 150)) = 150 - ?e" "\<not> 0 \<le> int ?e - 150" by linarith+
      then show ?thesis using False by (simp add: sc f_mant_fp_m [OF e0] T_def zdiv_int del: int_nat_eq)
    qed
    then have "f_trunc (Float32 w) = (if fp_s w then - int T else int T)"
      by (simp only: f_trunc_def Let_def f_sign_fp_s)
    then show ?thesis using hw e255 by (auto simp: int32_of_float_def)
  qed
qed

text \<open>The highest set bit, and the conversion of an integer of at most 24 bits.\<close>

lemma last_set_eq:
  fixes w :: "'a::len word"
  assumes "2 ^ p \<le> unat w" and "unat w < 2 ^ Suc p" and "p < n"
  shows "last_set n w = p"
proof -
  have "[0..<n] = [0..<p] @ p # [Suc p..<n]" using assms(3) by (metis upt_conv_Cons upt_add_eq_append le_add_diff_inverse less_imp_le zero_le)
  moreover have "fold (\<lambda>i pos. if bit w i then i else pos) xs q = q" if "\<forall>i\<in>set xs. Suc p \<le> i" for xs q
    using that
  proof (induction xs)
    case (Cons i xs)
    then have "(2 :: nat) ^ Suc p \<le> 2 ^ i" by (intro power_increasing) auto
    then have "\<not> bit w i" using assms(2) by (intro not_bit_small) linarith
    then show ?case using Cons by simp
  qed simp
  moreover have "bit w p" using bit_top [OF assms(2)] assms(1) by simp
  ultimately show ?thesis by (simp add: last_set_def)
qed

lemma power_bracket: "0 < n \<Longrightarrow> \<exists>p. 2 ^ p \<le> n \<and> n < 2 ^ Suc p" for n :: nat
  using ex_power_ivl1 [of 2 n] by auto

text \<open>The magnitude of the integer as the hardware computes it.\<close>

lemma int_magnitude:
  fixes x :: u32
  shows "bit x 31 \<longleftrightarrow> sint x < 0" and "(if sint x < 0 then NOT x + 1 else x) = of_nat (nat \<bar>sint x\<bar>)"
proof -
  show "bit x 31 \<longleftrightarrow> sint x < 0" using bit_last_iff [of x] by simp
  show "(if sint x < 0 then NOT x + 1 else x) = of_nat (nat \<bar>sint x\<bar>)"
  proof (cases "sint x < 0")
    case True
    then have "(of_int (int (nat \<bar>sint x\<bar>)) :: u32) = of_int (- sint x)" by simp
    then have "(of_nat (nat \<bar>sint x\<bar>) :: u32) = - x" by simp
    then show ?thesis using True by (simp add: minus_eq_not_plus_1)
  next
    case False
    then have "(of_int (int (nat \<bar>sint x\<bar>)) :: u32) = of_int (sint x)" by simp
    then have "(of_nat (nat \<bar>sint x\<bar>) :: u32) = x" by simp
    then show ?thesis using False by simp
  qed
qed

text \<open>Shifted to the top of the word and cut to 24 bits it is a normal significand.\<close>

lemma normalized:
  fixes n p :: nat
  defines "norm \<equiv> push_bit (31 - p) (of_nat n) :: u32"
  assumes p: "2 ^ p \<le> n" "n < 2 ^ Suc p" and p23: "p \<le> 23"
  shows "unat norm div 2 ^ 8 = n * 2 ^ (23 - p)"
    and "2 ^ 23 \<le> n * 2 ^ (23 - p)" and "n * 2 ^ (23 - p) < 2 ^ 24"
proof -
  have "(2 :: nat) ^ Suc p * 2 ^ (31 - p) = 2 ^ (Suc p + (31 - p))" by (simp only: power_add)
  also have "Suc p + (31 - p) = 32" using p23 by simp
  finally have lt: "n * 2 ^ (31 - p) < 2 ^ 32" using p(2) by (metis mult_less_mono1 zero_less_numeral zero_less_power)
  have "norm = of_nat (n * 2 ^ (31 - p))" by (simp add: norm_def push_bit_eq_mult)
  then have "unat norm = n * 2 ^ (31 - p)" using lt by (simp only: unat_of_nat) simp
  moreover have "(2 :: nat) ^ (31 - p) = 2 ^ (23 - p) * 2 ^ 8" using p23 by (simp only: flip: power_add) simp
  ultimately show "unat norm div 2 ^ 8 = n * 2 ^ (23 - p)" by simp
  have e: "(2 :: nat) ^ p * 2 ^ (23 - p) = 2 ^ 23" "(2 :: nat) ^ Suc p * 2 ^ (23 - p) = 2 ^ 24"
    using p23 by (simp_all flip: power_add power_Suc add: Suc_diff_le)
  show "2 ^ 23 \<le> n * 2 ^ (23 - p)" using e(1) p(1) by (metis mult_le_mono1)
  show "n * 2 ^ (23 - p) < 2 ^ 24" using e(2) p(2) by (metis mult_less_mono1 zero_less_numeral zero_less_power)
qed

lemma f_round_small:
  assumes p: "2 ^ p \<le> n" "n < 2 ^ Suc p" and p23: "p \<le> 23"
  shows "f_round s (int n) 0 = f_pack s ((int p + 126) * 2 ^ 23 + int (n * 2 ^ (23 - p)))"
proof -
  have "bit_len (int n) = int p + 1"
    by (rule bit_len_eq) (use p in \<open>simp_all only: int_pow_le int_pow_gt\<close>)
  moreover have "nat (0 - (int p + 1 - 24)) = 23 - p" using p23 by simp
  moreover have "(int p + 1 - 24 + 149) * 2 ^ 23 + int n * 2 ^ (23 - p) \<le> 255 * 2 ^ 23"
  proof -
    have "int (n * 2 ^ (23 - p)) < 2 ^ 24" using normalized(3) [OF assms] by (simp only: int_pow_gt)
    moreover have "int p * 2 ^ 23 \<le> 23 * 2 ^ 23" using p23 by simp
    ultimately show ?thesis by (simp add: algebra_simps)
  qed
  moreover have "0 < n" using p(1) by (cases n) auto
  ultimately show ?thesis using p23 by (simp add: f_round_def Let_def max_def add.commute)
qed

lemma int_to_fp_matches:
  assumes "\<bar>sint x\<bar> < 2 ^ 24"
  shows "Float32 (int_to_fp x) = float_of_int32 x"
proof (cases "x = 0")
  case True
  then show ?thesis by (simp add: int_to_fp_def float_of_int32_def f_round_def f_pack_def)
next
  case False
  define n where "n = nat \<bar>sint x\<bar>"
  have n: "0 < n" "n < 2 ^ 24" using False assms by (simp_all add: n_def signed_eq_0_iff nat_less_iff)
  then obtain p where p: "2 ^ p \<le> n" "n < 2 ^ Suc p" using power_bracket by blast
  have "(2 :: nat) ^ p < 2 ^ 24" using p(1) n(2) by linarith
  then have p23: "p \<le> 23" by (simp add: power_strict_increasing_iff del: power_numeral)
  note norm = normalized [OF p p23]
  have u: "unat (of_nat n :: u32) = n" using n(2) by (simp add: unat_of_nat)
  have ls: "last_set 32 (of_nat n :: u32) = p"
    by (rule last_set_eq) (use p u p23 in auto)
  have pp: "unat (of_nat p :: 5 word) = p" using p23 by (simp add: unat_of_nat)
  then have sh: "unat (31 - of_nat p :: 5 word) = 31 - p" using p23 by (simp add: unat_sub word_le_nat_alt)
  have "unat (127 + ucast (of_nat p :: 5 word) :: 8 word) = 127 + p"
    using p23 pp by (simp add: unat_word_ariths unsigned_ucast_eq take_bit_nat_eq_self)
  then have fe: "uint (127 + ucast (of_nat p :: 5 word) :: 8 word) = 127 + int p"
    by (simp only: uint_nat of_nat_add of_nat_numeral)
  have "Float32 (int_to_fp x) = f_pack (sint x < 0) ((127 + int p) * 2 ^ 23 + (int (n * 2 ^ (23 - p)) - 2 ^ 23))"
    using False uint_mant [of "push_bit (31 - p) (of_nat n) :: u32" 8, unfolded norm(1), OF norm(2,3)]
    by (simp only: int_to_fp_def Let_def int_magnitude n_def [symmetric] ls sh if_False fp_pack_f_pack fe)
  moreover have "float_of_int32 x = f_pack (sint x < 0) ((int p + 126) * 2 ^ 23 + int (n * 2 ^ (23 - p)))"
    using f_round_small [OF p p23, of "sint x < 0"] by (simp add: float_of_int32_def n_def)
  ultimately show ?thesis by (simp add: algebra_simps)
qed

lemma cvt_pipeline:
  assumes "\<not> f_flush i" "\<not> f_flush j" "pipe2_advance i p" "pipe2_advance j (fp_cvt_clock i p)" "f_valid i"
  shows "pipe2_out (fp_cvt_clock j (fp_cvt_clock i p)) =
    Some (f_tag i, if f_op i = OP_FCVT_W_S then fp_to_int (f_rs1 i) else int_to_fp (f_rs1 i))"
  using assms by (simp add: fp_cvt_clock_def pipe2_clock_def pipe2_out_def)

text \<open>C25. The conversion unit offers its result after the pipeline has moved twice. \<open>FCVT.W.S\<close> of a number below
  2^31 in magnitude is the simulator's truncated integer, and \<open>FCVT.S.W\<close> of an integer of at most 24 bits is the
  simulator's number.\<close>

theorem fp_cvt_matches_simulator:
  assumes "\<not> f_flush i" "\<not> f_flush j" "pipe2_advance i p" "pipe2_advance j (fp_cvt_clock i p)" "f_valid i"
  shows "\<exists>v. pipe2_out (fp_cvt_clock j (fp_cvt_clock i p)) = Some (f_tag i, v) \<and>
    (f_op i = OP_FCVT_W_S \<and> f_exp (Float32 (f_rs1 i)) < 158 \<longrightarrow> v = int32_of_float fe (Float32 (f_rs1 i))) \<and>
    (f_op i = OP_FCVT_S_W \<and> \<bar>sint (f_rs1 i)\<bar> < 2 ^ 24 \<longrightarrow> Float32 v = float_of_int32 (f_rs1 i))"
  using cvt_pipeline [OF assms] fp_to_int_matches [of "f_rs1 i" fe] int_to_fp_matches [of "f_rs1 i"] by auto

text \<open>-7.75 to -7.\<close>

definition cvt_sample :: fu_in where
  "cvt_sample = \<lparr>f_flush = False, f_valid = True, f_op = OP_FCVT_W_S, f_tag = 2, f_rs1 = 0xC0F80000, f_rs2 = 0,
     f_grant = False\<rparr>"

theorem fp_cvt_matches_simulator_witness:
  "\<exists>v. pipe2_out (fp_cvt_clock cvt_sample (fp_cvt_clock cvt_sample pipe2_reset)) = Some (2, v) \<and>
     v = int32_of_float x86_env (Float32 0xC0F80000) \<and> v = 0xFFFFFFF9"
proof -
  have "f_exp (Float32 0xC0F80000) < 158" "int32_of_float x86_env (Float32 0xC0F80000) = 0xFFFFFFF9" by code_simp+
  moreover have "pipe2_advance cvt_sample pipe2_reset" "pipe2_advance cvt_sample (fp_cvt_clock cvt_sample pipe2_reset)"
    by (simp_all add: pipe2_advance_def pipe2_reset_def fp_cvt_clock_def pipe2_clock_def cvt_sample_def)
  ultimately show ?thesis
    using fp_cvt_matches_simulator [of cvt_sample cvt_sample pipe2_reset x86_env] by (auto simp: cvt_sample_def)
qed

text \<open>Half a unit in the last place on top of an odd significand: the simulator rounds up.\<close>

definition add_sample :: fu_in where
  "add_sample = \<lparr>f_flush = False, f_valid = True, f_op = OP_FADD_S, f_tag = 6, f_rs1 = 0x3FC00001, f_rs2 = 0x33800000,
     f_grant = False\<rparr>"

theorem fp_add_truncates_witness:
  "\<exists>v. pipe2_out (fp_add_clock add_sample (fp_add_clock add_sample pipe2_reset)) = Some (6, v) \<and>
     v = 0x3FC00001 \<and> truncates_to False (0xC00001 * 2 ^ 24 + 0x800000) (-47) (Float32 v) \<and>
     float_add x86_env (Float32 0x3FC00001) (Float32 0x33800000) = Float32 (v + 1)"
proof -
  have "f_exp (Float32 0x3FC00001) = 127" "f_exp (Float32 0x33800000) = 103"
    "f_sign (Float32 0x3FC00001) = False" "f_sign (Float32 0x33800000) = False"
    "sum_mant (Float32 0x3FC00001) (Float32 0x33800000) = 0xC00001 * 2 ^ 24 + 0x800000"
    "sum_scale (Float32 0x3FC00001) (Float32 0x33800000) = -47"
    "rounds_up (0xC00001 * 2 ^ 24 + 0x800000) (-47) (Float32 0x3FC00001)" by code_simp+
  moreover have "pipe2_advance add_sample pipe2_reset" "pipe2_advance add_sample (fp_add_clock add_sample pipe2_reset)"
    by (simp_all add: pipe2_advance_def pipe2_reset_def fp_add_clock_def pipe2_clock_def add_sample_def)
  moreover have "pipe2_out (fp_add_clock add_sample (fp_add_clock add_sample pipe2_reset)) = Some (6, 0x3FC00001)"
    by code_simp
  ultimately show ?thesis
    using fp_add_truncates [of add_sample add_sample pipe2_reset x86_env] by (simp add: add_sample_def Let_def)
qed


end
