(* ===== verification/Hw_Decode.thy ===== *)
theory Hw_Decode
  imports Hw_Types
begin

text \<open>
  The decoder of \<open>hardware/core/tomasulo_core.sv\<close>, from the 32 bits of an instruction to \<open>instr_t\<close>. The RV32IF
  encoding is written out as a function in the other direction, format by format; decoding undoes it. The one
  instruction that is not RISC-V, \<open>HALT\<close>, is encoded as the decoder expects it, which is not what \<open>docs/ISA.md\<close> says.
\<close>

section \<open>The decoder\<close>

text \<open>\<open>raw[hi:lo]\<close>\<close>

definition slice_of :: "nat \<Rightarrow> nat \<Rightarrow> u32 \<Rightarrow> u32" where
  "slice_of hi lo raw = take_bit (Suc hi - lo) (drop_bit lo raw)"

definition imm_i :: "u32 \<Rightarrow> u32" where
  "imm_i raw = signed_take_bit 11 (slice_of 31 20 raw)"

definition imm_s :: "u32 \<Rightarrow> u32" where
  "imm_s raw = signed_take_bit 11 (push_bit 5 (slice_of 31 25 raw) OR slice_of 11 7 raw)"

definition imm_b :: "u32 \<Rightarrow> u32" where
  "imm_b raw = signed_take_bit 12 (push_bit 12 (slice_of 31 31 raw) OR push_bit 11 (slice_of 7 7 raw) OR
     push_bit 5 (slice_of 30 25 raw) OR push_bit 1 (slice_of 11 8 raw))"

definition imm_u :: "u32 \<Rightarrow> u32" where
  "imm_u raw = push_bit 12 (slice_of 31 12 raw)"

definition imm_j :: "u32 \<Rightarrow> u32" where
  "imm_j raw = signed_take_bit 20 (push_bit 20 (slice_of 31 31 raw) OR push_bit 12 (slice_of 19 12 raw) OR
     push_bit 11 (slice_of 20 20 raw) OR push_bit 1 (slice_of 30 21 raw))"

definition hw_decode :: "u32 \<Rightarrow> u32 \<Rightarrow> instr_t" where
  "hw_decode raw pc =
     (let opcode = ucast raw :: 7 word; rd = ucast (drop_bit 7 raw) :: arch_reg; funct3 = ucast (drop_bit 12 raw) :: 3 word;
          rs1 = ucast (drop_bit 15 raw) :: arch_reg; rs2 = ucast (drop_bit 20 raw) :: arch_reg;
          funct7 = ucast (drop_bit 25 raw) :: 7 word;
          d = \<lparr>i_op = OP_NOP, i_rd = 0, i_rs1 = 0, i_rs2 = 0, i_imm = 0, i_rd_fp = False, i_rs1_fp = False,
               i_rs2_fp = False, i_rd_valid = False, i_pc = pc\<rparr>;
          fp = d\<lparr>i_rd := rd, i_rs1 := rs1, i_rs2 := rs2, i_rd_valid := True, i_rd_fp := True, i_rs1_fp := True,
               i_rs2_fp := True\<rparr> in
      if opcode = 0x33 then
        d\<lparr>i_rd := rd, i_rs1 := rs1, i_rs2 := rs2, i_rd_valid := True,
          i_op := (if \<not> bit funct7 5 then
                     (if funct3 = 0 then OP_ADD else if funct3 = 7 then OP_AND else if funct3 = 6 then OP_OR
                      else if funct3 = 4 then OP_XOR else if funct3 = 1 then OP_SLL else if funct3 = 5 then OP_SRL
                      else if funct3 = 2 then OP_SLT else OP_SLTU)
                   else if funct3 = 0 then OP_SUB else if funct3 = 5 then OP_SRA else OP_NOP)\<rparr>
      else if opcode = 0x13 then
        d\<lparr>i_rd := rd, i_rs1 := rs1, i_rd_valid := True, i_imm := imm_i raw,
          i_op := (if funct3 = 0 then OP_ADDI else if funct3 = 7 then OP_ANDI else if funct3 = 6 then OP_ORI
                   else if funct3 = 4 then OP_XORI else if funct3 = 1 then OP_SLLI else if funct3 = 2 then OP_SLTI
                   else if funct3 = 3 then OP_SLTIU else if bit funct7 5 then OP_SRAI else OP_SRLI)\<rparr>
      else if opcode = 0x03 then
        d\<lparr>i_rd := rd, i_rs1 := rs1, i_rd_valid := True, i_imm := imm_i raw,
          i_op := (if funct3 = 2 then OP_LW else if funct3 = 0 then OP_LB else if funct3 = 4 then OP_LBU
                   else if funct3 = 1 then OP_LH else if funct3 = 5 then OP_LHU else OP_NOP)\<rparr>
      else if opcode = 0x23 then
        d\<lparr>i_rs1 := rs1, i_rs2 := rs2, i_imm := imm_s raw,
          i_op := (if funct3 = 2 then OP_SW else if funct3 = 0 then OP_SB else if funct3 = 1 then OP_SH else OP_NOP)\<rparr>
      else if opcode = 0x63 then
        d\<lparr>i_rs1 := rs1, i_rs2 := rs2, i_imm := imm_b raw,
          i_op := (if funct3 = 0 then OP_BEQ else if funct3 = 1 then OP_BNE else if funct3 = 4 then OP_BLT
                   else if funct3 = 5 then OP_BGE else if funct3 = 6 then OP_BLTU else if funct3 = 7 then OP_BGEU
                   else OP_NOP)\<rparr>
      else if opcode = 0x6F then d\<lparr>i_op := OP_JAL, i_rd := rd, i_rd_valid := True, i_imm := imm_j raw\<rparr>
      else if opcode = 0x67 then
        (if funct3 = 0 then d\<lparr>i_op := OP_JALR, i_rd := rd, i_rs1 := rs1, i_rd_valid := True, i_imm := imm_i raw\<rparr> else d)
      else if opcode = 0x37 then d\<lparr>i_op := OP_LUI, i_rd := rd, i_rd_valid := True, i_imm := imm_u raw\<rparr>
      else if opcode = 0x17 then d\<lparr>i_op := OP_AUIPC, i_rd := rd, i_rd_valid := True, i_imm := imm_u raw\<rparr>
      else if opcode = 0x07 then
        (if funct3 = 2 then d\<lparr>i_op := OP_FLW, i_rd := rd, i_rs1 := rs1, i_rd_valid := True, i_rd_fp := True,
           i_imm := imm_i raw\<rparr> else d)
      else if opcode = 0x27 then
        (if funct3 = 2 then d\<lparr>i_op := OP_FSW, i_rs1 := rs1, i_rs2 := rs2, i_rs2_fp := True, i_imm := imm_s raw\<rparr> else d)
      else if opcode = 0x53 then
        (if funct7 = 0 then fp\<lparr>i_op := OP_FADD_S\<rparr>
         else if funct7 = 4 then fp\<lparr>i_op := OP_FSUB_S\<rparr>
         else if funct7 = 8 then fp\<lparr>i_op := OP_FMUL_S\<rparr>
         else if funct7 = 12 then fp\<lparr>i_op := OP_FDIV_S\<rparr>
         else if funct7 = 0x60 then d\<lparr>i_op := OP_FCVT_W_S, i_rd := rd, i_rs1 := rs1, i_rd_valid := True, i_rs1_fp := True\<rparr>
         else if funct7 = 0x68 then d\<lparr>i_op := OP_FCVT_S_W, i_rd := rd, i_rs1 := rs1, i_rd_valid := True, i_rd_fp := True\<rparr>
         else d)
      else if opcode = 0x73 then d\<lparr>i_op := OP_HALT\<rparr>
      else d)"

section \<open>The encoding\<close>

text \<open>The six fields of a word; every format is a way to fill them.\<close>

definition fields :: "7 word \<Rightarrow> arch_reg \<Rightarrow> 3 word \<Rightarrow> arch_reg \<Rightarrow> arch_reg \<Rightarrow> 7 word \<Rightarrow> u32" where
  "fields op rd f3 rs1 rs2 f7 =
     word_cat f7 (word_cat rs2 (word_cat rs1 (word_cat f3 (word_cat rd op :: 12 word) :: 15 word) :: 20 word) :: 25 word)"

datatype format = Fmt_R | Fmt_I | Fmt_S | Fmt_B | Fmt_U | Fmt_J

text \<open>Format, opcode, funct3 and funct7 of every instruction: those of \<open>docs/ISA.md\<close> for the instructions its tables
  list, and of the RISC-V manual for the others (\<open>SLT\<close>, \<open>SLTU\<close>, bytes and halfwords, jumps, \<open>LUI\<close>, \<open>AUIPC\<close>).
  \<open>HALT\<close> is the exception: \<open>docs/ISA.md\<close> (NOP and HALT) makes it a custom immediate on \<open>ADDI x0, x0\<close>, but the
  decoder knows it only by the opcode 0x73, and the table follows the decoder. \<open>OP_NOP\<close> has no encoding of its
  own: \<open>NOP\<close> is \<open>ADDI x0, x0, 0\<close>.\<close>

definition enc_table :: "opcode_e \<Rightarrow> (format \<times> 7 word \<times> 3 word \<times> 7 word) option" where
  "enc_table op = (case op of
     OP_ADD \<Rightarrow> Some (Fmt_R, 0x33, 0, 0) | OP_SUB \<Rightarrow> Some (Fmt_R, 0x33, 0, 0x20)
   | OP_AND \<Rightarrow> Some (Fmt_R, 0x33, 7, 0) | OP_OR \<Rightarrow> Some (Fmt_R, 0x33, 6, 0)
   | OP_XOR \<Rightarrow> Some (Fmt_R, 0x33, 4, 0) | OP_SLL \<Rightarrow> Some (Fmt_R, 0x33, 1, 0)
   | OP_SRL \<Rightarrow> Some (Fmt_R, 0x33, 5, 0) | OP_SRA \<Rightarrow> Some (Fmt_R, 0x33, 5, 0x20)
   | OP_SLT \<Rightarrow> Some (Fmt_R, 0x33, 2, 0) | OP_SLTU \<Rightarrow> Some (Fmt_R, 0x33, 3, 0)
   | OP_ADDI \<Rightarrow> Some (Fmt_I, 0x13, 0, 0) | OP_ANDI \<Rightarrow> Some (Fmt_I, 0x13, 7, 0)
   | OP_ORI \<Rightarrow> Some (Fmt_I, 0x13, 6, 0) | OP_XORI \<Rightarrow> Some (Fmt_I, 0x13, 4, 0)
   | OP_SLLI \<Rightarrow> Some (Fmt_I, 0x13, 1, 0) | OP_SRLI \<Rightarrow> Some (Fmt_I, 0x13, 5, 0)
   | OP_SRAI \<Rightarrow> Some (Fmt_I, 0x13, 5, 0) | OP_SLTI \<Rightarrow> Some (Fmt_I, 0x13, 2, 0)
   | OP_SLTIU \<Rightarrow> Some (Fmt_I, 0x13, 3, 0)
   | OP_LW \<Rightarrow> Some (Fmt_I, 0x03, 2, 0) | OP_LB \<Rightarrow> Some (Fmt_I, 0x03, 0, 0)
   | OP_LBU \<Rightarrow> Some (Fmt_I, 0x03, 4, 0) | OP_LH \<Rightarrow> Some (Fmt_I, 0x03, 1, 0)
   | OP_LHU \<Rightarrow> Some (Fmt_I, 0x03, 5, 0) | OP_FLW \<Rightarrow> Some (Fmt_I, 0x07, 2, 0)
   | OP_JALR \<Rightarrow> Some (Fmt_I, 0x67, 0, 0)
   | OP_SW \<Rightarrow> Some (Fmt_S, 0x23, 2, 0) | OP_SB \<Rightarrow> Some (Fmt_S, 0x23, 0, 0)
   | OP_SH \<Rightarrow> Some (Fmt_S, 0x23, 1, 0) | OP_FSW \<Rightarrow> Some (Fmt_S, 0x27, 2, 0)
   | OP_BEQ \<Rightarrow> Some (Fmt_B, 0x63, 0, 0) | OP_BNE \<Rightarrow> Some (Fmt_B, 0x63, 1, 0)
   | OP_BLT \<Rightarrow> Some (Fmt_B, 0x63, 4, 0) | OP_BGE \<Rightarrow> Some (Fmt_B, 0x63, 5, 0)
   | OP_BLTU \<Rightarrow> Some (Fmt_B, 0x63, 6, 0) | OP_BGEU \<Rightarrow> Some (Fmt_B, 0x63, 7, 0)
   | OP_JAL \<Rightarrow> Some (Fmt_J, 0x6F, 0, 0)
   | OP_LUI \<Rightarrow> Some (Fmt_U, 0x37, 0, 0) | OP_AUIPC \<Rightarrow> Some (Fmt_U, 0x17, 0, 0)
   | OP_FADD_S \<Rightarrow> Some (Fmt_R, 0x53, 0, 0) | OP_FSUB_S \<Rightarrow> Some (Fmt_R, 0x53, 0, 4)
   | OP_FMUL_S \<Rightarrow> Some (Fmt_R, 0x53, 0, 8) | OP_FDIV_S \<Rightarrow> Some (Fmt_R, 0x53, 0, 12)
   | OP_FCVT_W_S \<Rightarrow> Some (Fmt_R, 0x53, 1, 0x60) | OP_FCVT_S_W \<Rightarrow> Some (Fmt_R, 0x53, 0, 0x68)
   | OP_HALT \<Rightarrow> Some (Fmt_R, 0x73, 0, 0)
   | OP_NOP \<Rightarrow> None)"

text \<open>The bits \<open>imm[4:1|11]\<close> and \<open>imm[s|10:5]\<close> of branches and jumps, \<open>s\<close> the sign bit.\<close>

definition lo_field :: "u32 \<Rightarrow> 5 word" where
  "lo_field m = ucast (push_bit 1 (slice_of 4 1 m) OR slice_of 11 11 m)"

definition hi_field :: "nat \<Rightarrow> u32 \<Rightarrow> 7 word" where
  "hi_field s m = ucast (push_bit 6 (slice_of s s m) OR slice_of 10 5 m)"

definition encode_as :: "format \<Rightarrow> 7 word \<Rightarrow> 3 word \<Rightarrow> 7 word \<Rightarrow> instr_t \<Rightarrow> u32" where
  "encode_as f op f3 f7 i = (let m = i_imm i in case f of
     Fmt_R \<Rightarrow> fields op (i_rd i) f3 (i_rs1 i) (i_rs2 i) f7
   | Fmt_I \<Rightarrow> fields op (i_rd i) f3 (i_rs1 i) (ucast m) (ucast (drop_bit 5 m))
   | Fmt_S \<Rightarrow> fields op (ucast m) f3 (i_rs1 i) (i_rs2 i) (ucast (drop_bit 5 m))
   | Fmt_B \<Rightarrow> fields op (lo_field m) f3 (i_rs1 i) (i_rs2 i)
       (hi_field 12 m)
   | Fmt_U \<Rightarrow> fields op (i_rd i) (ucast (drop_bit 12 m)) (ucast (drop_bit 15 m)) (ucast (drop_bit 20 m))
       (ucast (drop_bit 25 m))
   | Fmt_J \<Rightarrow> fields op (i_rd i) (ucast (slice_of 14 12 m)) (ucast (slice_of 19 15 m))
       (lo_field m) (hi_field 20 m))"

definition encode :: "instr_t \<Rightarrow> u32" where
  "encode i = (case enc_table (i_op i) of None \<Rightarrow> 0 | Some (f, op, f3, f7) \<Rightarrow> encode_as f op f3 f7 i)"

section \<open>Bits of the fields\<close>

lemma bit_fields: "bit (fields op rd f3 rs1 rs2 f7) n =
    (if n < 7 then bit op n else if n < 12 then bit rd (n - 7) else if n < 15 then bit f3 (n - 12)
     else if n < 20 then bit rs1 (n - 15) else if n < 25 then bit rs2 (n - 20) else n < 32 \<and> bit f7 (n - 25))"
  by (simp add: fields_def bit_word_cat_iff)

lemma decode_fields:
  "(ucast (fields op rd f3 rs1 rs2 f7) :: 7 word) = op"
  "(ucast (drop_bit 7 (fields op rd f3 rs1 rs2 f7)) :: arch_reg) = rd"
  "(ucast (drop_bit 12 (fields op rd f3 rs1 rs2 f7)) :: 3 word) = f3"
  "(ucast (drop_bit 15 (fields op rd f3 rs1 rs2 f7)) :: arch_reg) = rs1"
  "(ucast (drop_bit 20 (fields op rd f3 rs1 rs2 f7)) :: arch_reg) = rs2"
  "(ucast (drop_bit 25 (fields op rd f3 rs1 rs2 f7)) :: 7 word) = f7"
  by (rule bit_word_eqI, simp only: bit_ucast_iff bit_drop_bit_eq comp_def bit_fields, simp)+

lemma bit_slice_of: "bit (slice_of hi lo w) n \<longleftrightarrow> n < Suc hi - lo \<and> bit w (lo + n)"
  by (simp add: slice_of_def bit_take_bit_iff bit_drop_bit_eq)

lemmas imm_bits = bit_signed_take_bit_iff bit_or_iff bit_push_bit_iff bit_slice_of bit_ucast_iff bit_drop_bit_eq
  comp_def bit_fields possible_bit_word

text \<open>Each immediate comes back as its low bits, sign-extended.\<close>

lemma imm_i_fields:
  "imm_i (fields op rd f3 rs1 (ucast m) (ucast (drop_bit 5 m))) = signed_take_bit 11 m"
  by (rule bit_word_eqI, unfold imm_i_def, simp only: imm_bits) (auto simp: min_def bit_ucast_iff bit_simps)

lemma imm_s_fields:
  "imm_s (fields op (ucast m) f3 rs1 rs2 (ucast (drop_bit 5 m))) = signed_take_bit 11 m"
  by (rule bit_word_eqI, unfold imm_s_def, simp only: imm_bits) (auto simp: min_def bit_ucast_iff bit_simps)

lemma imm_u_fields:
  assumes "take_bit 12 m = 0"
  shows "imm_u (fields op rd (ucast (drop_bit 12 m)) (ucast (drop_bit 15 m)) (ucast (drop_bit 20 m)) (ucast (drop_bit 25 m))) = m"
proof (rule bit_word_eqI)
  fix n assume n: "n < LENGTH(32)"
  have "\<not> bit m n" if "n < 12" using assms that bit_take_bit_iff [of 12 m n] by simp
  then show "bit (imm_u (fields op rd (ucast (drop_bit 12 m)) (ucast (drop_bit 15 m)) (ucast (drop_bit 20 m))
      (ucast (drop_bit 25 m)))) n = bit m n"
    using n by (cases "n < 12") (unfold imm_u_def, simp_all only: imm_bits, auto simp: bit_ucast_iff bit_simps)
qed

lemma bit_lo_field: "bit (lo_field m) n \<longleftrightarrow> n < 5 \<and> bit m (if n = 0 then 11 else n)"
  by (cases n) (simp_all only: lo_field_def bit_ucast_iff bit_or_iff bit_push_bit_iff bit_slice_of, auto)

lemma bit_hi_field: "bit (hi_field s m) n \<longleftrightarrow> n < 7 \<and> bit m (if n = 6 then s else 5 + n)"
  by (auto simp: hi_field_def bit_ucast_iff bit_or_iff bit_push_bit_iff bit_slice_of)

text \<open>A sign-extended word is known from its low bits.\<close>

lemma signed_take_bit_eqI:
  assumes "\<And>k. k \<le> s \<Longrightarrow> bit a k = bit b k"
  shows "signed_take_bit s (a :: u32) = signed_take_bit s b"
  by (rule bit_word_eqI) (simp add: bit_signed_take_bit_iff assms)

lemma imm_b_fields:
  assumes "\<not> bit m 0"
  shows "imm_b (fields op (lo_field m) f3 rs1 rs2 (hi_field 12 m)) = signed_take_bit 12 m"
  unfolding imm_b_def
proof (rule signed_take_bit_eqI)
  fix k :: nat assume "k \<le> 12"
  then consider "k = 0" | "1 \<le> k" "k \<le> 4" | "5 \<le> k" "k \<le> 10" | "k = 11" | "k = 12" by linarith
  then show "bit (push_bit 12 (slice_of 31 31 (fields op (lo_field m) f3 rs1 rs2 (hi_field 12 m))) OR
      push_bit 11 (slice_of 7 7 (fields op (lo_field m) f3 rs1 rs2 (hi_field 12 m))) OR
      push_bit 5 (slice_of 30 25 (fields op (lo_field m) f3 rs1 rs2 (hi_field 12 m))) OR
      push_bit 1 (slice_of 11 8 (fields op (lo_field m) f3 rs1 rs2 (hi_field 12 m)))) k = bit m k"
    by cases (simp_all only: imm_bits bit_lo_field bit_hi_field, auto simp: assms)
qed

lemma imm_j_fields:
  assumes "\<not> bit m 0"
  shows "imm_j (fields op rd (ucast (slice_of 14 12 m)) (ucast (slice_of 19 15 m)) (lo_field m) (hi_field 20 m)) =
    signed_take_bit 20 m" (is "imm_j ?raw = _")
  unfolding imm_j_def
proof (rule signed_take_bit_eqI)
  fix k :: nat assume "k \<le> 20"
  then consider "k = 0" | "1 \<le> k" "k \<le> 4" | "5 \<le> k" "k \<le> 10" | "k = 11" | "12 \<le> k" "k \<le> 14" | "15 \<le> k" "k \<le> 19"
    | "k = 20" by linarith
  then show "bit (push_bit 20 (slice_of 31 31 ?raw) OR push_bit 12 (slice_of 19 12 ?raw) OR
      push_bit 11 (slice_of 20 20 ?raw) OR push_bit 1 (slice_of 30 21 ?raw)) k = bit m k"
    by cases (simp_all only: imm_bits bit_lo_field bit_hi_field, auto simp: assms bit_simps)
qed


section \<open>What the encoding can express\<close>

definition fp_arith_op :: "opcode_e \<Rightarrow> bool" where
  "fp_arith_op op \<longleftrightarrow> op = OP_FADD_S \<or> op = OP_FSUB_S \<or> op = OP_FMUL_S \<or> op = OP_FDIV_S"

definition imm_fits :: "opcode_e \<Rightarrow> format \<Rightarrow> u32 \<Rightarrow> bool" where
  "imm_fits op f m \<longleftrightarrow> (case f of
     Fmt_R \<Rightarrow> m = 0
   | Fmt_I \<Rightarrow> m = signed_take_bit 11 m \<and> (op = OP_SRLI \<longrightarrow> \<not> bit m 10) \<and> (op = OP_SRAI \<longrightarrow> bit m 10)
   | Fmt_S \<Rightarrow> m = signed_take_bit 11 m
   | Fmt_B \<Rightarrow> m = signed_take_bit 12 m \<and> \<not> bit m 0
   | Fmt_U \<Rightarrow> take_bit 12 m = 0
   | Fmt_J \<Rightarrow> m = signed_take_bit 20 m \<and> \<not> bit m 0)"

text \<open>An instruction that has an encoding: the fields its format lacks are zero, the register-file flags are
  those of its opcode, the immediate fits.\<close>

definition hw_wf :: "instr_t \<Rightarrow> bool" where
  "hw_wf i \<longleftrightarrow> (case enc_table (i_op i) of None \<Rightarrow> False | Some (f, _) \<Rightarrow>
     (i_rd_valid i \<longleftrightarrow> f \<noteq> Fmt_S \<and> f \<noteq> Fmt_B \<and> i_op i \<noteq> OP_HALT) \<and>
     (i_rd_fp i \<longleftrightarrow> fp_arith_op (i_op i) \<or> i_op i = OP_FLW \<or> i_op i = OP_FCVT_S_W) \<and>
     (i_rs1_fp i \<longleftrightarrow> fp_arith_op (i_op i) \<or> i_op i = OP_FCVT_W_S) \<and>
     (i_rs2_fp i \<longleftrightarrow> fp_arith_op (i_op i) \<or> i_op i = OP_FSW) \<and>
     (i_rd_valid i \<or> i_rd i = 0) \<and>
     (f \<noteq> Fmt_U \<and> f \<noteq> Fmt_J \<and> i_op i \<noteq> OP_HALT \<or> i_rs1 i = 0) \<and>
     ((f = Fmt_R \<and> i_op i \<noteq> OP_HALT \<and> i_op i \<noteq> OP_FCVT_W_S \<and> i_op i \<noteq> OP_FCVT_S_W) \<or> f = Fmt_S \<or> f = Fmt_B \<or>
       i_rs2 i = 0) \<and>
     imm_fits (i_op i) f (i_imm i))"

text \<open>The bit of the immediate that tells the two right shifts apart.\<close>

lemma shift_bit: "bit (ucast (drop_bit 5 (m :: u32)) :: 7 word) 5 = bit m 10"
  by (simp add: bit_ucast_iff bit_drop_bit_eq)



section \<open>Every word decodes to an encodable instruction or to nothing\<close>

text \<open>The immediates the decoder builds fit their formats.\<close>

lemma imm_fit:
  "signed_take_bit 11 (imm_i raw) = imm_i raw" "signed_take_bit 11 (imm_s raw) = imm_s raw"
  "signed_take_bit 12 (imm_b raw) = imm_b raw" "signed_take_bit 20 (imm_j raw) = imm_j raw"
  "take_bit 12 (imm_u raw) = 0"
  by (simp_all add: imm_i_def imm_s_def imm_b_def imm_j_def imm_u_def take_bit_push_bit)

lemma imm_even: "\<not> bit (imm_b raw) 0" "\<not> bit (imm_j raw) 0"
  unfolding imm_b_def imm_j_def by (simp_all only: bit_signed_take_bit_iff bit_or_iff bit_push_bit_iff, simp_all)

lemma imm_i_shift_bit: "bit (imm_i raw) 10 = bit (ucast (drop_bit 25 raw) :: 7 word) 5"
  unfolding imm_i_def by (simp only: bit_signed_take_bit_iff bit_slice_of bit_ucast_iff bit_drop_bit_eq comp_def, simp)

lemmas wf_defs = hw_wf_def enc_table_def fp_arith_op_def imm_fits_def imm_fit imm_even imm_i_shift_bit

section \<open>Properties\<close>

text \<open>The encoding of \<open>HALT\<close> the manual describes, an immediate on the \<open>NOP\<close> encoding, is an addition to \<open>x0\<close> for the
  decoder, whatever the immediate: the core does not stop on it.\<close>

lemma manual_halt_is_addi:
  "i_op (hw_decode (fields 0x13 0 0 0 lo hi) pc) = OP_ADDI"
  "i_op (hw_decode raw pc) = OP_HALT \<longleftrightarrow> (ucast raw :: 7 word) = 0x73"
proof -
  show "i_op (hw_decode (fields 0x13 0 0 0 lo hi) pc) = OP_ADDI" by (simp add: hw_decode_def decode_fields)
  show "i_op (hw_decode raw pc) = OP_HALT \<longleftrightarrow> (ucast raw :: 7 word) = 0x73" by (simp add: hw_decode_def Let_def)
qed

text \<open>C12. Decoding undoes the encoding \<open>enc_table\<close>: every instruction that has an encoding, of any format and with any
  registers and any immediate that fits, is decoded to itself. The encoding is that of \<open>docs/ISA.md\<close> and RISC-V,
  except for \<open>HALT\<close>, which \<open>docs/ISA.md\<close> puts on the \<open>NOP\<close> encoding and the decoder under the opcode 0x73.\<close>

theorem decode_encode:
  assumes "hw_wf i"
  shows "hw_decode (encode i) (i_pc i) = i"
proof -
  obtain op rd r1 r2 m b1 b2 b3 b4 pc where i: "i = \<lparr>i_op = op, i_rd = rd, i_rs1 = r1, i_rs2 = r2, i_imm = m, i_rd_fp = b1,
      i_rs1_fp = b2, i_rs2_fp = b3, i_rd_valid = b4, i_pc = pc\<rparr>" by (cases i) blast
  show ?thesis using assms unfolding i
    by (cases op; simp add: hw_wf_def enc_table_def fp_arith_op_def imm_fits_def encode_def encode_as_def hw_decode_def
        decode_fields imm_i_fields imm_s_fields imm_b_fields imm_u_fields imm_j_fields shift_bit)
qed

text \<open>\<open>BNE x1, x2, -4\<close>\<close>

definition sample_bne :: instr_t where
  "sample_bne = \<lparr>i_op = OP_BNE, i_rd = 0, i_rs1 = 1, i_rs2 = 2, i_imm = -4, i_rd_fp = False, i_rs1_fp = False,
     i_rs2_fp = False, i_rd_valid = False, i_pc = 64\<rparr>"

theorem decode_encode_witness:
  "encode sample_bne = 0xFE209EE3 \<and> hw_decode (encode sample_bne) 64 = sample_bne"
proof -
  have "hw_wf sample_bne" "encode sample_bne = 0xFE209EE3" "i_pc sample_bne = 64" by code_simp+
  then show ?thesis using decode_encode [of sample_bne] by simp
qed

text \<open>C36. Every word decodes either to an instruction that has an encoding or to \<open>OP_NOP\<close>; but an undefined
  function code under the opcodes of the register-register instructions and of the loads gives a \<open>OP_NOP\<close> that still
  claims its destination register.\<close>

theorem decode_total:
  "hw_wf (hw_decode raw pc) \<or> i_op (hw_decode raw pc) = OP_NOP \<and>
     (i_rd_valid (hw_decode raw pc) \<longleftrightarrow> (ucast raw :: 7 word) = 0x33 \<or> (ucast raw :: 7 word) = 0x03)"
proof -
  let ?op = "ucast raw :: 7 word"
  consider "?op = 0x33" | "?op = 0x13" | "?op = 0x03" | "?op = 0x23" | "?op = 0x63" | "?op = 0x6F" | "?op = 0x67"
    | "?op = 0x37" | "?op = 0x17" | "?op = 0x07" | "?op = 0x27" | "?op = 0x53" | "?op = 0x73"
    | "?op \<notin> {0x33, 0x13, 0x03, 0x23, 0x63, 0x6F, 0x67, 0x37, 0x17, 0x07, 0x27, 0x53, 0x73}"
    by blast
  then show ?thesis by cases (simp_all add: hw_decode_def Let_def wf_defs)
qed

text \<open>The word \<open>0x40007333\<close> is no instruction, yet names \<open>x6\<close> as the register it writes.\<close>

lemma undefined_word_claims_register:
  "i_op (hw_decode 0x40007333 0) = OP_NOP \<and> i_rd_valid (hw_decode 0x40007333 0) \<and> i_rd (hw_decode 0x40007333 0) = 6"
  by code_simp

text \<open>\<open>FCVT.WU.S x5, f6\<close> has the encoding of \<open>FCVT.W.S\<close> with 1 in the field of the second source; the decoder does
  not read it.\<close>

lemma unsigned_conversion_is_signed:
  "hw_decode (fields 0x53 5 1 6 1 0x60) pc = hw_decode (fields 0x53 5 1 6 0 0x60) pc"
  by (simp add: hw_decode_def decode_fields)


end
