(* ===== verification/Hw_Rename.thy ===== *)
theory Hw_Rename
  imports Hw_Rob
begin

text \<open>
  \<open>hardware/core/rat.sv\<close>, \<open>hardware/core/regfile.sv\<close> and \<open>hardware/core/dispatch.sv\<close>: the renaming table, the register
  file and the dispatch unit between them, wired as \<open>tomasulo_core.sv\<close> wires them. In one cycle the hardware retires
  the head of the reorder buffer, puts a result on the bus and dispatches an instruction; forwarding makes the
  dispatched instruction see the state that the simulator reaches by doing the first two before the third.
  An enable with its address and its data is an optional value.
\<close>

section \<open>Register alias table\<close>

record hw_rat =
  t_x_valid :: "bool list"
  t_x_tags :: "tag list"
  t_f_valid :: "bool list"
  t_f_tags :: "tag list"

definition hw_rat_reset :: hw_rat where
  "hw_rat_reset = \<lparr>t_x_valid = replicate NUM_INT_REGS False, t_x_tags = replicate NUM_INT_REGS 0,
     t_f_valid = replicate NUM_FP_REGS False, t_f_tags = replicate NUM_FP_REGS 0\<rparr>"

text \<open>The lookup ports: tag and validity, cleared when the producer retires in this cycle.\<close>

definition hw_x_lookup :: "(arch_reg \<times> tag) option \<Rightarrow> arch_reg \<Rightarrow> hw_rat \<Rightarrow> tag \<times> bool" where
  "hw_x_lookup commit addr t = (let g = t_x_tags t ! unat addr in
     (g, t_x_valid t ! unat addr \<and> commit \<noteq> Some (addr, g)))"

definition hw_f_lookup :: "(arch_reg \<times> tag) option \<Rightarrow> arch_reg \<Rightarrow> hw_rat \<Rightarrow> tag \<times> bool" where
  "hw_f_lookup commit addr t = (let g = t_f_tags t ! unat addr in
     (g, t_f_valid t ! unat addr \<and> commit \<noteq> Some (addr, g)))"

record rat_in =
  m_flush :: bool
  m_x_map :: "(arch_reg \<times> tag) option"
  m_f_map :: "(arch_reg \<times> tag) option"
  m_x_commit :: "(arch_reg \<times> tag) option"
  m_f_commit :: "(arch_reg \<times> tag) option"

text \<open>The clock edge: first the releases, then the mappings, which win.\<close>

definition hw_rat_release :: "rat_in \<Rightarrow> hw_rat \<Rightarrow> hw_rat" where
  "hw_rat_release m t =
     (let t1 = (case m_x_commit m of None \<Rightarrow> t | Some (d, g) \<Rightarrow>
                  if t_x_valid t ! unat d \<and> t_x_tags t ! unat d = g
                  then t\<lparr>t_x_valid := (t_x_valid t)[unat d := False], t_x_tags := (t_x_tags t)[unat d := 0]\<rparr> else t)
      in case m_f_commit m of None \<Rightarrow> t1 | Some (d, g) \<Rightarrow>
           if t_f_valid t ! unat d \<and> t_f_tags t ! unat d = g
           then t1\<lparr>t_f_valid := (t_f_valid t)[unat d := False], t_f_tags := (t_f_tags t)[unat d := 0]\<rparr> else t1)"

definition hw_rat_map :: "rat_in \<Rightarrow> hw_rat \<Rightarrow> hw_rat" where
  "hw_rat_map m t =
     (let t1 = (case m_x_map m of None \<Rightarrow> t | Some (d, g) \<Rightarrow>
                  if d \<noteq> 0 then t\<lparr>t_x_valid := (t_x_valid t)[unat d := True], t_x_tags := (t_x_tags t)[unat d := g]\<rparr>
                  else t)
      in case m_f_map m of None \<Rightarrow> t1 | Some (d, g) \<Rightarrow>
           t1\<lparr>t_f_valid := (t_f_valid t1)[unat d := True], t_f_tags := (t_f_tags t1)[unat d := g]\<rparr>)"

definition hw_rat_clock :: "rat_in \<Rightarrow> hw_rat \<Rightarrow> hw_rat" where
  "hw_rat_clock m t = (if m_flush m then hw_rat_reset else hw_rat_map m (hw_rat_release m t))"

section \<open>Register file\<close>

record hw_regs =
  g_int :: "u32 list"
  g_fp :: "u32 list"

definition hw_regs_reset :: hw_regs where
  "hw_regs_reset = \<lparr>g_int = replicate NUM_INT_REGS 0, g_fp = replicate NUM_FP_REGS 0\<rparr>"

definition hw_regs_clock :: "(arch_reg \<times> u32) option \<Rightarrow> (arch_reg \<times> u32) option \<Rightarrow> hw_regs \<Rightarrow> hw_regs" where
  "hw_regs_clock x_wr f_wr g =
     (let g1 = (case x_wr of None \<Rightarrow> g | Some (d, v) \<Rightarrow> if d \<noteq> 0 then g\<lparr>g_int := (g_int g)[unat d := v]\<rparr> else g)
      in case f_wr of None \<Rightarrow> g1 | Some (d, v) \<Rightarrow> g1\<lparr>g_fp := (g_fp g1)[unat d := v]\<rparr>)"

text \<open>The read ports, with the value written in this cycle bypassed.\<close>

definition hw_x_read :: "(arch_reg \<times> u32) option \<Rightarrow> arch_reg \<Rightarrow> hw_regs \<Rightarrow> u32" where
  "hw_x_read wr addr g = (case wr of
     Some (d, v) \<Rightarrow> if d = addr \<and> d \<noteq> 0 then v else g_int g ! unat addr | None \<Rightarrow> g_int g ! unat addr)"

definition hw_f_read :: "(arch_reg \<times> u32) option \<Rightarrow> arch_reg \<Rightarrow> hw_regs \<Rightarrow> u32" where
  "hw_f_read wr addr g = (case wr of
     Some (d, v) \<Rightarrow> if d = addr then v else g_fp g ! unat addr | None \<Rightarrow> g_fp g ! unat addr)"

section \<open>Dispatch\<close>

record rs_entry_t =
  d_op :: opcode_e
  d_rob_tag :: tag
  d_rs1_ready :: bool
  d_rs1_val :: u32
  d_rs1_tag :: tag
  d_rs2_ready :: bool
  d_rs2_val :: u32
  d_rs2_tag :: tag
  d_imm :: u32
  d_pc :: u32

text \<open>The station of an opcode; \<open>None\<close> is the load/store buffer.\<close>

definition hw_target :: "opcode_e \<Rightarrow> rs_unit option" where
  "hw_target op =
     (if is_branch_op op \<or> is_jump_op op then Some U_BRANCH
      else if op = OP_FADD_S \<or> op = OP_FSUB_S then Some U_FP_ADDSUB
      else if op = OP_FMUL_S then Some U_FP_MUL
      else if op = OP_FDIV_S then Some U_FP_DIV
      else if is_load_op op \<or> is_store_op op then None
      else if op = OP_FCVT_W_S \<or> op = OP_FCVT_S_W then Some U_FP_CVT
      else Some U_ALU)"

text \<open>One source operand: whether it is ready, its value and its tag. The register file, a result in the reorder
  buffer and the bus of this cycle are tried in this order.\<close>

definition hw_operand :: "tag \<times> bool \<Rightarrow> u32 \<Rightarrow> bool \<times> u32 \<Rightarrow> cdb_t \<Rightarrow> bool \<times> u32 \<times> tag" where
  "hw_operand look rf_val rob cdb = (let (tag, in_flight) = look; (done, rob_val) = rob in
     if \<not> in_flight then (True, rf_val, tag)
     else if done then (True, rob_val, tag)
     else if b_valid cdb \<and> b_tag cdb = tag then (True, b_value cdb, tag)
     else (False, 0, tag))"

text \<open>The operand of a register, with the ports of the table, of the register file and of the reorder buffer
  connected.\<close>

definition hw_source :: "bool \<Rightarrow> arch_reg \<Rightarrow> commit_out \<Rightarrow> cdb_t \<Rightarrow> hw_rob \<Rightarrow> hw_rat \<Rightarrow> hw_regs \<Rightarrow> bool \<times> u32 \<times> tag" where
  "hw_source fp q c cdb r t g =
     (let look = (if fp then hw_f_lookup (o_f_commit c) q t else hw_x_lookup (o_x_commit c) q t);
          val = (if fp then hw_f_read (o_f_wr c) q g else hw_x_read (o_x_wr c) q g)
      in hw_operand look val (hw_lookup (fst look) r) cdb)"

record disp_out =
  y_unit :: "rs_unit option"
  y_entry :: rs_entry_t
  y_x_map :: "(arch_reg \<times> tag) option"
  y_f_map :: "(arch_reg \<times> tag) option"

definition hw_dispatch ::
    "instr_t option \<Rightarrow> (rs_unit option \<Rightarrow> bool) \<Rightarrow> commit_out \<Rightarrow> cdb_t \<Rightarrow> hw_rob \<Rightarrow> hw_rat \<Rightarrow> hw_regs \<Rightarrow> disp_out option" where
  "hw_dispatch iq full c cdb r t g = (case iq of None \<Rightarrow> None | Some i \<Rightarrow>
     if hw_rob_full r \<or> full (hw_target (i_op i)) then None
     else let (rdy1, v1, g1) = hw_source (i_rs1_fp i) (i_rs1 i) c cdb r t g;
              (rdy2, v2, g2) = hw_source (i_rs2_fp i) (i_rs2 i) c cdb r t g
          in Some \<lparr>y_unit = hw_target (i_op i),
            y_entry = \<lparr>d_op = i_op i, d_rob_tag = h_tail r, d_rs1_ready = rdy1, d_rs1_val = v1, d_rs1_tag = g1,
              d_rs2_ready = rdy2, d_rs2_val = v2, d_rs2_tag = g2, d_imm = i_imm i, d_pc = i_pc i\<rparr>,
            y_x_map = (if i_rd_valid i \<and> \<not> i_rd_fp i \<and> i_rd i \<noteq> 0 then Some (i_rd i, h_tail r) else None),
            y_f_map = (if i_rd_valid i \<and> i_rd_fp i then Some (i_rd i, h_tail r) else None)\<rparr>)"

section \<open>Relations to the simulator\<close>

definition bank_rel :: "bool list \<Rightarrow> tag list \<Rightarrow> rat_entry list \<Rightarrow> bool" where
  "bank_rel vs gs es \<longleftrightarrow> length vs = 32 \<and> length gs = 32 \<and> length es = 32 \<and>
     (\<forall>k < 32. vs ! k = rat_valid (es ! k) \<and> (vs ! k \<longrightarrow> rat_rob_tag (es ! k) = uint (gs ! k)))"

definition rat_rel :: "hw_rat \<Rightarrow> rat \<Rightarrow> bool" where
  "rat_rel h t \<longleftrightarrow> bank_rel (t_x_valid h) (t_x_tags h) (int_rat t) \<and> bank_rel (t_f_valid h) (t_f_tags h) (fp_rat t) \<and>
     \<not> t_x_valid h ! 0"

definition regs_rel :: "hw_regs \<Rightarrow> regfile \<Rightarrow> bool" where
  "regs_rel g rf \<longleftrightarrow> regfile_wf rf \<and> g_int g = int_regs rf \<and> g_fp g = map float_to_bits (fp_regs rf)"


text \<open>What the simulator's invariants give (\<open>wf_instr\<close>, \<open>rename_table_consistent\<close>), with jumps left out: the head of the
  buffer has a destination only if it writes its result there, and the producer of a register is in the buffer.\<close>

definition plain :: "rob_entry \<Rightarrow> bool" where
  "plain e \<longleftrightarrow> r_rd e < 32 \<and> (0 \<le> r_rd e \<longrightarrow> \<not> is_branch (r_op e) \<and> \<not> is_jump (r_op e) \<and> \<not> is_store (r_op e) \<and> r_op e \<noteq> Op_HALT)"

definition producer_ok :: "rob \<Rightarrow> rat \<Rightarrow> int \<Rightarrow> bool \<Rightarrow> bool" where
  "producer_ok b t q fp \<longleftrightarrow> (case rat_producer t q fp of None \<Rightarrow> True | Some g \<Rightarrow>
     r_state (rob_entries b ! nat g) \<noteq> ROB_IDLE \<and> r_rd (rob_entries b ! nat g) = q \<and> r_rd_fp (rob_entries b ! nat g) = fp \<and>
     plain (rob_entries b ! nat g))"

text \<open>The simulator's commit, then the result on the bus.\<close>

definition commit_then_result :: "rob_in \<Rightarrow> hw_rob \<Rightarrow> commit_state \<Rightarrow> commit_state res" where
  "commit_then_result a r c = res_bind (cu_tick c) (\<lambda>(_, c1).
     res_bind (if hw_cdb_hit a r then rob_write_result (uint (b_tag (a_cdb a))) (b_value (a_cdb a)) (cs_rob c1)
               else Inr (cs_rob c1)) (\<lambda>b. Inr (c1\<lparr>cs_rob := b\<rparr>)))"

text \<open>The outputs of the commit unit in a cycle, and the inputs it gives the table.\<close>

definition cycle_commit :: "hw_rob \<Rightarrow> commit_out" where
  "cycle_commit r = hw_commit_unit (hw_commit_valid r) (hw_commit_entry r) (h_head r)"

definition cycle_rat_in :: "hw_rob \<Rightarrow> disp_out option \<Rightarrow> rat_in" where
  "cycle_rat_in r d = \<lparr>m_flush = o_flush (cycle_commit r), m_x_map = Option.bind d y_x_map, m_f_map = Option.bind d y_f_map,
     m_x_commit = o_x_commit (cycle_commit r), m_f_commit = o_f_commit (cycle_commit r)\<rparr>"

definition cycle_regs :: "hw_rob \<Rightarrow> hw_regs \<Rightarrow> hw_regs" where
  "cycle_regs r g = hw_regs_clock (o_x_wr (cycle_commit r)) (o_f_wr (cycle_commit r)) g"

section \<open>Table and register file\<close>

lemma reg_lt [simp]: "unat (q :: arch_reg) < 32"
  using unsigned_less [of q, where ?'a = nat] by simp

lemma reg_index_ok [simp]: "rat_index_ok (uint (q :: arch_reg)) fp"
  using unsigned_less [of q, where ?'a = int] by (simp add: rat_index_ok_def)

lemma bank_rel_set:
  assumes "bank_rel vs gs es" and "k < 32"
  shows "bank_rel (vs[k := True]) (gs[k := g]) (es[k := \<lparr>rat_valid = True, rat_rob_tag = uint g\<rparr>])"
    and "bank_rel (vs[k := False]) (gs[k := 0]) (es[k := empty_rat_entry])"
  using assms by (auto simp: bank_rel_def nth_list_update empty_rat_entry_def)

lemma bank_rel_nth:
  assumes "bank_rel vs gs es"
  shows "rat_valid (es ! unat (q :: arch_reg)) = vs ! unat q"
    and "vs ! unat q \<Longrightarrow> rat_rob_tag (es ! unat q) = uint (gs ! unat q)"
  using assms by (auto simp: bank_rel_def)

lemma release_x_refines:
  assumes "rat_rel h t" and "m_x_commit m = Some (d, g)" and "m_f_commit m = None"
  shows "\<exists>t'. rat_commit (uint d) False (uint g) t = Inr t' \<and> rat_rel (hw_rat_release m h) t'"
proof -
  have b: "bank_rel (t_x_valid h) (t_x_tags h) (int_rat t)" using assms(1) by (simp add: rat_rel_def)
  have "t_x_valid h ! unat d \<Longrightarrow> unat d \<noteq> 0" using assms(1) unfolding rat_rel_def by metis
  then show ?thesis
    using assms bank_rel_nth [OF b, of d] bank_rel_set(2) [OF b reg_lt [of d]]
    by (auto simp: rat_commit_def rat_lookup_def hw_rat_release_def Let_def rat_set_def rat_rel_def
        simp flip: word_uint_eq_iff)
qed

lemma release_f_refines:
  assumes "rat_rel h t" and "m_x_commit m = None" and "m_f_commit m = Some (d, g)"
  shows "\<exists>t'. rat_commit (uint d) True (uint g) t = Inr t' \<and> rat_rel (hw_rat_release m h) t'"
proof -
  have b: "bank_rel (t_f_valid h) (t_f_tags h) (fp_rat t)" using assms(1) by (simp add: rat_rel_def)
  then show ?thesis
    using assms bank_rel_nth [OF b, of d] bank_rel_set(2) [OF b reg_lt [of d]]
    by (auto simp: rat_commit_def rat_lookup_def hw_rat_release_def Let_def rat_set_def rat_rel_def
        simp flip: word_uint_eq_iff)
qed

lemma map_refines:
  assumes "rat_rel h t" and "m_x_map m = (if fp \<or> d = 0 then None else Some (d, g))"
    and "m_f_map m = (if fp then Some (d, g) else None)"
  shows "\<exists>t'. rat_map (uint d) fp (uint g) t = Inr t' \<and> rat_rel (hw_rat_map m h) t'"
proof -
  have b: "bank_rel (t_x_valid h) (t_x_tags h) (int_rat t)" "bank_rel (t_f_valid h) (t_f_tags h) (fp_rat t)"
    using assms(1) by (simp_all add: rat_rel_def)
  have "d \<noteq> 0 \<Longrightarrow> unat d \<noteq> 0" by (simp add: unat_eq_zero)
  moreover have "uint d = 0 \<longleftrightarrow> d = 0" by (simp add: unsigned_eq_0_iff)
  ultimately show ?thesis
    using assms bank_rel_set(1) [OF b(1) reg_lt [of d], of g] bank_rel_set(1) [OF b(2) reg_lt [of d], of g]
    by (auto simp: rat_map_def hw_rat_map_def Let_def rat_set_def rat_rel_def)
qed

lemma write_x_refines:
  assumes "regs_rel g rf"
  shows "\<exists>rf'. write_int (uint d) v rf = Inr rf' \<and> regs_rel (hw_regs_clock (Some (d, v)) None g) rf'"
proof -
  have "uint d = 0 \<longleftrightarrow> d = 0" "unat d = 0 \<longleftrightarrow> d = 0" by (simp_all add: unsigned_eq_0_iff)
  then show ?thesis
    using assms reg_index_ok [of d False]
    by (auto simp: write_int_def regs_rel_def regfile_wf_def hw_regs_clock_def Let_def rat_index_ok_def)
qed

lemma write_f_refines:
  assumes "regs_rel g rf"
  shows "\<exists>rf'. write_fp (uint d) (bits_to_float v) rf = Inr rf' \<and> regs_rel (hw_regs_clock None (Some (d, v)) g) rf'"
  using assms reg_index_ok [of d True]
  by (auto simp: write_fp_def regs_rel_def regfile_wf_def hw_regs_clock_def Let_def rat_index_ok_def map_update)


text \<open>A lookup that is cleared forward, and a read that is bypassed, see the state after the edge.\<close>

lemma lookup_forward:
  assumes "rat_rel h t"
  shows "snd (hw_x_lookup (m_x_commit m) q h) = t_x_valid (hw_rat_release m h) ! unat q"
    and "snd (hw_x_lookup (m_x_commit m) q h) \<Longrightarrow> fst (hw_x_lookup (m_x_commit m) q h) = t_x_tags (hw_rat_release m h) ! unat q"
    and "snd (hw_f_lookup (m_f_commit m) q h) = t_f_valid (hw_rat_release m h) ! unat q"
    and "snd (hw_f_lookup (m_f_commit m) q h) \<Longrightarrow> fst (hw_f_lookup (m_f_commit m) q h) = t_f_tags (hw_rat_release m h) ! unat q"
  using assms
  by (auto simp: hw_x_lookup_def hw_f_lookup_def hw_rat_release_def Let_def rat_rel_def bank_rel_def nth_list_update
      word_unat_eq_iff split: option.splits)

lemma read_forward:
  assumes "regs_rel g rf"
  shows "hw_x_read x_wr q g = g_int (hw_regs_clock x_wr f_wr g) ! unat q"
    and "hw_f_read f_wr q g = g_fp (hw_regs_clock x_wr f_wr g) ! unat q"
  using assms
  by (auto simp: hw_x_read_def hw_f_read_def hw_regs_clock_def Let_def regs_rel_def regfile_wf_def nth_list_update
      word_unat_eq_iff split: option.splits)

section \<open>The retired instruction\<close>

lemma uint_of_reg: "0 \<le> d \<Longrightarrow> d < 32 \<Longrightarrow> uint (of_int d :: arch_reg) = d"
  by (simp add: uint_word_of_int)

lemma cu_tick_plain:
  assumes "cu_tick c = Inr (k, c')" and "rob_head_ready (cs_rob c)" and "plain (rob_entries (cs_rob c) ! rob_head (cs_rob c))"
  defines "e \<equiv> rob_entries (cs_rob c) ! rob_head (cs_rob c)"
  shows "rob_commit (cs_rob c) = Inr (e, cs_rob c')"
    and "if r_rd e < 0 then cs_rf c' = cs_rf c \<and> cs_rat c' = cs_rat c
         else (if r_rd_fp e then write_fp (r_rd e) (bits_to_float (r_result e)) (cs_rf c)
               else write_int (r_rd e) (r_result e) (cs_rf c)) = Inr (cs_rf c') \<and>
              rat_commit (r_rd e) (r_rd_fp e) (int (rob_head (cs_rob c))) (cs_rat c) = Inr (cs_rat c')"
  using assms(1-3)
  by (auto simp: cu_tick_def cu_retire_def Let_def rob_commit_def rob_head_tag_def rob_head_ready_def e_def plain_def
      split: if_splits)

lemma retire_refines:
  assumes rel: "rob_rel r (cs_rob c)" "rat_rel h (cs_rat c)" "regs_rel g (cs_rf c)"
    and tick: "cu_tick c = Inr (k, c')"
    and head: "rob_head_ready (cs_rob c) \<Longrightarrow> plain (rob_entries (cs_rob c) ! rob_head (cs_rob c))"
    and m: "m_x_commit m = o_x_commit (cycle_commit r)" "m_f_commit m = o_f_commit (cycle_commit r)"
  shows "rat_rel (hw_rat_release m h) (cs_rat c') \<and> regs_rel (cycle_regs r g) (cs_rf c')"
proof (cases "hw_commit_valid r")
  case False
  then have "c' = c\<lparr>cs_last := empty_commit_record\<rparr>" using tick cu_tick_idle rob_rel_head [OF rel(1)] by auto
  then show ?thesis
    using False rel m by (simp add: cycle_commit_def hw_commit_unit_def hw_rat_release_def cycle_regs_def hw_regs_clock_def)
next
  case True
  let ?b = "cs_rob c" and ?x = "hw_commit_entry r"
  let ?e = "rob_entries ?b ! rob_head ?b"
  have ready: "rob_head_ready ?b" using True rob_rel_head [OF rel(1)] by simp
  note p = head [OF ready] and t = cu_tick_plain(2) [OF tick ready head [OF ready]]
  have "rob_head ?b < 16" and hd: "unat (h_head r) = rob_head ?b" using rel(1) by (auto simp: rob_rel_def rob_wf_def)
  then have er: "entry_rel ?x ?e" using rob_rel_entry(1) [OF rel(1)] by (simp add: hw_commit_entry_def)
  have dn: "r_state ?e = ROB_DONE" using ready by (simp add: rob_head_ready_def)
  have tag: "int (rob_head ?b) = uint (h_head r)" by (simp flip: hd)
  show ?thesis
  proof (cases "r_rd ?e < 0")
    case True
    then have "\<not> e_rd_valid ?x" using er dn by (simp add: entry_rel_def)
    then show ?thesis
      using True t rel m by (simp add: cycle_commit_def hw_commit_unit_def hw_rat_release_def cycle_regs_def hw_regs_clock_def)
  next
    case False
    then have d: "e_rd_valid ?x" "uint (e_rd ?x) = r_rd ?e" "e_rd_fp ?x = r_rd_fp ?e" "e_result ?x = r_result ?e"
      using er dn p by (auto simp: entry_rel_def plain_def uint_of_reg)
    show ?thesis
      using False True t d m tag release_x_refines [OF rel(2), of m "e_rd ?x" "h_head r"] release_f_refines [OF rel(2), of m "e_rd ?x" "h_head r"]
        write_x_refines [OF rel(3), of "e_rd ?x" "e_result ?x"] write_f_refines [OF rel(3), of "e_rd ?x" "e_result ?x"]
      by (cases "r_rd_fp ?e") (auto simp: cycle_commit_def hw_commit_unit_def cycle_regs_def \<open>hw_commit_valid r\<close>)
  qed
qed


section \<open>The operand of the dispatched instruction\<close>

text \<open>Looking up the two banks alike.\<close>

definition hw_bank :: "bool \<Rightarrow> hw_rat \<Rightarrow> bool list \<times> tag list" where
  "hw_bank fp h = (if fp then (t_f_valid h, t_f_tags h) else (t_x_valid h, t_x_tags h))"

lemma rat_lookup_rel:
  assumes "rat_rel h t"
  obtains e where "rat_lookup (uint (q :: arch_reg)) fp t = Inr e" and "rat_valid e = fst (hw_bank fp h) ! unat q"
    and "rat_valid e \<Longrightarrow> rat_rob_tag e = uint (snd (hw_bank fp h) ! unat q)"
  using assms bank_rel_nth [of "t_x_valid h" "t_x_tags h" "int_rat t" q] bank_rel_nth [of "t_f_valid h" "t_f_tags h" "fp_rat t" q]
  by (intro that [of "if fp then fp_rat t ! unat q else int_rat t ! unat q"])
     (auto simp: rat_lookup_def hw_bank_def rat_rel_def)

definition hw_look :: "bool \<Rightarrow> arch_reg \<Rightarrow> commit_out \<Rightarrow> hw_rat \<Rightarrow> tag \<times> bool" where
  "hw_look fp q c h = (if fp then hw_f_lookup (o_f_commit c) q h else hw_x_lookup (o_x_commit c) q h)"

lemma look_forward:
  assumes "rat_rel h t" and "m_x_commit m = o_x_commit c" "m_f_commit m = o_f_commit c"
  shows "snd (hw_look fp q c h) = fst (hw_bank fp (hw_rat_release m h)) ! unat q"
    and "snd (hw_look fp q c h) \<Longrightarrow> fst (hw_look fp q c h) = snd (hw_bank fp (hw_rat_release m h)) ! unat q"
    and "fst (hw_look fp q c h) = snd (hw_bank fp h) ! unat q"
    and "snd (hw_look fp q c h) \<Longrightarrow> fst (hw_bank fp h) ! unat q"
  using lookup_forward [OF assms(1), of m q] assms(2,3)
  by (auto simp: hw_look_def hw_bank_def hw_x_lookup_def hw_f_lookup_def Let_def)

text \<open>The slot of a producer that stays in the buffer, after the commit, the result and the allocation.\<close>

lemma rob_commit_other:
  "rob_commit b = Inr (e, b') \<Longrightarrow> (k \<noteq> rob_head b \<longrightarrow> rob_entries b' ! k = rob_entries b ! k) \<and> rob_size b' = rob_size b \<and>
     length (rob_entries b') = length (rob_entries b) \<and> rob_tail b' = rob_tail b \<and> rob_count b' = rob_count b - 1"
  by (auto simp: rob_commit_def)

lemma producer_slot:
  fixes g :: tag
  assumes rel: "rob_rel r (cs_rob c)" and view: "commit_then_result a r c = Inr c'" and "\<not> rob_full (cs_rob c)"
    and head: "rob_head_ready (cs_rob c) \<Longrightarrow> plain (rob_entries (cs_rob c) ! rob_head (cs_rob c)) \<and> unat g \<noteq> rob_head (cs_rob c)"
    and live: "r_state (rob_entries (cs_rob c) ! unat g) \<noteq> ROB_IDLE"
  shows "rob_peek (uint g) (snd (rob_allocate i (cs_rob c'))) = Inr (if hw_cdb_hit a r \<and> b_tag (a_cdb a) = g
     then (rob_entries (cs_rob c) ! unat g)\<lparr>r_result := b_value (a_cdb a), r_state := ROB_DONE\<rparr> else rob_entries (cs_rob c) ! unat g)"
proof -
  let ?b = "cs_rob c" and ?t = "b_tag (a_cdb a)"
  obtain k c1 b2 where c1: "cu_tick c = Inr (k, c1)" and c': "c' = c1\<lparr>cs_rob := b2\<rparr>"
    and b2: "(if hw_cdb_hit a r then rob_write_result (uint ?t) (b_value (a_cdb a)) (cs_rob c1) else Inr (cs_rob c1)) = Inr b2"
    using view by (auto simp: commit_then_result_def split: prod.splits)
  have R: "rob_size ?b = 16" "length (rob_entries ?b) = 16" "rob_head ?b < 16" "rob_count ?b < 16"
    "rob_tail ?b = (rob_head ?b + rob_count ?b) mod 16"
    using rel assms(3) by (auto simp: rob_rel_def rob_wf_def rob_full_def)
  have tl: "unat g \<noteq> rob_tail ?b"
    using rob_rel_entry(2) [OF rel tag_lt live] live_bounds(2) [OF R(3) less_imp_le [OF R(4)] R(4)] R(5) by auto
  have b1: "rob_entries (cs_rob c1) ! unat g = rob_entries ?b ! unat g \<and> rob_size (cs_rob c1) = 16 \<and>
      length (rob_entries (cs_rob c1)) = 16 \<and> rob_tail (cs_rob c1) = rob_tail ?b"
  proof (cases "rob_head_ready ?b")
    case True
    then show ?thesis using rob_commit_other [OF cu_tick_plain(1) [OF c1 True]] head R by simp
  qed (use c1 cu_tick_idle R in auto)
  have "rob_entries b2 ! unat g = (if hw_cdb_hit a r \<and> ?t = g
     then (rob_entries ?b ! unat g)\<lparr>r_result := b_value (a_cdb a), r_state := ROB_DONE\<rparr> else rob_entries ?b ! unat g) \<and>
     rob_size b2 = 16 \<and> length (rob_entries b2) = 16 \<and> rob_tail b2 = rob_tail ?b"
    using b1 b2 by (auto simp: rob_write_result_def nth_list_update word_unat_eq_iff split: if_splits)
  moreover have "uint g < 16" using unsigned_less [of g, where ?'a = int] by simp
  ultimately show ?thesis
    using tl by (auto simp: c' rob_peek_def rob_allocate_def Let_def)
qed

lemma source_refines:
  assumes rel: "rob_rel r (cs_rob c)" "rat_rel h (cs_rat c)" "regs_rel g (cs_rf c)"
    and view: "commit_then_result a r c = Inr c'" and room: "\<not> rob_full (cs_rob c)"
    and head: "rob_head_ready (cs_rob c) \<longrightarrow> plain (rob_entries (cs_rob c) ! rob_head (cs_rob c))"
    and prod: "producer_ok (cs_rob c) (cs_rat c) (uint q) fp"
  shows "resolve_operand (uint q) fp (cs_rat c') (cs_rf c') (snd (rob_allocate i (cs_rob c'))) v0 =
     Inr (case hw_source fp q (cycle_commit r) (a_cdb a) r h g of (ready, v, t) \<Rightarrow> if ready then (v, -1) else (v0, uint t))"
proof -
  let ?b = "cs_rob c"
  define m where "m = cycle_rat_in r None"
  have m: "m_x_commit m = o_x_commit (cycle_commit r)" "m_f_commit m = o_f_commit (cycle_commit r)"
    by (simp_all add: m_def cycle_rat_in_def)
  obtain k c1 where c1: "cu_tick c = Inr (k, c1)" and c': "cs_rat c' = cs_rat c1" "cs_rf c' = cs_rf c1"
    using view by (auto simp: commit_then_result_def split: prod.splits)
  have R: "rat_rel (hw_rat_release m h) (cs_rat c')" "regs_rel (cycle_regs r g) (cs_rf c')"
    using retire_refines [OF rel c1 _ m] head c' by auto
  note look = look_forward [OF rel(2) m, of fp q]
  let ?l = "hw_look fp q (cycle_commit r) h"
  obtain e where e: "rat_lookup (uint q) fp (cs_rat c') = Inr e" "rat_valid e = snd ?l"
      "rat_valid e \<Longrightarrow> rat_rob_tag e = uint (fst ?l)"
    using rat_lookup_rel [OF R(1), of q fp] look(1,2) by metis
  have src: "hw_source fp q (cycle_commit r) (a_cdb a) r h g = hw_operand ?l
      (if fp then hw_f_read (o_f_wr (cycle_commit r)) q g else hw_x_read (o_x_wr (cycle_commit r)) q g) (hw_lookup (fst ?l) r) (a_cdb a)"
    by (simp add: hw_source_def hw_look_def Let_def)
  show ?thesis
  proof (cases "snd ?l")
    case False
    have "reg_bits (cs_rf c') (uint q) fp = (if fp then hw_f_read (o_f_wr (cycle_commit r)) q g else hw_x_read (o_x_wr (cycle_commit r)) q g)"
      using R(2) read_forward [OF rel(3), where q = q and x_wr = "o_x_wr (cycle_commit r)" and f_wr = "o_f_wr (cycle_commit r)"]
      by (auto simp: reg_bits_def regs_rel_def regfile_wf_def cycle_regs_def)
    moreover have "rat_producer (cs_rat c') (uint q) fp = None" using e False by (simp add: rat_producer_def)
    ultimately show ?thesis
      using False resolve_committed [OF reg_index_ok, of "cs_rat c'" q fp] by (simp add: src hw_operand_def case_prod_beta)
  next
    case True
    let ?g = "fst ?l"
    let ?e = "rob_entries ?b ! unat ?g"
    obtain e0 where "rat_lookup (uint q) fp (cs_rat c) = Inr e0" "rat_valid e0" "rat_rob_tag e0 = uint ?g"
      using rat_lookup_rel [OF rel(2), of q fp] look(3,4) True by metis
    then have p: "r_state ?e \<noteq> ROB_IDLE" "r_rd ?e = uint q" "r_rd_fp ?e = fp" "plain ?e"
      using prod by (auto simp: producer_ok_def rat_producer_def)
    have er: "entry_rel (h_entries r ! unat ?g) ?e" using rob_rel_entry(1) [OF rel(1) tag_lt] .
    have x: "e_rd_valid (h_entries r ! unat ?g)" "e_rd (h_entries r ! unat ?g) = q" "e_rd_fp (h_entries r ! unat ?g) = fp"
        "\<not> e_is_branch (h_entries r ! unat ?g)"
      using er p by (auto simp: entry_rel_def plain_def)
    have "unat ?g \<noteq> rob_head ?b" if "rob_head_ready ?b"
    proof
      assume "unat ?g = rob_head ?b"
      then have "h_head r = ?g" using rel(1) by (simp add: rob_rel_def word_unat_eq_iff)
      then have "\<not> snd ?l"
        using x that rob_rel_head [OF rel(1)]
        by (cases fp) (auto simp: hw_look_def cycle_commit_def hw_commit_unit_def hw_commit_entry_def hw_x_lookup_def hw_f_lookup_def Let_def)
      then show False using True by simp
    qed
    then have "rob_peek (uint ?g) (snd (rob_allocate i (cs_rob c'))) = Inr (if hw_cdb_hit a r \<and> b_tag (a_cdb a) = ?g
       then ?e\<lparr>r_result := b_value (a_cdb a), r_state := ROB_DONE\<rparr> else ?e)"
      using producer_slot [OF rel(1) view room _ p(1)] head by blast
    moreover have "hw_lookup ?g r = (r_state ?e = ROB_DONE, e_result (h_entries r ! unat ?g))"
        "r_state ?e = ROB_DONE \<Longrightarrow> e_result (h_entries r ! unat ?g) = r_result ?e"
      using er x(4) by (auto simp: hw_lookup_def Let_def entry_rel_def)
    moreover have "hw_cdb_hit a r \<and> b_tag (a_cdb a) = ?g \<longleftrightarrow> b_valid (a_cdb a) \<and> b_tag (a_cdb a) = ?g \<and> r_state ?e \<noteq> ROB_DONE"
      using er p(1) by (cases "r_state ?e") (auto simp: hw_cdb_hit_def entry_rel_def)
    ultimately show ?thesis
      using True e by (auto simp: src hw_operand_def case_prod_beta resolve_operand_def)
  qed
qed


section \<open>Dispatch\<close>

text \<open>The decoded instruction of the core for one of the simulator, with its sources; an absent source is \<open>x0\<close>.\<close>

definition reg_rel :: "arch_reg \<Rightarrow> bool \<Rightarrow> int \<Rightarrow> bool \<Rightarrow> bool" where
  "reg_rel q fp r rfp \<longleftrightarrow> (if r < 0 then q = 0 \<and> \<not> fp else r = uint q \<and> fp = rfp)"

definition full_instr_rel :: "instr_t \<Rightarrow> instruction \<Rightarrow> bool" where
  "full_instr_rel x i \<longleftrightarrow> instr_rel x i \<and> in_rd i < 32 \<and> reg_rel (i_rs1 x) (i_rs1_fp x) (in_rs1 i) (in_rs1_fp i) \<and>
     reg_rel (i_rs2 x) (i_rs2_fp x) (in_rs2 i) (in_rs2_fp i) \<and> i_imm x = hw_imm (in_op i) (in_imm i)"

lemma hw_target_refines: "hw_target (hw_op op) = target_unit op"
  by (cases op) (simp_all add: hw_target_def hw_op_def target_unit_def class_defs is_branch_op_def is_jump_op_def
      is_load_op_def is_store_op_def)

lemma view_tail:
  assumes "rob_rel r (cs_rob c)" and "commit_then_result a r c = Inr c'" and "\<not> rob_full (cs_rob c)"
    and "rob_head_ready (cs_rob c) \<longrightarrow> plain (rob_entries (cs_rob c) ! rob_head (cs_rob c))"
  shows "fst (rob_allocate i (cs_rob c')) = uint (h_tail r)"
proof -
  obtain k c1 b2 where c1: "cu_tick c = Inr (k, c1)" and c': "c' = c1\<lparr>cs_rob := b2\<rparr>"
    and b2: "(if hw_cdb_hit a r then rob_write_result (uint (b_tag (a_cdb a))) (b_value (a_cdb a)) (cs_rob c1)
      else Inr (cs_rob c1)) = Inr b2"
    using assms(2) by (auto simp: commit_then_result_def split: prod.splits)
  have "rob_tail (cs_rob c1) = rob_tail (cs_rob c) \<and> rob_size (cs_rob c1) = rob_size (cs_rob c) \<and>
      rob_count (cs_rob c1) \<le> rob_count (cs_rob c)"
  proof (cases "rob_head_ready (cs_rob c)")
    case True
    then show ?thesis using rob_commit_other [OF cu_tick_plain(1) [OF c1 True]] assms(4) by simp
  qed (use c1 cu_tick_idle in auto)
  moreover have "rob_tail b2 = rob_tail (cs_rob c1) \<and> rob_size b2 = rob_size (cs_rob c1) \<and> rob_count b2 = rob_count (cs_rob c1)"
    using b2 by (auto simp: rob_write_result_def split: if_splits)
  moreover have "rob_count (cs_rob c) < rob_size (cs_rob c)" and tl: "unat (h_tail r) = rob_tail (cs_rob c)"
    using assms(1,3) by (auto simp: rob_rel_def rob_wf_def rob_full_def)
  moreover have "int (rob_tail (cs_rob c)) = uint (h_tail r)" by (simp flip: tl)
  ultimately show ?thesis by (auto simp: c' rob_allocate_def rob_full_def Let_def)
qed

text \<open>A source, present or not.\<close>

lemma any_source_refines:
  assumes rel: "rob_rel r (cs_rob c)" "rat_rel h (cs_rat c)" "regs_rel g (cs_rf c)"
    and "commit_then_result a r c = Inr c'" and "\<not> rob_full (cs_rob c)"
    and "rob_head_ready (cs_rob c) \<longrightarrow> plain (rob_entries (cs_rob c) ! rob_head (cs_rob c))"
    and prod: "producer_ok (cs_rob c) (cs_rat c) rs rs_fp" and q: "reg_rel q fp rs rs_fp"
  shows "resolve_operand rs rs_fp (cs_rat c') (cs_rf c') (snd (rob_allocate i (cs_rob c'))) v0 =
     Inr (case hw_source fp q (cycle_commit r) (a_cdb a) r h g of (ready, v, t) \<Rightarrow> if ready then (v, -1) else (v0, uint t))"
proof (cases "rs < 0")
  case True
  then have q0: "q = 0" "\<not> fp" using q by (auto simp: reg_rel_def)
  have "hw_source fp q (cycle_commit r) (a_cdb a) r h g = (True, 0, t_x_tags h ! 0)"
    using q0 rel(2,3) by (auto simp: hw_source_def hw_x_lookup_def hw_x_read_def hw_operand_def Let_def rat_rel_def
        regs_rel_def regfile_wf_def split: option.splits)
  then show ?thesis using True by (simp add: resolve_unused)
next
  case False
  then have "rs = uint q" "rs_fp = fp" using q by (auto simp: reg_rel_def)
  then show ?thesis using source_refines [OF assms(1-6), of q fp i v0] prod by simp
qed

section \<open>Properties\<close>

text \<open>C11. The dispatch stage of the core refines the one of the simulator. In a cycle in which the hardware dispatches
  an instruction while it retires the head of the reorder buffer and receives a result from the bus, the simulator,
  after its own commit and broadcast, chooses the same station, allocates the same tag, resolves both sources to the
  same value or to the same producer, and its register file and renaming table after the dispatch are those of the
  hardware after the clock edge.\<close>

theorem hw_dispatch_refines:
  assumes rel: "rob_rel r (cs_rob c)" "rat_rel h (cs_rat c)" "regs_rel g (cs_rf c)"
    and view: "commit_then_result a r c = Inr c'" and flush: "\<not> o_flush (cycle_commit r)"
    and head: "rob_head_ready (cs_rob c) \<longrightarrow> plain (rob_entries (cs_rob c) ! rob_head (cs_rob c))"
    and instr: "full_instr_rel x i"
    and prod: "producer_ok (cs_rob c) (cs_rat c) (in_rs1 i) (in_rs1_fp i)" "producer_ok (cs_rob c) (cs_rat c) (in_rs2 i) (in_rs2_fp i)"
    and disp: "hw_dispatch (Some x) full (cycle_commit r) (a_cdb a) r h g = Some d"
  shows "y_unit d = target_unit (in_op i) \<and>
    fst (rob_allocate i (cs_rob c')) = uint (d_rob_tag (y_entry d)) \<and>
    resolve_operand (in_rs1 i) (in_rs1_fp i) (cs_rat c') (cs_rf c') (snd (rob_allocate i (cs_rob c'))) v0 =
      Inr (if d_rs1_ready (y_entry d) then (d_rs1_val (y_entry d), -1) else (v0, uint (d_rs1_tag (y_entry d)))) \<and>
    resolve_operand (in_rs2 i) (in_rs2_fp i) (cs_rat c') (cs_rf c') (snd (rob_allocate i (cs_rob c'))) v0 =
      Inr (if d_rs2_ready (y_entry d) then (d_rs2_val (y_entry d), -1) else (v0, uint (d_rs2_tag (y_entry d)))) \<and>
    regs_rel (cycle_regs r g) (cs_rf c') \<and>
    returns (map_destination i (uint (d_rob_tag (y_entry d))) (cs_rat c')) (rat_rel (hw_rat_clock (cycle_rat_in r (Some d)) h))"
proof -
  have room: "\<not> rob_full (cs_rob c)" using disp rob_rel_full [OF rel(1)] by (auto simp: hw_dispatch_def split: if_splits)
  have d: "y_unit d = hw_target (i_op x)" "d_rob_tag (y_entry d) = h_tail r"
    "hw_source (i_rs1_fp x) (i_rs1 x) (cycle_commit r) (a_cdb a) r h g = (d_rs1_ready (y_entry d), d_rs1_val (y_entry d), d_rs1_tag (y_entry d))"
    "hw_source (i_rs2_fp x) (i_rs2 x) (cycle_commit r) (a_cdb a) r h g = (d_rs2_ready (y_entry d), d_rs2_val (y_entry d), d_rs2_tag (y_entry d))"
    "y_x_map d = (if i_rd_valid x \<and> \<not> i_rd_fp x \<and> i_rd x \<noteq> 0 then Some (i_rd x, h_tail r) else None)"
    "y_f_map d = (if i_rd_valid x \<and> i_rd_fp x then Some (i_rd x, h_tail r) else None)"
    using disp by (auto simp: hw_dispatch_def split: if_splits prod.splits)
  obtain k c1 where c1: "cu_tick c = Inr (k, c1)" and c': "cs_rat c' = cs_rat c1" "cs_rf c' = cs_rf c1"
    using view by (auto simp: commit_then_result_def split: prod.splits)
  let ?m = "cycle_rat_in r (Some d)"
  have R: "rat_rel (hw_rat_release ?m h) (cs_rat c')" "regs_rel (cycle_regs r g) (cs_rf c')"
    using retire_refines [OF rel c1, of ?m] head c' by (auto simp: cycle_rat_in_def)
  have clock: "hw_rat_clock ?m h = hw_rat_map ?m (hw_rat_release ?m h)"
    using flush by (simp add: hw_rat_clock_def cycle_rat_in_def)
  have i: "i_op x = hw_op (in_op i)" "i_rd_valid x = (0 \<le> in_rd i)" "i_rd_fp x = in_rd_fp i"
      "0 \<le> in_rd i \<Longrightarrow> uint (i_rd x) = in_rd i"
    using instr by (auto simp: full_instr_rel_def instr_rel_def uint_of_reg)
  have "returns (map_destination i (uint (h_tail r)) (cs_rat c')) (rat_rel (hw_rat_clock ?m h))"
  proof (cases "0 \<le> in_rd i")
    case True
    have "m_x_map ?m = (if in_rd_fp i \<or> i_rd x = 0 then None else Some (i_rd x, h_tail r))"
        "m_f_map ?m = (if in_rd_fp i then Some (i_rd x, h_tail r) else None)"
      using True d(5,6) i by (auto simp: cycle_rat_in_def)
    then obtain t' where "rat_map (uint (i_rd x)) (in_rd_fp i) (uint (h_tail r)) (cs_rat c') = Inr t'"
        "rat_rel (hw_rat_map ?m (hw_rat_release ?m h)) t'"
      using map_refines [OF R(1), of ?m "in_rd_fp i" "i_rd x" "h_tail r"] by blast
    then show ?thesis using True i(4) by (simp add: map_destination_def clock)
  next
    case False
    then have "m_x_map ?m = None" "m_f_map ?m = None" using d(5,6) i(2) by (simp_all add: cycle_rat_in_def)
    then show ?thesis using False R(1) by (simp add: map_destination_def clock hw_rat_map_def)
  qed
  then show ?thesis
    using any_source_refines [OF rel view room head prod(1), of "i_rs1 x" "i_rs1_fp x" i v0] any_source_refines [OF rel view room head prod(2), of "i_rs2 x" "i_rs2_fp x" i v0]
      instr d(1-4) i(1) R(2) view_tail [OF rel(1) view room head] hw_target_refines
    by (simp add: full_instr_rel_def)
qed


text \<open>\<open>x1 := 7\<close> is at the head of the buffer and done when \<open>ADD x2, x1, x1\<close> is dispatched.\<close>

definition sample_add :: instruction where
  "sample_add = default_instruction\<lparr>in_op := Op_ADD, in_rd := 2, in_rs1 := 1, in_rs2 := 1, in_pc := 4\<rparr>"

definition sample_hw_add :: instr_t where
  "sample_hw_add = \<lparr>i_op = OP_ADD, i_rd = 2, i_rs1 = 1, i_rs2 = 1, i_imm = 0, i_rd_fp = False, i_rs1_fp = False,
     i_rs2_fp = False, i_rd_valid = True, i_pc = 4\<rparr>"

definition sample_rob :: hw_rob where
  "sample_rob = hw_do_result 0 7 (hw_do_alloc \<lparr>i_op = OP_ADDI, i_rd = 1, i_rs1 = 0, i_rs2 = 0, i_imm = 7, i_rd_fp = False,
     i_rs1_fp = False, i_rs2_fp = False, i_rd_valid = True, i_pc = 0\<rparr> hw_rob_reset)"

definition sample_rat :: hw_rat where
  "sample_rat = hw_rat_reset\<lparr>t_x_valid := (t_x_valid hw_rat_reset)[1 := True]\<rparr>"

definition sample_commit :: commit_state where
  "sample_commit = \<lparr>cs_last = empty_commit_record,
     cs_rob = projr (rob_write_result 0 7 (snd (rob_allocate
       (default_instruction\<lparr>in_op := Op_ADDI, in_rd := 1, in_rs1 := 0, in_imm := 7\<rparr>) (projr (new_rob ROB_SIZE))))),
     cs_rf = init_regfile, cs_rat = projr (rat_map 1 False 0 init_rat), cs_lsb = projr (new_lsb LSB_SIZE), cs_mem = [],
     cs_next_pc = 0, cs_halted = False\<rparr>"

theorem hw_dispatch_refines_witness:
  "\<exists>c'. commit_then_result sample_in sample_rob sample_commit = Inr c' \<and>
     resolve_operand 1 False (cs_rat c') (cs_rf c') (snd (rob_allocate sample_add (cs_rob c'))) 0 = Inr (7, -1)"
proof -
  let ?d = "the (hw_dispatch (Some sample_hw_add) (\<lambda>_. False) (cycle_commit sample_rob) (a_cdb sample_in) sample_rob sample_rat hw_regs_reset)"
  let ?c = "projr (commit_then_result sample_in sample_rob sample_commit)"
  have 1: "rob_rel sample_rob (cs_rob sample_commit)" by code_simp
  have 2: "rat_rel sample_rat (cs_rat sample_commit)" by code_simp
  have 3: "regs_rel hw_regs_reset (cs_rf sample_commit)" by code_simp
  have 4: "commit_then_result sample_in sample_rob sample_commit = Inr ?c" by code_simp
  have 5: "\<not> o_flush (cycle_commit sample_rob)"
    "rob_head_ready (cs_rob sample_commit) \<longrightarrow> plain (rob_entries (cs_rob sample_commit) ! rob_head (cs_rob sample_commit))"
    "full_instr_rel sample_hw_add sample_add"
    "producer_ok (cs_rob sample_commit) (cs_rat sample_commit) (in_rs1 sample_add) (in_rs1_fp sample_add)"
    "producer_ok (cs_rob sample_commit) (cs_rat sample_commit) (in_rs2 sample_add) (in_rs2_fp sample_add)" by code_simp+
  have 6: "hw_dispatch (Some sample_hw_add) (\<lambda>_. False) (cycle_commit sample_rob) (a_cdb sample_in) sample_rob sample_rat
      hw_regs_reset = Some ?d" by code_simp
  have 7: "d_rs1_ready (y_entry ?d)" "d_rs1_val (y_entry ?d) = 7" "in_rs1 sample_add = 1" "\<not> in_rs1_fp sample_add" by code_simp+
  show ?thesis
    using hw_dispatch_refines [OF 1 2 3 4 5 6, of 0] 4 7 by (intro exI [of _ ?c]) simp
qed


end
