(* ===== verification/Hw_Station.thy ===== *)
theory Hw_Station
  imports Hw_Rename Ring "HOL-Library.Multiset"
begin

text \<open>
  \<open>hardware/fetch/instr_queue.sv\<close> and \<open>hardware/execute/reservation_station.sv\<close>: the queue in front of dispatch, a
  circular buffer with 3-bit pointers that wrap by themselves, and the reservation stations, an array of slots with a
  priority chain that chooses the free slot to fill and the ready slot to issue.
\<close>

section \<open>Instruction queue\<close>

definition IQ_DEPTH :: nat where "IQ_DEPTH = 8"

record hw_iq =
  q_entries :: "instr_t list"
  q_head :: "3 word"
  q_tail :: "3 word"
  q_count :: "4 word"

definition hw_iq_full :: "hw_iq \<Rightarrow> bool" where
  "hw_iq_full q \<longleftrightarrow> q_count q = 8"

definition hw_iq_valid :: "hw_iq \<Rightarrow> bool" where
  "hw_iq_valid q \<longleftrightarrow> q_count q \<noteq> 0"

definition hw_iq_instr :: "hw_iq \<Rightarrow> instr_t" where
  "hw_iq_instr q = q_entries q ! unat (q_head q)"

definition hw_iq_flush :: "hw_iq \<Rightarrow> hw_iq" where
  "hw_iq_flush q = q\<lparr>q_head := 0, q_tail := 0, q_count := 0\<rparr>"

definition hw_iq_clock :: "bool \<Rightarrow> instr_t option \<Rightarrow> bool \<Rightarrow> hw_iq \<Rightarrow> hw_iq" where
  "hw_iq_clock flush push pop q =
     (if flush then hw_iq_flush q
      else let pushes = push \<noteq> None \<and> \<not> hw_iq_full q; pops = pop \<and> hw_iq_valid q in
        \<lparr>q_entries = (if pushes then (q_entries q)[unat (q_tail q) := the push] else q_entries q),
         q_head = (if pops then q_head q + 1 else q_head q),
         q_tail = (if pushes then q_tail q + 1 else q_tail q),
         q_count = q_count q + (if pushes then 1 else 0) - (if pops then 1 else 0)\<rparr>)"

section \<open>Reservation station\<close>

record hw_rs =
  w_busy :: "bool list"
  w_slots :: "rs_entry_t list"

definition zero_rs_entry :: rs_entry_t where
  "zero_rs_entry = \<lparr>d_op = OP_ADD, d_rob_tag = 0, d_rs1_ready = False, d_rs1_val = 0, d_rs1_tag = 0,
     d_rs2_ready = False, d_rs2_val = 0, d_rs2_tag = 0, d_imm = 0, d_pc = 0\<rparr>"

definition hw_rs_reset :: "nat \<Rightarrow> hw_rs" where
  "hw_rs_reset n = \<lparr>w_busy = replicate n False, w_slots = replicate n zero_rs_entry\<rparr>"

text \<open>The priority chain: the lowest set position, the last position if there is none.\<close>

fun hw_chain :: "bool list \<Rightarrow> nat" where
  "hw_chain [] = 0"
| "hw_chain [b] = 0"
| "hw_chain (b # bs) = (if b then 0 else Suc (hw_chain bs))"

definition hw_ready_vec :: "hw_rs \<Rightarrow> bool list" where
  "hw_ready_vec s = map2 (\<lambda>b e. b \<and> d_rs1_ready e \<and> d_rs2_ready e) (w_busy s) (w_slots s)"

definition hw_rs_full :: "hw_rs \<Rightarrow> bool" where
  "hw_rs_full s \<longleftrightarrow> list_all id (w_busy s)"

definition hw_issue_idx :: "hw_rs \<Rightarrow> nat" where
  "hw_issue_idx s = hw_chain (hw_ready_vec s)"

definition hw_dispatch_idx :: "hw_rs \<Rightarrow> nat" where
  "hw_dispatch_idx s = hw_chain (map Not (w_busy s))"

definition hw_issue_valid :: "bool \<Rightarrow> hw_rs \<Rightarrow> bool" where
  "hw_issue_valid fu_ready s \<longleftrightarrow> list_ex id (hw_ready_vec s) \<and> fu_ready"

definition hw_issue_entry :: "hw_rs \<Rightarrow> rs_entry_t" where
  "hw_issue_entry s = w_slots s ! hw_issue_idx s"

definition hw_capture :: "cdb_t \<Rightarrow> rs_entry_t \<Rightarrow> rs_entry_t" where
  "hw_capture cdb e =
     (if \<not> b_valid cdb then e
      else let u = (if \<not> d_rs1_ready e \<and> d_rs1_tag e = b_tag cdb then e\<lparr>d_rs1_ready := True, d_rs1_val := b_value cdb\<rparr> else e)
           in if \<not> d_rs2_ready e \<and> d_rs2_tag e = b_tag cdb then u\<lparr>d_rs2_ready := True, d_rs2_val := b_value cdb\<rparr> else u)"

definition hw_rs_clock :: "bool \<Rightarrow> rs_entry_t option \<Rightarrow> cdb_t \<Rightarrow> bool \<Rightarrow> hw_rs \<Rightarrow> hw_rs" where
  "hw_rs_clock flush dispatch cdb fu_ready s =
     (if flush then hw_rs_reset (length (w_busy s))
      else let slots1 = map2 (\<lambda>b e. if b then hw_capture cdb e else e) (w_busy s) (w_slots s);
               accepts = dispatch \<noteq> None \<and> \<not> hw_rs_full s;
               slots2 = (if accepts then slots1[hw_dispatch_idx s := the dispatch] else slots1);
               busy2 = (if accepts then (w_busy s)[hw_dispatch_idx s := True] else w_busy s)
           in \<lparr>w_busy = (if hw_issue_valid fu_ready s then busy2[hw_issue_idx s := False] else busy2), w_slots = slots2\<rparr>)"

section \<open>The queue as a list\<close>

definition hw_iq_wf :: "hw_iq \<Rightarrow> bool" where
  "hw_iq_wf q \<longleftrightarrow> length (q_entries q) = 8 \<and> unat (q_count q) \<le> 8 \<and>
     unat (q_tail q) = (unat (q_head q) + unat (q_count q)) mod 8"

definition hw_iq_list :: "hw_iq \<Rightarrow> instr_t list" where
  "hw_iq_list q = ring_list (q_entries q) (unat (q_head q)) (unat (q_count q))"

lemma unat_ptr_Suc: "unat (p + 1 :: 3 word) = (unat p + 1) mod 8"
  by (simp add: unat_word_ariths)

lemma ptr_lt [simp]: "unat (p :: 3 word) < 8"
  using unsigned_less [of p, where ?'a = nat] by simp

lemma unat_iq_count:
  fixes c :: "4 word"
  shows "unat c < 8 \<Longrightarrow> unat (c + 1) = unat c + 1" and "0 < unat c \<Longrightarrow> unat (c - 1) = unat c - 1"
  by (simp add: unat_word_ariths) (metis unat_minus_one unat_0 less_irrefl)

lemma hw_iq_flags:
  "hw_iq_full q \<longleftrightarrow> unat (q_count q) = 8" "hw_iq_valid q \<longleftrightarrow> unat (q_count q) \<noteq> 0"
  by (auto simp: hw_iq_full_def hw_iq_valid_def word_unat_eq_iff)

lemma hw_iq_push:
  fixes x :: instr_t
  assumes "hw_iq_wf q" and "\<not> hw_iq_full q"
  defines "q' \<equiv> q\<lparr>q_entries := (q_entries q)[unat (q_tail q) := x], q_tail := q_tail q + 1, q_count := q_count q + 1\<rparr>"
  shows "hw_iq_wf q' \<and> hw_iq_list q' = hw_iq_list q @ [x]"
proof -
  have c: "unat (q_count q) < 8" using assms(1,2) by (auto simp: hw_iq_wf_def hw_iq_flags)
  then show ?thesis
    using assms(1) ring_list_push [of "unat (q_count q)" "q_entries q" "unat (q_head q)" x]
    by (simp add: hw_iq_wf_def hw_iq_list_def q'_def unat_iq_count unat_ptr_Suc mod_simps)
qed

lemma hw_iq_pop:
  assumes "hw_iq_wf q" and "hw_iq_valid q"
  defines "q' \<equiv> q\<lparr>q_head := q_head q + 1, q_count := q_count q - 1\<rparr>"
  shows "hw_iq_wf q' \<and> hw_iq_list q = hw_iq_instr q # hw_iq_list q'"
proof -
  obtain n where n: "unat (q_count q) = Suc n" using assms(2) by (auto simp: hw_iq_flags gr0_conv_Suc)
  then have u: "unat (q_count q - 1) = n" using unat_iq_count(2) [of "q_count q"] by simp
  have l: "length (q_entries q) = 8" using assms(1) by (simp add: hw_iq_wf_def)
  then have "q_entries q \<noteq> []" by auto
  then have "hw_iq_list q = hw_iq_instr q # hw_iq_list q'"
    using l ring_list_Suc [of "q_entries q" "unat (q_head q)" n] n u
    by (auto simp: hw_iq_list_def hw_iq_instr_def q'_def unat_ptr_Suc)
  moreover have "hw_iq_wf q'" using assms(1) n u by (auto simp: hw_iq_wf_def q'_def unat_ptr_Suc mod_simps)
  ultimately show ?thesis by blast
qed

text \<open>An edge with both is a push after a pop; a full queue refuses the push even then.\<close>

lemma hw_iq_edge:
  assumes "hw_iq_wf q"
  shows "hw_iq_wf (hw_iq_clock flush push pop q) \<and> hw_iq_list (hw_iq_clock flush push pop q) =
     (if flush then []
      else (if pop then tl (hw_iq_list q) else hw_iq_list q) @ (if hw_iq_full q then [] else case push of None \<Rightarrow> [] | Some x \<Rightarrow> [x]))"
proof (cases flush)
  case True
  then show ?thesis using assms by (simp add: hw_iq_clock_def hw_iq_flush_def hw_iq_wf_def hw_iq_list_def)
next
  case False
  let ?pop = "\<lambda>q. q\<lparr>q_head := q_head q + 1, q_count := q_count q - 1\<rparr>"
  let ?push = "\<lambda>x q. q\<lparr>q_entries := (q_entries q)[unat (q_tail q) := x], q_tail := q_tail q + 1, q_count := q_count q + 1\<rparr>"
  define p where "p = (if pop \<and> hw_iq_valid q then ?pop q else q)"
  have p: "hw_iq_wf p \<and> hw_iq_list p = (if pop then tl (hw_iq_list q) else hw_iq_list q) \<and> (\<not> hw_iq_full q \<longrightarrow> \<not> hw_iq_full p)"
  proof (cases "pop \<and> hw_iq_valid q")
    case True
    moreover have "hw_iq_full (?pop q) \<longrightarrow> hw_iq_full q"
      using assms True unat_iq_count(2) [of "q_count q"] by (auto simp: hw_iq_wf_def hw_iq_flags)
    ultimately show ?thesis using hw_iq_pop [OF assms] by (auto simp: p_def)
  next
    case False
    moreover have "hw_iq_list q = []" if "\<not> hw_iq_valid q" using that by (simp add: hw_iq_list_def hw_iq_flags)
    ultimately show ?thesis using assms by (auto simp: p_def)
  qed
  show ?thesis
  proof (cases "push \<noteq> None \<and> \<not> hw_iq_full q")
    case True
    then obtain x where x: "push = Some x" "\<not> hw_iq_full q" by auto
    have "hw_iq_clock flush push pop q = ?push x p" using False x by (simp add: hw_iq_clock_def Let_def p_def)
    then show ?thesis using hw_iq_push [of p x] p x False by simp
  next
    case f: False
    then have "hw_iq_clock flush push pop q = p" using False by (auto simp: hw_iq_clock_def Let_def p_def)
    then show ?thesis using p f False by (auto split: option.splits)
  qed
qed


section \<open>The priority chain\<close>

lemma hw_chain_bound: "bs \<noteq> [] \<Longrightarrow> hw_chain bs < length bs"
  by (induction bs rule: hw_chain.induct) auto

lemma hw_chain_first: "list_ex id bs \<Longrightarrow> bs ! hw_chain bs \<and> (\<forall>j < hw_chain bs. \<not> bs ! j)"
proof (induction bs rule: hw_chain.induct)
  case (3 b c bs)
  show ?case
  proof (cases b)
    case False
    then have IH: "(c # bs) ! hw_chain (c # bs) \<and> (\<forall>j < hw_chain (c # bs). \<not> (c # bs) ! j)" using 3 by simp
    have "\<not> (b # c # bs) ! j" if "j < Suc (hw_chain (c # bs))" for j
      using that IH False by (cases j) auto
    then show ?thesis using IH False by auto
  qed simp
qed auto

section \<open>The station as a multiset of instructions\<close>

definition hw_rs_wf :: "hw_rs \<Rightarrow> bool" where
  "hw_rs_wf s \<longleftrightarrow> length (w_busy s) = length (w_slots s) \<and> w_slots s \<noteq> []"

definition busy_slots :: "hw_rs \<Rightarrow> nat set" where
  "busy_slots s = {k \<in> {..<length (w_slots s)}. w_busy s ! k}"

definition waiting :: "hw_rs \<Rightarrow> rs_entry_t multiset" where
  "waiting s = image_mset (\<lambda>k. w_slots s ! k) (mset_set (busy_slots s))"

lemma finite_busy [simp]: "finite (busy_slots s)"
  by (simp add: busy_slots_def)

lemma ready_vec_nth:
  assumes "hw_rs_wf s"
  shows "length (hw_ready_vec s) = length (w_slots s)"
    and "k < length (w_slots s) \<Longrightarrow> hw_ready_vec s ! k \<longleftrightarrow> w_busy s ! k \<and> d_rs1_ready (w_slots s ! k) \<and> d_rs2_ready (w_slots s ! k)"
  using assms by (simp_all add: hw_ready_vec_def hw_rs_wf_def)

lemma issue_slot:
  assumes "hw_rs_wf s" and "hw_issue_valid fu s"
  shows "hw_issue_idx s \<in> busy_slots s" and "d_rs1_ready (hw_issue_entry s)" and "d_rs2_ready (hw_issue_entry s)"
proof -
  have ex: "list_ex id (hw_ready_vec s)" using assms(2) by (simp add: hw_issue_valid_def)
  then have "hw_ready_vec s \<noteq> []" by auto
  then have lt: "hw_issue_idx s < length (w_slots s)"
    using hw_chain_bound [of "hw_ready_vec s"] ready_vec_nth(1) [OF assms(1)] by (simp add: hw_issue_idx_def)
  have "hw_ready_vec s ! hw_issue_idx s" using hw_chain_first [OF ex] by (simp add: hw_issue_idx_def)
  then show "hw_issue_idx s \<in> busy_slots s" "d_rs1_ready (hw_issue_entry s)" "d_rs2_ready (hw_issue_entry s)"
    using lt by (simp_all add: ready_vec_nth(2) [OF assms(1) lt] busy_slots_def hw_issue_entry_def)
qed

lemma dispatch_slot:
  assumes "hw_rs_wf s" and "\<not> hw_rs_full s"
  shows "hw_dispatch_idx s < length (w_slots s)" and "hw_dispatch_idx s \<notin> busy_slots s"
proof -
  have ex: "list_ex id (map Not (w_busy s))" using assms(2) by (auto simp: hw_rs_full_def list_ex_iff list_all_iff)
  have l: "length (w_busy s) = length (w_slots s)" "w_busy s \<noteq> []" using assms(1) by (auto simp: hw_rs_wf_def)
  then show lt: "hw_dispatch_idx s < length (w_slots s)"
    using hw_chain_bound [of "map Not (w_busy s)"] by (simp add: hw_dispatch_idx_def)
  show "hw_dispatch_idx s \<notin> busy_slots s"
    using hw_chain_first [OF ex] lt l(1) by (auto simp: busy_slots_def hw_dispatch_idx_def)
qed

lemma busy_slots_clock:
  assumes "hw_rs_wf s"
  defines "accepts d \<equiv> d \<noteq> None \<and> \<not> hw_rs_full s"
  shows "busy_slots (hw_rs_clock False d cdb fu s) =
     (busy_slots s - (if hw_issue_valid fu s then {hw_issue_idx s} else {})) \<union> (if accepts d then {hw_dispatch_idx s} else {})"
  using assms(1) issue_slot(1) [OF assms(1), of fu] dispatch_slot [OF assms(1)]
  by (auto simp: hw_rs_clock_def Let_def busy_slots_def accepts_def hw_rs_wf_def nth_list_update split: if_splits)

lemma slot_clock:
  assumes "hw_rs_wf s" and "k < length (w_slots s)"
  shows "w_slots (hw_rs_clock False d cdb fu s) ! k =
     (if d \<noteq> None \<and> \<not> hw_rs_full s \<and> k = hw_dispatch_idx s then the d
      else if w_busy s ! k then hw_capture cdb (w_slots s ! k) else w_slots s ! k)"
  using assms by (auto simp: hw_rs_clock_def Let_def hw_rs_wf_def nth_list_update)

lemma hw_rs_clock_wf: "hw_rs_wf s \<Longrightarrow> hw_rs_wf (hw_rs_clock flush d cdb fu s)"
  by (auto simp: hw_rs_clock_def Let_def hw_rs_wf_def hw_rs_reset_def)


lemma busy_slots_reset [simp]: "busy_slots (hw_rs_reset n) = {}"
  by (auto simp: busy_slots_def hw_rs_reset_def)

text \<open>The edge of the instruction queue meets the contract of a first-in first-out buffer.\<close>

interpretation hw_iq_fifo: fifo_queue hw_iq_wf hw_iq_list "\<lambda>_. 8" hw_iq_full "\<lambda>q. \<not> hw_iq_valid q" hw_iq_flush
  "\<lambda>i q. Inr (hw_iq_clock False (Some i) False q)"
  "\<lambda>q. if hw_iq_valid q then Inr (hw_iq_instr q, hw_iq_clock False None True q) else Inl Assert_iq_dispatch"
  "\<lambda>_ q. Inr (hw_iq_clock False None False q)" id id
proof (unfold_locales, goal_cases)
  case (8 q e q')
  then show ?case
    using hw_iq_edge [OF 8(1), of False None True] hw_iq_pop [OF 8(1)] by (auto split: if_splits)
qed (auto simp: hw_iq_flags hw_iq_list_def hw_iq_wf_def hw_iq_flush_def hw_iq_edge [unfolded hw_iq_list_def hw_iq_wf_def hw_iq_flags])

section \<open>Entries of the simulator\<close>

definition operand_rel :: "bool \<Rightarrow> u32 \<Rightarrow> tag \<Rightarrow> u32 \<Rightarrow> int \<Rightarrow> bool" where
  "operand_rel ready v t vj qj \<longleftrightarrow> (if ready then qj = -1 \<and> vj = v else qj = uint t)"

definition rs_rel :: "rs_entry_t \<Rightarrow> rs_entry \<Rightarrow> bool" where
  "rs_rel x e \<longleftrightarrow> rs_busy e \<and> \<not> rs_done e \<and> d_op x = hw_op (rs_op e) \<and> rs_rob_tag e = uint (d_rob_tag x) \<and>
     d_imm x = hw_imm (rs_op e) (rs_imm e) \<and> d_pc x = rs_pc e \<and>
     operand_rel (d_rs1_ready x) (d_rs1_val x) (d_rs1_tag x) (rs_vj e) (rs_qj e) \<and>
     operand_rel (d_rs2_ready x) (d_rs2_val x) (d_rs2_tag x) (rs_vk e) (rs_qk e)"

text \<open>A slot captures from the bus what the simulator's entry captures.\<close>

lemma capture_refines:
  assumes "rs_rel x e"
  shows "rs_rel (hw_capture cdb x) (if b_valid cdb then rs_capture \<lparr>c_rob_tag = uint (b_tag cdb), c_value = b_value cdb\<rparr> e else e)"
proof -
  have "uint (b_tag cdb) \<noteq> -1" using unsigned_greater_eq [of "b_tag cdb", where ?'a = int] by linarith
  then show ?thesis
    using assms by (auto simp: rs_rel_def operand_rel_def hw_capture_def rs_capture_def Let_def simp flip: word_uint_eq_iff)
qed

section \<open>Properties\<close>

text \<open>C15. No instruction is lost, duplicated or changed in a reservation station: after a clock edge the station holds
  the instructions it held, without the one it issues, each with what it captures from the bus, and the one dispatched
  if the station was not full. The issued instruction has both operands, and if the unit is free and some instruction
  has both operands, one is issued.\<close>

theorem hw_station_edge:
  assumes "hw_rs_wf s"
  shows "hw_rs_wf (hw_rs_clock flush d cdb fu s) \<and>
    waiting (hw_rs_clock flush d cdb fu s) =
      (if flush then {#}
       else image_mset (hw_capture cdb) (waiting s - (if hw_issue_valid fu s then {#hw_issue_entry s#} else {#})) +
         (if hw_rs_full s then {#} else case d of None \<Rightarrow> {#} | Some x \<Rightarrow> {#x#})) \<and>
    (hw_issue_valid fu s \<longrightarrow> hw_issue_entry s \<in># waiting s \<and> d_rs1_ready (hw_issue_entry s) \<and> d_rs2_ready (hw_issue_entry s)) \<and>
    (fu \<and> (\<exists>e \<in># waiting s. d_rs1_ready e \<and> d_rs2_ready e) \<longrightarrow> hw_issue_valid fu s)"
proof (intro conjI)
  let ?i = "hw_issue_idx s" and ?d = "hw_dispatch_idx s" and ?s = "hw_rs_clock False d cdb fu s"
  let ?acc = "d \<noteq> None \<and> \<not> hw_rs_full s" and ?iss = "hw_issue_valid fu s"
  define B where "B = busy_slots s - (if ?iss then {?i} else {})"
  have i: "?i \<in> busy_slots s" if ?iss using issue_slot(1) [OF assms that] .
  have d: "?d \<notin> busy_slots s" "?d < length (w_slots s)" if ?acc using dispatch_slot [OF assms] that by auto
  have "image_mset ((!) (w_slots ?s)) (mset_set B) = image_mset (\<lambda>k. hw_capture cdb (w_slots s ! k)) (mset_set B)"
    by (rule image_mset_cong) (use d in \<open>auto simp: B_def slot_clock [OF assms] busy_slots_def\<close>)
  also have "\<dots> = image_mset (hw_capture cdb) (waiting s - (if ?iss then {#hw_issue_entry s#} else {#}))"
    using i by (auto simp: B_def waiting_def hw_issue_entry_def mset_set_Diff image_mset_Diff image_mset.compositionality comp_def)
  finally have kept: "image_mset ((!) (w_slots ?s)) (mset_set B) = \<dots>" .
  have "waiting ?s = image_mset ((!) (w_slots ?s)) (mset_set B) + (if ?acc then {#the d#} else {#})"
    using d slot_clock [OF assms d(2)] by (auto simp: waiting_def busy_slots_clock [OF assms] B_def)
  moreover have "waiting (hw_rs_clock True d cdb fu s) = {#}"
    by (simp add: waiting_def hw_rs_clock_def busy_slots_reset)
  ultimately show "waiting (hw_rs_clock flush d cdb fu s) =
      (if flush then {#} else image_mset (hw_capture cdb) (waiting s - (if ?iss then {#hw_issue_entry s#} else {#})) +
         (if hw_rs_full s then {#} else case d of None \<Rightarrow> {#} | Some x \<Rightarrow> {#x#}))"
    using kept by (cases flush; cases d) auto
  show "?iss \<longrightarrow> hw_issue_entry s \<in># waiting s \<and> d_rs1_ready (hw_issue_entry s) \<and> d_rs2_ready (hw_issue_entry s)"
    using issue_slot [OF assms] by (auto simp: waiting_def hw_issue_entry_def)
  show "fu \<and> (\<exists>e \<in># waiting s. d_rs1_ready e \<and> d_rs2_ready e) \<longrightarrow> ?iss"
    using ready_vec_nth [OF assms] by (auto simp: hw_issue_valid_def waiting_def busy_slots_def list_ex_length)
qed (rule hw_rs_clock_wf [OF assms])

text \<open>One slot is ready and leaves the station while the other captures its first operand.\<close>

definition sample_station :: hw_rs where
  "sample_station = \<lparr>w_busy = [True, True], w_slots =
     [zero_rs_entry\<lparr>d_rs1_tag := 3, d_rs2_ready := True\<rparr>, zero_rs_entry\<lparr>d_rob_tag := 1, d_rs1_ready := True, d_rs2_ready := True\<rparr>]\<rparr>"

theorem hw_station_edge_witness:
  "waiting (hw_rs_clock False None \<lparr>b_tag = 3, b_value = 9, b_valid = True\<rparr> True sample_station) =
     {#zero_rs_entry\<lparr>d_rs1_ready := True, d_rs1_val := 9, d_rs1_tag := 3, d_rs2_ready := True\<rparr>#}"
proof -
  let ?cdb = "\<lparr>b_tag = 3, b_value = 9, b_valid = True\<rparr> :: cdb_t"
  have s: "hw_rs_wf sample_station" "hw_issue_valid True sample_station" "hw_rs_full sample_station"
    "hw_issue_entry sample_station = w_slots sample_station ! 1"
    "hw_capture ?cdb (w_slots sample_station ! 0) =
       zero_rs_entry\<lparr>d_rs1_ready := True, d_rs1_val := 9, d_rs1_tag := 3, d_rs2_ready := True\<rparr>" by code_simp+
  have "busy_slots sample_station = {0, 1}" by (auto simp: busy_slots_def sample_station_def less_Suc_eq)
  then have "waiting sample_station = {#w_slots sample_station ! 0, w_slots sample_station ! 1#}" by (simp add: waiting_def)
  then show ?thesis using hw_station_edge [OF s(1), of False None ?cdb True] s by simp
qed

text \<open>The queue in front of dispatch is a first-in first-out buffer: over any history of pushes, pops and idle
  cycles that starts empty, the instructions come out in the order in which they were accepted, and never more than
  eight of them are inside; and in a cycle with both a push and a pop the head leaves and the new instruction enters
  at the end unless the queue was full.\<close>

theorem hw_iq_in_order:
  assumes "hw_iq_wf q" and "\<not> hw_iq_valid q"
    and "fifo_run hw_iq_full (\<lambda>i q. Inr (hw_iq_clock False (Some i) False q))
       (\<lambda>q. if hw_iq_valid q then Inr (hw_iq_instr q, hw_iq_clock False None True q) else Inl Assert_iq_dispatch)
       (\<lambda>_ q. Inr (hw_iq_clock False None False q)) evs q = Inr (ins, outs, q')"
  shows "outs = take (length outs) ins \<and> length ins \<le> length outs + 8 \<and> hw_iq_wf q' \<and>
    hw_iq_list (hw_iq_clock False (Some x) True q') = tl (hw_iq_list q') @ (if hw_iq_full q' then [] else [x])"
  using hw_iq_fifo.run_from_empty [OF assms] hw_iq_fifo.run_occupancy [OF assms]
    hw_iq_fifo.run_in_order [OF assms(1,3)] hw_iq_edge [of q' False "Some x" True] by simp

definition sample_iq :: hw_iq where
  "sample_iq = \<lparr>q_entries = replicate 8 sample_hw_add, q_head = 7, q_tail = 7, q_count = 0\<rparr>"

theorem hw_iq_in_order_witness:
  "hw_iq_list (hw_iq_clock False (Some sample_hw_add) True
     (hw_iq_clock False None True (hw_iq_clock False (Some sample_hw_add) False sample_iq))) = [sample_hw_add]"
proof -
  let ?q = "hw_iq_clock False None True (hw_iq_clock False (Some sample_hw_add) False sample_iq)"
  have "hw_iq_wf sample_iq" "\<not> hw_iq_valid sample_iq"
    "fifo_run hw_iq_full (\<lambda>i q. Inr (hw_iq_clock False (Some i) False q))
       (\<lambda>q. if hw_iq_valid q then Inr (hw_iq_instr q, hw_iq_clock False None True q) else Inl Assert_iq_dispatch)
       (\<lambda>_ q. Inr (hw_iq_clock False None False q)) ([Enq sample_hw_add, Deq] :: (instr_t, unit) fifo_event list) sample_iq
     = Inr ([sample_hw_add], [sample_hw_add], ?q)" by code_simp+
  from hw_iq_in_order [OF this, of sample_hw_add] have
    "hw_iq_list (hw_iq_clock False (Some sample_hw_add) True ?q) = tl (hw_iq_list ?q) @ (if hw_iq_full ?q then [] else [sample_hw_add])"
    by blast
  moreover have "hw_iq_list ?q = []" "\<not> hw_iq_full ?q" by code_simp+
  ultimately show ?thesis by simp
qed


end
