(* ===== verification/Hw_Memory.thy ===== *)
theory Hw_Memory
  imports Hw_Types
begin

text \<open>
  \<open>hardware/execute/lsb/data_mem.sv\<close> and the lanes of \<open>hardware/execute/lsb/load_store_buffer.sv\<close>: a memory of 1024 words
  with byte enables, the enables and the replicated data of a store, the extraction of a loaded byte or halfword.
  Seen byte by byte the memory is little-endian and stores touch exactly the bytes of their size.
\<close>

definition HW_MEM_SIZE :: nat where "HW_MEM_SIZE = 1024"

section \<open>Memory\<close>

record hw_mem =
  k_mem :: "u32 list"
  k_rd_data :: u32

text \<open>\<open>addr[ADDR_W+1:2]\<close>\<close>

definition word_index :: "u32 \<Rightarrow> nat" where
  "word_index addr = unat (take_bit 10 (drop_bit 2 addr))"

definition lane :: "nat \<Rightarrow> u32 \<Rightarrow> u32" where
  "lane k w = take_bit 8 (drop_bit (8 * k) w)"

definition write_lanes :: "4 word \<Rightarrow> u32 \<Rightarrow> u32 \<Rightarrow> u32" where
  "write_lanes be d w =
     lane 0 (if bit be 0 then d else w) OR push_bit 8 (lane 1 (if bit be 1 then d else w)) OR
     push_bit 16 (lane 2 (if bit be 2 then d else w)) OR push_bit 24 (lane 3 (if bit be 3 then d else w))"

record mem_write_port =
  wr_be :: "4 word"
  wr_addr :: u32
  wr_data :: u32

definition hw_mem_clock :: "u32 \<Rightarrow> mem_write_port option \<Rightarrow> hw_mem \<Rightarrow> hw_mem" where
  "hw_mem_clock rd_addr wr m =
     \<lparr>k_mem = (case wr of None \<Rightarrow> k_mem m | Some w \<Rightarrow> let i = word_index (wr_addr w) in
               (k_mem m)[i := write_lanes (wr_be w) (wr_data w) (k_mem m ! i)]),
      k_rd_data = k_mem m ! word_index rd_addr\<rparr>"

section \<open>Lanes of a store and of a load\<close>

definition store_be :: "opcode_e \<Rightarrow> u32 \<Rightarrow> 4 word" where
  "store_be op addr = (if op = OP_SB then push_bit (unat (take_bit 2 addr)) 1
     else if op = OP_SH then (if bit addr 1 then 0b1100 else 0b0011) else 0b1111)"

definition store_wdata :: "opcode_e \<Rightarrow> u32 \<Rightarrow> u32" where
  "store_wdata op v =
     (if op = OP_SB then let b = take_bit 8 v in push_bit 24 b OR push_bit 16 b OR push_bit 8 b OR b
      else if op = OP_SH then let h = take_bit 16 v in push_bit 16 h OR h else v)"

text \<open>\<open>byte_sel\<close> is \<open>addr[1:0]\<close>.\<close>

definition load_result :: "opcode_e \<Rightarrow> 2 word \<Rightarrow> u32 \<Rightarrow> u32" where
  "load_result op byte_sel data =
     (if op = OP_LB then
        (if byte_sel = 0 then signed_take_bit 7 (take_bit 8 data)
         else if byte_sel = 1 then signed_take_bit 7 (take_bit 8 (drop_bit 8 data))
         else if byte_sel = 2 then signed_take_bit 7 (take_bit 8 (drop_bit 16 data))
         else signed_take_bit 7 (take_bit 8 (drop_bit 24 data)))
      else if op = OP_LBU then
        (if byte_sel = 0 then take_bit 8 data
         else if byte_sel = 1 then take_bit 8 (drop_bit 8 data)
         else if byte_sel = 2 then take_bit 8 (drop_bit 16 data)
         else take_bit 8 (drop_bit 24 data))
      else if op = OP_LH then
        (if bit byte_sel 1 then signed_take_bit 15 (take_bit 16 (drop_bit 16 data)) else signed_take_bit 15 (take_bit 16 data))
      else if op = OP_LHU then
        (if bit byte_sel 1 then take_bit 16 (drop_bit 16 data) else take_bit 16 data)
      else data)"

section \<open>Byte by byte\<close>

definition phys :: "u32 \<Rightarrow> nat" where
  "phys addr = unat (take_bit 12 addr)"

definition byte_at :: "u32 list \<Rightarrow> nat \<Rightarrow> u32" where
  "byte_at m p = lane (p mod 4) (m ! (p div 4))"

text \<open>The bytes an access touches: their number, and the first of them.\<close>

definition access_bytes :: "opcode_e \<Rightarrow> nat" where
  "access_bytes op = (if op = OP_SB \<or> op = OP_LB \<or> op = OP_LBU then 1 else if op = OP_SH \<or> op = OP_LH \<or> op = OP_LHU then 2 else 4)"

definition access_base :: "opcode_e \<Rightarrow> u32 \<Rightarrow> nat" where
  "access_base op addr = phys addr - phys addr mod access_bytes op"

text \<open>\<open>n\<close> bytes from \<open>p\<close>, the first one lowest.\<close>

fun bytes_from :: "u32 list \<Rightarrow> nat \<Rightarrow> nat \<Rightarrow> u32" where
  "bytes_from m p 0 = 0"
| "bytes_from m p (Suc n) = byte_at m p OR push_bit 8 (bytes_from m (Suc p) n)"

definition extend :: "opcode_e \<Rightarrow> u32 \<Rightarrow> u32" where
  "extend op w = (if op = OP_LB then signed_take_bit 7 w else if op = OP_LH then signed_take_bit 15 w else w)"

section \<open>Lemmas on lanes\<close>

lemma bit_lane: "bit (lane k w) n \<longleftrightarrow> n < 8 \<and> bit w (8 * k + n)"
  by (simp add: lane_def bit_take_bit_iff bit_drop_bit_eq)

lemma lane_write_lanes: "k < 4 \<Longrightarrow> lane k (write_lanes be d w) = lane k (if bit be k then d else w)"
proof (rule bit_word_eqI)
  fix n assume k: "k < 4"
  then consider "k = 0" | "k = 1" | "k = 2" | "k = 3" by linarith
  then show "bit (lane k (write_lanes be d w)) n = bit (lane k (if bit be k then d else w)) n"
    unfolding write_lanes_def
    by cases (simp_all only: bit_lane bit_or_iff bit_push_bit_iff, auto)
qed

lemma lane_store_wdata:
  "k < 4 \<Longrightarrow> lane k (store_wdata OP_SB v) = lane 0 v"
  "k < 4 \<Longrightarrow> lane k (store_wdata OP_SH v) = lane (k mod 2) v"
proof -
  assume k: "k < 4"
  then consider "k = 0" | "k = 1" | "k = 2" | "k = 3" by linarith
  then show "lane k (store_wdata OP_SB v) = lane 0 v" "lane k (store_wdata OP_SH v) = lane (k mod 2) v"
    by (cases; intro bit_word_eqI; unfold store_wdata_def Let_def; simp only: bit_lane bit_or_iff bit_push_bit_iff bit_take_bit_iff simp_thms opcode_e.distinct if_False if_True; auto)+
qed

lemma phys_index: "phys a div 4 = word_index a" "phys a mod 4 = unat (take_bit 2 a)" "phys a < 4096"
proof -
  have p: "phys a = take_bit 12 (unat a)" unfolding phys_def by (rule unsigned_take_bit_eq)
  have "phys a div 4 = drop_bit 2 (phys a)" by (simp add: drop_bit_eq_div)
  also have "\<dots> = word_index a"
    unfolding p word_index_def unsigned_take_bit_eq unsigned_drop_bit_eq by (simp add: drop_bit_take_bit)
  finally show "phys a div 4 = word_index a" .
  have "phys a mod 4 = take_bit 2 (phys a)" by (simp add: take_bit_eq_mod)
  also have "\<dots> = unat (take_bit 2 a)" unfolding p unsigned_take_bit_eq by simp
  finally show "phys a mod 4 = unat (take_bit 2 a)" .
  show "phys a < 4096" using take_bit_nat_less_exp [of 12 "unat a"] by (simp add: p)
qed

lemma word_index_lt [simp]: "word_index a < 1024"
  using take_bit_nat_less_exp [of 10 "unat (drop_bit 2 a)"] unfolding word_index_def unsigned_take_bit_eq by simp


lemma bit_addr_1: "bit a 1 \<longleftrightarrow> 2 \<le> phys a mod 4"
proof -
  have "bit a 1 \<longleftrightarrow> bit (unat (take_bit 2 a)) 1"
    unfolding unsigned_take_bit_eq by (simp only: bit_take_bit_iff bit_unsigned_iff) (simp add: bit_imp_possible_bit)
  also have "\<dots> \<longleftrightarrow> odd (phys a mod 4 div 2)" by (simp add: phys_index bit_iff_odd)
  also have "\<dots> \<longleftrightarrow> 2 \<le> phys a mod 4"
  proof -
    have "phys a mod 4 < 4" by simp
    then consider "phys a mod 4 = 0" | "phys a mod 4 = 1" | "phys a mod 4 = 2" | "phys a mod 4 = 3" by linarith
    then show ?thesis by cases simp_all
  qed
  finally show ?thesis .
qed

lemma bit_nibbles:
  assumes "k < 4"
  shows "bit (0b1111 :: 4 word) k" and "bit (0b1100 :: 4 word) k \<longleftrightarrow> 2 \<le> k" and "bit (0b0011 :: 4 word) k \<longleftrightarrow> k < 2"
proof -
  from assms consider "k = 0" | "k = 1" | "k = 2" | "k = 3" by linarith
  then show "bit (0b1111 :: 4 word) k" "bit (0b1100 :: 4 word) k \<longleftrightarrow> 2 \<le> k" "bit (0b0011 :: 4 word) k \<longleftrightarrow> k < 2"
    by (cases; simp)+
qed

lemma div_2_eq: "j < 4 \<Longrightarrow> k < 4 \<Longrightarrow> k div 2 = j div 2 \<longleftrightarrow> (2 \<le> j \<longleftrightarrow> 2 \<le> (k :: nat))"
proof -
  have "i div 2 = (if 2 \<le> i then 1 else 0)" if "i < 4" for i :: nat using that by (auto intro: div_nat_eqI)
  then show "j < 4 \<Longrightarrow> k < 4 \<Longrightarrow> ?thesis" by auto
qed

lemma bit_store_be:
  assumes "k < 4" and "is_store_op op"
  shows "bit (store_be op a) k \<longleftrightarrow> k div access_bytes op = phys a mod 4 div access_bytes op"
proof -
  have s: "unat (take_bit 2 a) = phys a mod 4" "phys a mod 4 < 4" by (simp only: phys_index(2), simp)
  from assms(2) consider "op = OP_SB" | "op = OP_SH" | "op = OP_SW \<or> op = OP_FSW" by (auto simp: is_store_op_def)
  then show ?thesis
  proof cases
    case 1
    then show ?thesis
      using assms(1) by (simp only: store_be_def access_bytes_def s bit_push_bit_iff simp_thms if_True) (auto simp: bit_1_iff)
  next
    case 2
    then show ?thesis
      using assms(1) bit_nibbles [OF assms(1)] div_2_eq [OF s(2) assms(1)] bit_addr_1 [of a]
      by (auto simp: store_be_def access_bytes_def)
  next
    case 3
    then show ?thesis using assms(1) bit_nibbles [OF assms(1)] by (auto simp: store_be_def access_bytes_def)
  qed
qed

text \<open>The bytes of an aligned access, within their word.\<close>

lemma div_mod_eq_iff: "(p :: nat) = x \<longleftrightarrow> p div n = x div n \<and> p mod n = x mod n"
proof
  assume "p div n = x div n \<and> p mod n = x mod n"
  then have "p div n * n + p mod n = x div n * n + x mod n" by simp
  then show "p = x" by (simp only: div_mult_mod_eq)
qed simp

lemma div_access:
  fixes p x n :: nat
  assumes "n = 1 \<or> n = 2 \<or> n = 4"
  shows "p div n = x div n \<longleftrightarrow> p div 4 = x div 4 \<and> p mod 4 div n = x mod 4 div n"
proof -
  have two: "y mod 4 div 2 = y div 2 mod 2" for y :: nat
    using mod_mult2_eq [of y 2 2] by simp
  have "y div 4 = y div 2 div 2" for y :: nat
    using div_mult2_eq [of y 2 2] by simp
  then have "p div 2 = x div 2 \<longleftrightarrow> p div 4 = x div 4 \<and> p mod 4 div 2 = x mod 4 div 2"
    unfolding two by (simp only:) (rule div_mod_eq_iff)
  moreover have "p = x \<longleftrightarrow> p div 4 = x div 4 \<and> p mod 4 = x mod 4" by (rule div_mod_eq_iff)
  moreover have "y mod 4 div 4 = 0" for y :: nat by simp
  ultimately show ?thesis using assms by (elim disjE) (simp_all only: div_by_1 simp_thms)
qed

lemma access_range:
  assumes "n = 1 \<or> n = 2 \<or> n = (4 :: nat)"
  shows "x - x mod n \<le> p \<and> p < x - x mod n + n \<longleftrightarrow> p div 4 = x div 4 \<and> p mod 4 div n = x mod 4 div n"
    and "p div n = x div n \<Longrightarrow> p - (x - x mod n) = p mod 4 mod n"
proof -
  have n: "0 < n" and d: "n dvd 4" using assms by auto
  have b: "x - x mod n = n * (x div n)" by (rule minus_mod_eq_mult_div)
  have "x - x mod n \<le> p \<and> p < x - x mod n + n \<longleftrightarrow> p div n = x div n"
  proof
    assume e: "p div n = x div n"
    show "x - x mod n \<le> p \<and> p < x - x mod n + n"
      unfolding b e [symmetric] using dividend_less_times_div [OF n, of p] by (simp add: add.commute)
  next
    assume "x - x mod n \<le> p \<and> p < x - x mod n + n"
    then show "p div n = x div n" unfolding b by (intro div_nat_eqI) (simp_all add: add.commute)
  qed
  then show "x - x mod n \<le> p \<and> p < x - x mod n + n \<longleftrightarrow> p div 4 = x div 4 \<and> p mod 4 div n = x mod 4 div n"
    using div_access [OF assms] by blast
  assume e: "p div n = x div n"
  show "p - (x - x mod n) = p mod 4 mod n"
    unfolding b e [symmetric] minus_mult_div_eq_mod mod_mod_cancel [OF d] by (rule refl)
qed

text \<open>A store writes the bytes of its size and no other.\<close>

lemma store_bytes:
  assumes "length (k_mem m) = 1024" and "is_store_op op" and "p < 4096"
  shows "byte_at (k_mem (hw_mem_clock ra (Some \<lparr>wr_be = store_be op a, wr_addr = a, wr_data = store_wdata op v\<rparr>) m)) p =
     (if access_base op a \<le> p \<and> p < access_base op a + access_bytes op then lane (p - access_base op a) v else byte_at (k_mem m) p)"
    (is "?new = _")
proof -
  let ?n = "access_bytes op" and ?b = "access_base op a" and ?k = "p mod 4" and ?s = "phys a mod 4"
  have n: "?n = 1 \<and> op = OP_SB \<or> ?n = 2 \<and> op = OP_SH \<or> ?n = 4 \<and> (op = OP_SW \<or> op = OP_FSW)"
    using assms(2) by (auto simp: is_store_op_def access_bytes_def)
  have n': "?n = 1 \<or> ?n = 2 \<or> ?n = 4" using n by blast
  have range: "?b \<le> p \<and> p < ?b + ?n \<longleftrightarrow> p div 4 = word_index a \<and> ?k div ?n = ?s div ?n"
    using access_range(1) [OF n', of "phys a" p] by (simp add: access_base_def phys_index(1))
  have off: "p - ?b = ?k mod ?n" if "?b \<le> p \<and> p < ?b + ?n"
    using that access_range(1) [OF n', of "phys a" p] access_range(2) [OF n', of p "phys a"] div_access [OF n', of p "phys a"]
    unfolding access_base_def by blast
  have data: "lane ?k (store_wdata op v) = lane (?k mod ?n) v"
    using n lane_store_wdata [of ?k v] by (auto simp: store_wdata_def)
  have "?new = (if p div 4 = word_index a then lane ?k (write_lanes (store_be op a) (store_wdata op v) (k_mem m ! (p div 4)))
      else byte_at (k_mem m) p)"
    using assms(1) by (auto simp: hw_mem_clock_def Let_def byte_at_def nth_list_update)
  then show ?thesis
    using range off data bit_store_be [OF _ assms(2), of ?k a] lane_write_lanes [of ?k] by (auto simp: byte_at_def)
qed

section \<open>Loads\<close>

lemma unat_byte_sel: "unat (ucast a :: 2 word) = phys a mod 4"
  by (simp add: phys_index(2) unsigned_take_bit_eq unsigned_ucast_eq)

lemma byte_at_lane:
  "j < 4 \<Longrightarrow> byte_at m (4 * i + j) = lane j (m ! i)"
  by (simp add: byte_at_def)

lemma two_lanes: "lane j w OR push_bit 8 (lane (Suc j) w) = take_bit 16 (drop_bit (8 * j) w)"
  by (rule bit_word_eqI) (simp add: bit_lane bit_or_iff bit_push_bit_iff bit_take_bit_iff bit_drop_bit_eq, auto)

lemma four_lanes: "lane 0 w OR push_bit 8 (lane 1 w OR push_bit 8 (lane 2 w OR push_bit 8 (lane 3 w))) = w"
  by (rule bit_word_eqI) (simp only: bit_lane bit_or_iff bit_push_bit_iff, auto)

lemma word_bytes: "bytes_from m (4 * i) 4 = m ! i"
proof -
  have "bytes_from m p 4 =
      byte_at m (p + 0) OR push_bit 8 (byte_at m (p + 1) OR push_bit 8 (byte_at m (p + 2) OR push_bit 8 (byte_at m (p + 3))))" for p
    by (simp add: eval_nat_numeral(2,3) numeral_2_eq_2)
  then show ?thesis using byte_at_lane [of 0 m i] byte_at_lane [of 1 m i] byte_at_lane [of 2 m i] byte_at_lane [of 3 m i]
    by (simp only: four_lanes)
qed

lemma half_base:
  fixes x i s :: nat
  assumes "x = 4 * i + s" and "s < 4"
  shows "x - x mod 2 = 4 * i + (if 2 \<le> s then 2 else 0)"
proof -
  from assms(2) consider "s = 0" | "s = 1" | "s = 2" | "s = 3" by linarith
  then show ?thesis using assms(1) by cases (simp_all, presburger+)
qed

lemma load_bytes:
  assumes "is_load_op op"
  shows "load_result op (ucast a) (m ! word_index a) = extend op (bytes_from m (access_base op a) (access_bytes op))"
proof -
  let ?i = "word_index a" and ?s = "phys a mod 4" and ?w = "m ! word_index a"
  have pa: "phys a = 4 * ?i + ?s" by (simp add: phys_index(1) [symmetric])
  have sel: "(ucast a :: 2 word) = of_nat ?s" by (simp flip: unat_byte_sel)
  have bit1: "bit (ucast a :: 2 word) 1 \<longleftrightarrow> 2 \<le> ?s" by (simp add: bit_ucast_iff bit_addr_1 [unfolded One_nat_def])
  have s: "?s < 4" by simp
  from assms consider "op = OP_LB \<or> op = OP_LBU" | "op = OP_LH \<or> op = OP_LHU" | "op = OP_LW \<or> op = OP_FLW"
    by (auto simp: is_load_op_def)
  then show ?thesis
  proof cases
    case 1
    then have "bytes_from m (access_base op a) (access_bytes op) = lane ?s ?w"
      using byte_at_lane [OF s, of m ?i] pa by (auto simp: access_base_def access_bytes_def)
    moreover have "load_result op (of_nat k) w = extend op (lane k w)" if "k < 4" for k and w :: u32
    proof -
      from that consider "k = 0" | "k = 1" | "k = 2" | "k = 3" by linarith
      then show ?thesis using 1 by cases (auto simp: load_result_def extend_def lane_def)
    qed
    ultimately show ?thesis using sel s by metis
  next
    case 2
    have "phys a - phys a mod 2 = 4 * ?i + (if 2 \<le> ?s then 2 else 0)" by (rule half_base [OF pa s])
    then have b: "access_base op a = 4 * ?i + (if 2 \<le> ?s then 2 else 0)" using 2 by (auto simp: access_base_def access_bytes_def)
    then have "bytes_from m (access_base op a) (access_bytes op) = take_bit 16 (drop_bit (if 2 \<le> ?s then 16 else 0) ?w)"
      using 2 byte_at_lane [of "if 2 \<le> ?s then 2 else 0" m ?i] byte_at_lane [of "if 2 \<le> ?s then 3 else 1" m ?i] two_lanes [of 0 ?w] two_lanes [of 2 ?w]
      by (auto simp: access_bytes_def numeral_2_eq_2 numeral_3_eq_3)
    then show ?thesis using 2 bit1 by (auto simp: load_result_def extend_def)
  next
    case 3
    then have "access_base op a = 4 * ?i" "access_bytes op = 4" using pa by (auto simp: access_base_def access_bytes_def)
    then show ?thesis using 3 word_bytes [of m ?i] by (auto simp: load_result_def extend_def)
  qed
qed

section \<open>Properties\<close>

text \<open>C14. The data memory with the lanes of the load/store buffer is a little-endian memory of 4096 bytes: a store of 1, 2
  or 4 bytes writes the low bytes of its operand to the aligned bytes of its address and leaves every other byte alone,
  and what a load returns in the cycle after its address was put out is made of the bytes there, extended as its opcode
  says.\<close>

theorem hw_memory_bytes:
  assumes "length (k_mem m) = 1024" and "is_store_op st" and "is_load_op ld" and "p < 4096"
  shows "byte_at (k_mem (hw_mem_clock ra (Some \<lparr>wr_be = store_be st a, wr_addr = a, wr_data = store_wdata st v\<rparr>) m)) p =
      (if access_base st a \<le> p \<and> p < access_base st a + access_bytes st then lane (p - access_base st a) v else byte_at (k_mem m) p) \<and>
    load_result ld (ucast ra) (k_rd_data (hw_mem_clock ra wr m)) =
      extend ld (bytes_from (k_mem m) (access_base ld ra) (access_bytes ld))"
  using store_bytes [OF assms(1,2,4)] load_bytes [OF assms(3), of ra "k_mem m"] by (simp add: hw_mem_clock_def)

text \<open>\<open>SH\<close> of \<open>0xBEEF\<close> to address 6 puts \<open>0xBE\<close> at 7; \<open>LB\<close> at 1 of a memory of \<open>0x8180\<close> gives \<open>-127\<close>.\<close>

theorem hw_memory_bytes_witness:
  "byte_at (k_mem (hw_mem_clock 1 (Some \<lparr>wr_be = store_be OP_SH 6, wr_addr = 6, wr_data = store_wdata OP_SH 0xBEEF\<rparr>)
      \<lparr>k_mem = replicate 1024 0x8180, k_rd_data = 0\<rparr>)) 7 = 0xBE \<and>
   load_result OP_LB (ucast (1 :: u32)) (k_rd_data (hw_mem_clock 1 None \<lparr>k_mem = replicate 1024 0x8180, k_rd_data = 0\<rparr>)) = -127"
proof -
  let ?m = "\<lparr>k_mem = replicate 1024 0x8180, k_rd_data = 0\<rparr> :: hw_mem"
  have "length (k_mem ?m) = 1024" "is_store_op OP_SH" "is_load_op OP_LB" "(7 :: nat) < 4096"
    by (simp_all add: is_store_op_def is_load_op_def)
  note t = hw_memory_bytes [OF this, of 1 6 "0xBEEF" None]
  have "access_base OP_SH 6 = 6" "access_bytes OP_SH = 2" "lane 1 0xBEEF = 0xBE" "access_base OP_LB 1 = 1" "access_bytes OP_LB = 1"
    "extend OP_LB (lane 1 0x8180) = -127" by code_simp+
  then show ?thesis using t by (simp add: byte_at_def)
qed


end
