(* ===== verification/Hw_Lsb.thy ===== *)
theory Hw_Lsb
  imports Hw_Station Hw_Memory
begin

text \<open>
  \<open>hardware/execute/lsb/load_store_buffer.sv\<close>: an in-order buffer of eight memory instructions. Its head leaves when it
  is a load with both operands and no load is pending, or a store that the commit unit retires; a load that has left
  is pending until the bus takes its result.
\<close>

section \<open>State and outputs\<close>

record hw_lsb =
  j_entries :: "rs_entry_t list"
  j_valid :: "bool list"
  j_notified :: "bool list"
  j_head :: "3 word"
  j_tail :: "3 word"
  j_count :: "4 word"
  j_pending :: bool
  j_pending_tag :: tag
  j_pending_op :: opcode_e
  j_pending_sel :: "2 word"
  j_pending_addr :: u32

definition hw_lsb_reset :: hw_lsb where
  "hw_lsb_reset = \<lparr>j_entries = replicate 8 zero_rs_entry, j_valid = replicate 8 False, j_notified = replicate 8 False,
     j_head = 0, j_tail = 0, j_count = 0, j_pending = False, j_pending_tag = 0, j_pending_op = OP_LW, j_pending_sel = 0,
     j_pending_addr = 0\<rparr>"

definition hw_lsb_full :: "hw_lsb \<Rightarrow> bool" where
  "hw_lsb_full l \<longleftrightarrow> j_count l = 8"

definition lsb_head_entry :: "hw_lsb \<Rightarrow> rs_entry_t" where
  "lsb_head_entry l = j_entries l ! unat (j_head l)"

definition head_ready :: "hw_lsb \<Rightarrow> bool" where
  "head_ready l \<longleftrightarrow> d_rs1_ready (lsb_head_entry l) \<and> d_rs2_ready (lsb_head_entry l)"

definition head_addr :: "hw_lsb \<Rightarrow> u32" where
  "head_addr l = d_rs1_val (lsb_head_entry l) + d_imm (lsb_head_entry l)"

definition store_ready_vec :: "hw_lsb \<Rightarrow> bool list" where
  "store_ready_vec l = map (\<lambda>i. j_valid l ! i \<and> is_store_op (d_op (j_entries l ! i)) \<and> d_rs1_ready (j_entries l ! i) \<and>
     d_rs2_ready (j_entries l ! i) \<and> \<not> j_notified l ! i) [0..<8]"

definition any_store_ready :: "hw_lsb \<Rightarrow> bool" where
  "any_store_ready l \<longleftrightarrow> list_ex id (store_ready_vec l)"

definition store_notify_idx :: "hw_lsb \<Rightarrow> nat" where
  "store_notify_idx l = hw_chain (store_ready_vec l)"

text \<open>The head leaves as a load, or as a store that is committed now.\<close>

definition load_fires :: "hw_lsb \<Rightarrow> bool" where
  "load_fires l \<longleftrightarrow> j_valid l ! unat (j_head l) \<and> \<not> j_pending l \<and> is_load_op (d_op (lsb_head_entry l)) \<and> head_ready l"

definition store_fires :: "tag option \<Rightarrow> hw_lsb \<Rightarrow> bool" where
  "store_fires commit l \<longleftrightarrow> j_valid l ! unat (j_head l) \<and> is_store_op (d_op (lsb_head_entry l)) \<and>
     commit = Some (d_rob_tag (lsb_head_entry l))"

definition do_pop :: "tag option \<Rightarrow> hw_lsb \<Rightarrow> bool" where
  "do_pop commit l \<longleftrightarrow> load_fires l \<or> store_fires commit l"

definition lsb_mem_rd_addr :: "hw_lsb \<Rightarrow> u32" where
  "lsb_mem_rd_addr l = (if j_pending l then j_pending_addr l else head_addr l)"

definition lsb_mem_write :: "tag option \<Rightarrow> hw_lsb \<Rightarrow> mem_write_port option" where
  "lsb_mem_write commit l = (if store_fires commit l then
     Some \<lparr>wr_be = store_be (d_op (lsb_head_entry l)) (head_addr l), wr_addr = head_addr l,
           wr_data = store_wdata (d_op (lsb_head_entry l)) (d_rs2_val (lsb_head_entry l))\<rparr> else None)"

definition lsb_cdb :: "u32 \<Rightarrow> hw_lsb \<Rightarrow> cdb_t" where
  "lsb_cdb rd_data l =
     \<lparr>b_tag = (if j_pending l then j_pending_tag l else d_rob_tag (j_entries l ! store_notify_idx l)),
      b_value = (if j_pending l then load_result (j_pending_op l) (j_pending_sel l) rd_data else 0),
      b_valid = j_pending l \<or> any_store_ready l\<rparr>"

section \<open>Clock edge\<close>

definition hw_lsb_clock :: "bool \<Rightarrow> rs_entry_t option \<Rightarrow> cdb_t \<Rightarrow> tag option \<Rightarrow> bool \<Rightarrow> hw_lsb \<Rightarrow> hw_lsb" where
  "hw_lsb_clock flush issue cdb commit grant l =
     (if flush then hw_lsb_reset
      else let h = unat (j_head l); t = unat (j_tail l); ld = load_fires l; pop = do_pop commit l;
               push = (issue \<noteq> None \<and> \<not> hw_lsb_full l);
               nt1 = (if \<not> j_pending l \<and> any_store_ready l \<and> grant then (j_notified l)[store_notify_idx l := True] else j_notified l);
               nt2 = (if pop then nt1[h := False] else nt1);
               es1 = map2 (\<lambda>b e. if b then hw_capture cdb e else e) (j_valid l) (j_entries l);
               v1 = (if pop then (j_valid l)[h := False] else j_valid l)
           in \<lparr>j_entries = (if push then es1[t := the issue] else es1),
               j_valid = (if push then v1[t := True] else v1),
               j_notified = (if push then nt2[t := False] else nt2),
               j_head = (if pop then j_head l + 1 else j_head l),
               j_tail = (if push then j_tail l + 1 else j_tail l),
               j_count = j_count l + (if push then 1 else 0) - (if pop then 1 else 0),
               j_pending = (if ld then True else j_pending l \<and> \<not> grant),
               j_pending_tag = (if ld then d_rob_tag (lsb_head_entry l) else j_pending_tag l),
               j_pending_op = (if ld then d_op (lsb_head_entry l) else j_pending_op l),
               j_pending_sel = (if ld then ucast (head_addr l) else j_pending_sel l),
               j_pending_addr = (if ld then head_addr l else j_pending_addr l)\<rparr>)"

section \<open>The buffer as a list\<close>

definition hw_lsb_list :: "hw_lsb \<Rightarrow> rs_entry_t list" where
  "hw_lsb_list l = ring_list (j_entries l) (unat (j_head l)) (unat (j_count l))"

text \<open>The valid slots are the counted ones from the head on.\<close>

definition hw_lsb_wf :: "hw_lsb \<Rightarrow> bool" where
  "hw_lsb_wf l \<longleftrightarrow> length (j_entries l) = 8 \<and> length (j_valid l) = 8 \<and> length (j_notified l) = 8 \<and> unat (j_count l) \<le> 8 \<and>
     unat (j_tail l) = (unat (j_head l) + unat (j_count l)) mod 8 \<and>
     (\<forall>k < 8. j_valid l ! ((unat (j_head l) + k) mod 8) \<longleftrightarrow> k < unat (j_count l))"

lemma hw_lsb_reset_wf: "hw_lsb_wf hw_lsb_reset" "hw_lsb_list hw_lsb_reset = []"
  by (simp_all add: hw_lsb_wf_def hw_lsb_reset_def hw_lsb_list_def)

lemma hw_lsb_full_iff: "hw_lsb_full l \<longleftrightarrow> unat (j_count l) = 8"
  by (auto simp: hw_lsb_full_def word_unat_eq_iff)


section \<open>An edge as a sequence of updates\<close>

definition lsb_snoop_all :: "cdb_t \<Rightarrow> hw_lsb \<Rightarrow> hw_lsb" where
  "lsb_snoop_all cdb l = l\<lparr>j_entries := map2 (\<lambda>b e. if b then hw_capture cdb e else e) (j_valid l) (j_entries l)\<rparr>"

definition lsb_pop :: "hw_lsb \<Rightarrow> hw_lsb" where
  "lsb_pop l = l\<lparr>j_valid := (j_valid l)[unat (j_head l) := False], j_head := j_head l + 1, j_count := j_count l - 1\<rparr>"

definition lsb_push :: "rs_entry_t \<Rightarrow> hw_lsb \<Rightarrow> hw_lsb" where
  "lsb_push x l = l\<lparr>j_entries := (j_entries l)[unat (j_tail l) := x], j_valid := (j_valid l)[unat (j_tail l) := True],
     j_tail := j_tail l + 1, j_count := j_count l + 1\<rparr>"

lemma lsb_wf_slot:
  assumes "hw_lsb_wf l" and "k < unat (j_count l)"
  shows "j_valid l ! ((unat (j_head l) + k) mod 8)"
  using assms by (simp add: hw_lsb_wf_def)

lemma lsb_snoop_all_list:
  assumes "hw_lsb_wf l"
  shows "hw_lsb_wf (lsb_snoop_all cdb l) \<and> hw_lsb_list (lsb_snoop_all cdb l) = map (hw_capture cdb) (hw_lsb_list l)"
proof -
  have "hw_lsb_list (lsb_snoop_all cdb l) = map (hw_capture cdb) (hw_lsb_list l)"
    by (rule nth_equalityI) (use assms lsb_wf_slot [OF assms] in \<open>auto simp: hw_lsb_list_def lsb_snoop_all_def hw_lsb_wf_def\<close>)
  moreover have "hw_lsb_wf (lsb_snoop_all cdb l)" using assms by (simp add: hw_lsb_wf_def lsb_snoop_all_def)
  ultimately show ?thesis by blast
qed

lemma lsb_head_valid:
  assumes "hw_lsb_wf l"
  shows "j_valid l ! unat (j_head l) \<longleftrightarrow> 0 < unat (j_count l)"
  using assms unfolding hw_lsb_wf_def by (metis add.right_neutral mod_less ptr_lt zero_less_numeral)

text \<open>The slots counted from the head, one further.\<close>

lemma next_slot: "(Suc h mod 8 + k) mod 8 = (h + Suc k) mod (8 :: nat)"
  by (simp add: mod_simps)

lemma lsb_pop_list:
  assumes "hw_lsb_wf l" and "j_valid l ! unat (j_head l)"
  shows "hw_lsb_wf (lsb_pop l) \<and> hw_lsb_list l = lsb_head_entry l # hw_lsb_list (lsb_pop l) \<and>
    unat (j_count (lsb_pop l)) < 8"
proof -
  let ?h = "unat (j_head l)" and ?n = "unat (j_count l)"
  have n: "0 < ?n" using lsb_head_valid assms by blast
  then obtain c where c: "?n = Suc c" by (auto simp: gr0_conv_Suc)
  have u: "unat (j_count l - 1) = c" using unat_iq_count(2) [of "j_count l"] n c by simp
  have len: "length (j_entries l) = 8" "length (j_valid l) = 8" "?n \<le> 8" using assms(1) by (simp_all add: hw_lsb_wf_def)
  have "j_valid (lsb_pop l) ! ((unat (j_head (lsb_pop l)) + k) mod 8) \<longleftrightarrow> k < unat (j_count (lsb_pop l))" if "k < 8" for k
  proof (cases "k = 7")
    case True
    then have "(unat (j_head (lsb_pop l)) + k) mod 8 = ?h" using next_slot [of ?h 7] by (simp add: lsb_pop_def unat_ptr_Suc)
    then show ?thesis using True len u c by (simp add: lsb_pop_def)
  next
    case False
    then have "Suc k < 8" using that by simp
    then have "j_valid l ! ((?h + Suc k) mod 8) \<longleftrightarrow> Suc k < ?n" using assms(1) unfolding hw_lsb_wf_def by blast
    moreover have "(?h + Suc k) mod 8 \<noteq> ?h" using \<open>Suc k < 8\<close> ring_index_inject [of "Suc k" 8 0 ?h] by simp
    ultimately show ?thesis using len u c by (simp add: lsb_pop_def unat_ptr_Suc next_slot)
  qed
  then have "hw_lsb_wf (lsb_pop l)"
    using assms(1) u c by (simp add: hw_lsb_wf_def lsb_pop_def unat_ptr_Suc mod_simps)
  moreover have "j_entries l \<noteq> []" using len by auto
  then have "hw_lsb_list l = lsb_head_entry l # hw_lsb_list (lsb_pop l)"
    using ring_list_Suc [of "j_entries l" ?h c] len(1) c u by (simp add: hw_lsb_list_def lsb_head_entry_def lsb_pop_def unat_ptr_Suc)
  ultimately show ?thesis using u c len(3) by (simp add: lsb_pop_def)
qed

lemma lsb_push_list:
  assumes "hw_lsb_wf l" and "unat (j_count l) < 8"
  shows "hw_lsb_wf (lsb_push x l) \<and> hw_lsb_list (lsb_push x l) = hw_lsb_list l @ [x]"
proof -
  let ?h = "unat (j_head l)" and ?n = "unat (j_count l)"
  have W: "length (j_entries l) = 8" "length (j_valid l) = 8" "unat (j_tail l) = (?h + ?n) mod 8"
      "\<And>k. k < 8 \<Longrightarrow> j_valid l ! ((?h + k) mod 8) \<longleftrightarrow> k < ?n"
    using assms(1) by (simp_all add: hw_lsb_wf_def)
  have u: "unat (j_count l + 1) = Suc ?n" using unat_iq_count(1) [OF assms(2)] by simp
  have "j_valid (lsb_push x l) ! ((?h + k) mod 8) \<longleftrightarrow> k < Suc ?n" if "k < 8" for k
    using that W(4) [OF that] ring_index_inject [OF that assms(2), of ?h] W(2,3) by (auto simp: lsb_push_def nth_list_update)
  then have "hw_lsb_wf (lsb_push x l)"
    using assms W u by (simp add: hw_lsb_wf_def lsb_push_def unat_ptr_Suc mod_simps)
  moreover have "hw_lsb_list (lsb_push x l) = hw_lsb_list l @ [x]"
    using ring_list_push [of ?n "j_entries l" ?h x] assms(2) W u by (simp add: hw_lsb_list_def lsb_push_def)
  ultimately show ?thesis by blast
qed

lemma lsb_wf_updates:
  "length n = 8 \<Longrightarrow> hw_lsb_wf l \<Longrightarrow> hw_lsb_wf (l\<lparr>j_notified := n, j_pending := p, j_pending_tag := g, j_pending_op := oo,
     j_pending_sel := s, j_pending_addr := a\<rparr>)"
  "hw_lsb_list (l\<lparr>j_notified := n, j_pending := p, j_pending_tag := g, j_pending_op := oo, j_pending_sel := s,
     j_pending_addr := a\<rparr>) = hw_lsb_list l"
  by (simp_all add: hw_lsb_wf_def hw_lsb_list_def)

lemma hw_lsb_clock_sequence:
  fixes cdb :: cdb_t
  defines "l1 l \<equiv> lsb_snoop_all cdb l"
  defines "l2 commit l \<equiv> if do_pop commit l then lsb_pop (l1 l) else l1 l"
  assumes "hw_lsb_wf l"
  shows "\<exists>n p g oo s a. length n = 8 \<and> hw_lsb_clock False issue cdb commit grant l =
     (case issue of Some x \<Rightarrow> if hw_lsb_full l then l2 commit l else lsb_push x (l2 commit l) | None \<Rightarrow> l2 commit l)
       \<lparr>j_notified := n, j_pending := p, j_pending_tag := g, j_pending_op := oo, j_pending_sel := s, j_pending_addr := a\<rparr>"
proof -
  let ?l = "hw_lsb_clock False issue cdb commit grant l"
  have "length (j_notified ?l) = 8" using assms(3) by (simp add: hw_lsb_clock_def Let_def hw_lsb_wf_def)
  moreover have "?l = (case issue of Some x \<Rightarrow> if hw_lsb_full l then l2 commit l else lsb_push x (l2 commit l) | None \<Rightarrow> l2 commit l)
       \<lparr>j_notified := j_notified ?l, j_pending := j_pending ?l, j_pending_tag := j_pending_tag ?l, j_pending_op := j_pending_op ?l,
        j_pending_sel := j_pending_sel ?l, j_pending_addr := j_pending_addr ?l\<rparr>"
    by (cases issue; cases "do_pop commit l"; cases "hw_lsb_full l")
       (simp_all add: hw_lsb_clock_def Let_def l1_def l2_def lsb_snoop_all_def lsb_pop_def lsb_push_def)
  ultimately show ?thesis by metis
qed

section \<open>Properties\<close>


text \<open>A load at the head of the buffer.\<close>

definition sample_load :: rs_entry_t where
  "sample_load = zero_rs_entry\<lparr>d_op := OP_LW, d_rob_tag := 5, d_rs1_ready := True, d_rs1_val := 8, d_rs2_ready := True, d_imm := 4\<rparr>"



end
