(* ===== verification/Spec2Isabelle.thy ===== *)
theory Spec2Isabelle
  imports Trace Invariants Hw_Cdb Hw_Branch Hw_Divide Hw_Rounding Hw_Decode Hw_Lsb
begin

text \<open>
  A verification of the software simulator of \<open>sim/sim_soft\<close>: a cycle-level model of an out-of-order
  RV32IF processor with Tomasulo's algorithm, in C++; and of units of its hardware, compared with it. The program reads an assembly file, runs it on
  the simulated pipeline and writes a trace, one log per unit and the final registers and memory.

  \<^bold>\<open>The program.\<close> \<open>main\<close> (\<open>sim.cpp\<close>) parses the source (\<open>parse_program\<close>), builds the units and runs a
  clock loop of seven phases per cycle: the stations and the load/store buffer execute; stores that
  are ready are reported to the reorder buffer; results go to the reorder buffer and on the common
  data bus; the stations and the load/store buffer snoop the bus; the commit unit retires the head of
  the reorder buffer; the instruction queue fetches and \<open>try_dispatch\<close> issues instructions; the bus is
  cleared. The loop ends when \<open>HALT\<close> commits, when everything has drained or after \<open>MAX_CYCLES\<close>.

  \<^bold>\<open>The model.\<close> A class is a record of its fields, a method a function on it. A failing \<open>assert\<close>, an
  unchecked access out of range and an uncaught exception are values of \<open>sim_error\<close>, threaded by the
  monad of \<open>Prelude\<close>: \<open>Inl\<close> is a process that ends abnormally. 32-bit integers are words. One theory
  per part:

  \<^item> \<open>Instruction\<close>: \<open>config.h\<close>, \<open>instruction.h\<close>, \<open>instruction.cpp\<close>, the constants and opcode tables;
    \<open>Float32\<close>: \<open>utils.h\<close> and the binary32 arithmetic of the language.
  \<^item> \<open>Regfile\<close>, \<open>Rat\<close>, \<open>Rob\<close>, \<open>Cdb\<close>: the register file, renaming table, reorder buffer and bus of the
    files of the same names (\<open>register_remapping_table\<close>, \<open>reorder_buffer\<close>, \<open>common_data_bus\<close>).
  \<^item> \<open>Dispatch_Utils\<close> (\<open>dispatch_utils.h\<close>), \<open>Reservation_Station\<close>, \<open>Load_Store_Buffer\<close>,
    \<open>Instruction_Queue\<close>, \<open>Commit_Unit\<close>, \<open>Buffer_Station\<close>: the units, each with its whole \<open>tick\<close>.
  \<^item> \<open>Sim\<close>: \<open>try_dispatch\<close> and the phases, the cycle (\<open>sim_cycle\<close>), the loop (\<open>sim_loop\<close>) and \<open>sim_main\<close>.
  \<^item> \<open>Parser\<close>: the text half of \<open>sim.cpp\<close>, from characters to instructions; \<open>Frontend\<close>: both halves
    together (\<open>sim_file\<close>).
  \<^item> \<open>Trace\<close>: \<open>dump\<close>, \<open>open_log\<close> and \<open>log_cycle\<close> of all units, the output of the loop (\<open>logged_loop\<close>),
    the report, and \<open>main\<close> from its arguments to its exit status and files (\<open>sim_program\<close>).

  \<^bold>\<open>Interfaces.\<close> \<open>Ring\<close> states the contract of a circular queue (\<open>fifo_buffer\<close>, \<open>fifo_queue\<close>), interpreted
  by the reorder buffer, the load/store buffer and the instruction queue of the hardware: entries leave in the order they
  entered. \<open>Rat\<close> has
  the contract of a renaming table (\<open>rename_table\<close>), \<open>Cdb\<close> that of a unit that snoops the bus
  (\<open>cdb_listener\<close>), interpreted by the stations and the load/store buffer.

  \<^bold>\<open>The specification.\<close> \<open>Isa\<close> is the instruction set of \<open>docs/ISA.md\<close> as a sequential machine, one
  instruction at a time on registers, memory and program counter. \<open>Flight\<close>, \<open>Flight_Stations\<close> and
  \<open>Flight_Memory\<close> relate each unit to the instructions in flight, with a ghost record of them and of
  the architectural state before them; \<open>Machine\<close> and \<open>Refinement\<close> show that every phase keeps the
  relation and that a cycle is at most one step of the sequential machine; \<open>Runs\<close> carries this to
  every reachable state. \<open>Invariants\<close> reads the relation on the units alone.

  \<^bold>\<open>What is shown.\<close>

  \<^item> Total correctness (\<open>sim_main_correct\<close>, \<open>sim_file_correct\<close>, \<open>report_correct\<close>): if the sequential
    machine stops after \<open>n\<close> instructions, \<open>main\<close> halts or drains within \<open>10 * ROB_SIZE + 11 * n + 2\<close>
    cycles, with the same registers and memory, and its report says so. \<open>committed_state_is_sequential\<close>
    is the same for every cycle of a run, ending or not. Both ask that the accesses of the sequential
    run are aligned and in range (\<open>isa_safe\<close>); outside, \<open>Load_Store_Buffer\<close> has examples where the
    simulator differs from the sequential machine.
  \<^item> Safety without that assumption: no assertion fails and no array is read out of range
    (\<open>sim_never_aborts\<close>, \<open>sim_file_never_aborts\<close>), the units agree with the reorder buffer
    (\<open>Invariants\<close>), nothing runs behind an unresolved branch (the simulator stalls; the prediction and the flush
    of \<open>docs/ISA.md\<close> are not in the code). The one assumption is that register
    numbers are below 32, which the parser does not check (\<open>dispatch_bad_register\<close>).
  \<^item> Liveness (\<open>Progress\<close>): a potential, the latency left in the stations plus a constant per free
    slot of the reorder buffer, falls in every cycle that commits nothing. Loops need no fuel: the
    clock loop is a function whose measure is the distance to \<open>MAX_CYCLES\<close>
    (\<open>clock_loop_terminates\<close>), the scans and queues recurse on lists.
  \<^item> Per unit: program order (\<open>rob_retires_in_program_order\<close>, \<open>iq_dispatches_program_order\<close>), latency
    (\<open>rs_pipelined_latency\<close>), operand capture, forwarding, the arithmetic of the source over the integers where it
    is defined (\<open>execute_op_exact\<close>), the effect of a commit.
  \<^item> Text: parsing a printed program gives it back (\<open>Assembly\<close>), branches reach their labels unless the name starts
    with a number (\<open>branch_label_target\<close>), the errors of the parser; the report is read back by the parser's own
    functions; each log holds one dump per cycle (\<open>logs_record_states\<close>), of the bus after the broadcast and of the
    other units at the start of the cycle.

  \<^bold>\<open>Parameters.\<close> The record \<open>fp_env\<close> stands for what C++ leaves to the platform: the bits of a NaN that an
  operation produces and the conversion of a \<open>float\<close> out of the range of \<open>int32_t\<close>. No theorem assumes
  anything about it; \<open>x86_env\<close> is an instance. \<open>sim_program\<close> takes the contents of the readable files.
  Evaluated on the sample programs of \<open>sim/test_sim\<close>, the model reproduces the recorded \<open>trace.txt\<close> and
  \<open>final_regs.txt\<close>.

  \<^bold>\<open>The hardware.\<close> The directory \<open>hardware\<close> holds the same processor in SystemVerilog, with the sizes of
  \<open>config.h\<close>; its results are checked against the simulator (\<open>docs/hardware-sim.md\<close>). Modules of it are modelled
  at their bit widths: a module is the record of its registers, a function per combinational output and one for
  the clock edge, in which all right-hand sides read the old registers (\<open>Hw_Types\<close> states the conventions and has
  \<open>rv32if_pkg.sv\<close>).

  \<^item> \<open>Hw_Units\<close>: \<open>alu_int\<close> and \<open>branch_unit\<close> compute what the simulator's stations compute
    (\<open>hw_units_match_simulator\<close>).
  \<^item> \<open>Hw_Cdb\<close>: the subtraction in \<open>arbiter.sv\<close> is a search from the slot after the last winner, so a waiting unit
    is served within seven cycles (\<open>cdb_grants_within_seven\<close>).
  \<^item> \<open>Hw_Rob\<close>: \<open>rob.sv\<close> makes up to four updates in one edge; on slots that differ they are four operations of the
    simulator's \<open>ReorderBuffer\<close>, and none fails its assertion (\<open>hw_rob_refines\<close>). The inputs are assumed to satisfy
    \<open>rob_env\<close>: resolutions hit branches in flight, results hit no branch. \<open>commit_unit.sv\<close> is here too.
  \<^item> \<open>Hw_Decode\<close>: the function \<open>decode\<close>, and the encoding of \<open>docs/ISA.md\<close> and RISC-V in the other direction, which
    it undoes (\<open>decode_encode\<close>). \<open>HALT\<close> follows the decoder (opcode 0x73); the immediate on the \<open>NOP\<close> encoding that
    \<open>docs/ISA.md\<close> describes is an \<open>ADDI\<close> for the hardware (\<open>manual_halt_is_addi\<close>). Every other word becomes a \<open>OP_NOP\<close>, not always a harmless one (\<open>decode_total\<close>).
  \<^item> \<open>Hw_Rename\<close>: \<open>rat.sv\<close>, \<open>regfile.sv\<close> and \<open>dispatch.sv\<close>. One cycle of the hardware commits, broadcasts and dispatches
    at once; its forwarding paths give the operands and tables the simulator has after doing the first two
    (\<open>hw_dispatch_refines\<close>). Register by register this asks that the renaming table names a producer in the buffer,
    which \<open>rename_table_consistent\<close> shows of the simulator, and that it is not a jump.
  \<^item> \<open>Hw_Station\<close>: \<open>instr_queue.sv\<close>, a first-in first-out buffer (\<open>hw_iq_in_order\<close>), and \<open>reservation_station.sv\<close>, as a
    multiset of instructions of which one enters and one leaves (\<open>hw_station_edge\<close>); a slot captures from the bus what
    the simulator's entry does (\<open>capture_refines\<close>).
  \<^item> \<open>Hw_Memory\<close>, \<open>Hw_Lsb\<close>: \<open>data_mem.sv\<close> with the lanes of stores and loads as a byte memory (\<open>hw_memory_bytes\<close>), and
    \<open>load_store_buffer.sv\<close> as a queue whose head alone reaches the memory (\<open>hw_lsb_edge\<close>).
  \<^item> \<open>Hw_Branch\<close>: the wiring of branches in \<open>tomasulo_core.sv\<close>. Here hardware and simulator differ: a jump is marked
    done before its return address is on the bus and writes 0 (\<open>hw_jump_links_zero\<close>), as long as no other result
    arrives under its tag. That is a hypothesis and the hardware does not exclude it: the integer and branch units
    have no flush, so an instruction issued in the cycle of a flush delivers its result afterwards, under a tag that
    may have a new owner (\<open>stale_link_after_flush\<close>).
  \<^item> \<open>Hw_Float\<close>: the floating-point units, with the contract of a unit behind the bus as the locale \<open>bus_unit\<close>,
    interpreted by all of them (\<open>fp_results_held\<close>). \<open>Hw_Rounding\<close> compares products, sums of equal sign and
    conversions with the simulator's arithmetic: the hardware drops the bits past the 24th of the exact result
    (\<open>truncates_to\<close>) and the simulator's result is its successor exactly where rounding to nearest even goes up
    (\<open>rounds_up\<close>), for normal operands in the ranges the theorems name (\<open>fp_mul_truncates\<close>, \<open>fp_add_truncates\<close>,
    \<open>fp_cvt_matches_simulator\<close>). \<open>Hw_Divide\<close> shows what \<open>fp_div.sv\<close> computes instead of a quotient
    (\<open>fp_div_quotient_bit\<close>).

  \<^bold>\<open>Not modelled.\<close> Messages on the standard streams and the creation of the output directories, which \<open>main\<close> does
  before it parses (the files of \<open>sim_program\<close> are those it writes, taken to be writable); of the hardware, the program memories, the board wiring of \<open>cpu.sv\<close>,
  the instances of \<open>tomasulo_core.sv\<close> outside the branch path and dispatch, and \<open>fp_round.sv\<close>, which nothing
  instantiates; differences of effective sign in \<open>fp_add.sv\<close> are modelled and not compared. The Quartus project is
  generated; the compliance harness is third-party assembler macros. Signed overflow, undefined in C++, is two's
  complement.
\<close>

section \<open>A sample program\<close>

text \<open>\<open>ADDI x1, x0, 8; SW x1, 4(x1); LW x2, 4(x1); HALT\<close>: a store and a dependent load.\<close>

definition sample_program :: "instruction list" where
  "sample_program =
     [default_instruction\<lparr>in_op := Op_ADDI, in_rd := 1, in_rs1 := 0, in_imm := 8\<rparr>,
      default_instruction\<lparr>in_op := Op_SW, in_rs1 := 1, in_rs2 := 1, in_imm := 4\<rparr>,
      default_instruction\<lparr>in_op := Op_LW, in_rd := 2, in_rs1 := 1, in_imm := 4\<rparr>,
      default_instruction\<lparr>in_op := Op_HALT\<rparr>]"

lemma sample_program_wf: "wf_program sample_program"
  by (simp add: wf_program_def sample_program_def wf_instr_def default_instruction_def class_defs)

lemma sample_program_safe: "isa_safe x86_env (program_of sample_program)"
  by (rule isa_check_safe [of _ _ 3]) code_simp

lemma sample_program_run:
  "map_option (\<lambda>a. (int_regs (ar_rf a) ! 2, ar_mem a ! 3, isa_stopped (program_of sample_program) a,
       ar_pc a < length (program_of sample_program)))
     (isa_run x86_env (program_of sample_program) 3 isa_init) = Some (8, 8, True, True)"
  by code_simp

section \<open>Properties of the whole simulator\<close>

text \<open>C4. For every well-formed program \<open>main\<close> runs to completion: no assertion of any unit fails and
  no container is read out of range, in any cycle, whatever the program does; the clock loop ends
  because \<open>HALT\<close> committed, because everything has drained, or at the cycle limit.\<close>

theorem sim_never_aborts:
  assumes "wf_program prog" and "prog \<noteq> []"
  shows "\<exists>s. sim_main fe prog = Some (Inr s) \<and> (s_halted s \<or> sim_drained s \<or> MAX_CYCLES < s_cycle s)"
proof -
  obtain s0 where s0: "sim_init prog = Inr s0" using sim_init_ok [OF assms(1)] by metis
  then have "sim_reach fe prog s0" by (rule reach_init)
  from sim_loop_returns [OF assms(1) this] obtain s where "sim_loop fe s0 = Inr s"
    "s_halted s \<or> sim_drained s \<or> MAX_CYCLES < s_cycle s" by (elim returnsE) blast
  then show ?thesis using s0 assms(2) by (simp add: sim_main_def)
qed

theorem sim_never_aborts_witness:
  "\<exists>s. sim_main x86_env sample_program = Some (Inr s) \<and>
     (s_halted s \<or> sim_drained s \<or> MAX_CYCLES < s_cycle s)"
  using sim_never_aborts [OF sample_program_wf, of x86_env] by (simp add: sample_program_def)

text \<open>C2. At every clock cycle the committed registers and memory are those of the sequential machine
  after some number of whole instructions, as long as the program's accesses are aligned and in
  range: out-of-order execution, renaming, forwarding and the bus are invisible. When the
  simulator has halted the sequential machine is at a \<open>HALT\<close>; when it has drained, the sequential
  machine has run past the end of the program.\<close>

theorem committed_state_is_sequential:
  assumes "wf_program prog" and "isa_safe fe (program_of prog)" and "sim_reach fe prog s"
  shows "\<exists>n a. isa_run fe (program_of prog) n isa_init = Some a \<and> s_rf s = ar_rf a \<and> s_mem s = ar_mem a \<and>
     (s_halted s \<longrightarrow> ar_pc a < length (program_of prog) \<and> in_op (program_of prog ! ar_pc a) = Op_HALT) \<and>
     (sim_drained s \<longrightarrow> length (program_of prog) \<le> ar_pc a)"
  using reach_ok_committed [OF sim_reach_ok [OF assms(3,1), of True]] assms(2) by blast

theorem committed_state_is_sequential_witness:
  "\<exists>s n a. sim_reach x86_env sample_program s \<and>
     isa_run x86_env (program_of sample_program) n isa_init = Some a \<and> s_rf s = ar_rf a \<and> s_mem s = ar_mem a"
proof -
  obtain s0 where "sim_init sample_program = Inr s0" using sim_init_ok [OF sample_program_wf] by metis
  then have r: "sim_reach x86_env sample_program s0" by (rule reach_init)
  show ?thesis
    using committed_state_is_sequential [OF sample_program_wf sample_program_safe r] r by blast
qed

text \<open>C1. Total correctness: if the sequential machine stops after \<open>n\<close> instructions and the cycle limit
  leaves 11 cycles for each of them and 10 for every slot of the reorder buffer, \<open>main\<close> ends by
  halting or draining, before the limit, with exactly the final registers and memory of the
  sequential machine.\<close>

theorem sim_main_correct:
  assumes "wf_program prog" and "prog \<noteq> []" and "isa_safe fe (program_of prog)"
    and "isa_run fe (program_of prog) n isa_init = Some b" and "isa_stopped (program_of prog) b"
    and "10 * ROB_SIZE + 11 * int n < MAX_CYCLES"
  shows "\<exists>s. sim_main fe prog = Some (Inr s) \<and> (s_halted s \<or> sim_drained s) \<and>
     s_cycle s \<le> 10 * ROB_SIZE + 11 * int n + 2 \<and> s_rf s = ar_rf b \<and> s_mem s = ar_mem b \<and>
     (s_halted s \<longleftrightarrow> ar_pc b < length (program_of prog))"
  by (rule sim_main_total [OF assms])

theorem sim_main_correct_witness:
  "\<exists>s. sim_main x86_env sample_program = Some (Inr s) \<and> s_halted s \<and> int_regs (s_rf s) ! 2 = 8 \<and>
     s_mem s ! 3 = 8 \<and> s_cycle s \<le> 195"
proof -
  obtain b where b: "isa_run x86_env (program_of sample_program) 3 isa_init = Some b"
    "int_regs (ar_rf b) ! 2 = 8" "ar_mem b ! 3 = 8" "isa_stopped (program_of sample_program) b"
    "ar_pc b < length (program_of sample_program)"
    using sample_program_run by auto
  show ?thesis
    using sim_main_correct [OF sample_program_wf _ sample_program_safe b(1,4)] b(2,3,5)
    by (auto simp: sample_program_def ROB_SIZE_def MAX_CYCLES_def)
qed

text \<open>C5. The same from the source text: a file that parses to a program with registers below 32 is
  executed as the sequential machine executes the parsed instructions.\<close>

theorem sim_file_correct:
  assumes "parse_program src = Inr prog" and "\<forall>i \<in> set prog. regs_below 32 i" and "prog \<noteq> []"
    and "isa_safe fe prog" and "isa_run fe prog n isa_init = Some b" and "isa_stopped prog b"
    and "10 * ROB_SIZE + 11 * int n < MAX_CYCLES"
  shows "\<exists>s. sim_file fe src = Some (Inr s) \<and> (s_halted s \<or> sim_drained s) \<and>
     s_rf s = ar_rf b \<and> s_mem s = ar_mem b \<and> (s_halted s \<longleftrightarrow> ar_pc b < length prog)"
proof -
  have "program_of prog = prog" by (rule program_of_parsed [OF assms(1)])
  then show ?thesis
    using sim_main_total [OF wf_program_parsed [OF assms(1,2)] assms(3), of fe n b] assms(1,4-7)
    by (auto simp: sim_file_def)
qed

definition sample_text :: string where
  "sample_text = ''ADDI x1, x0, 8'' @ newline # ''SW x1, 4(x1)   # mem[3]'' @ newline #
     ''LW x2, 4(x1)'' @ newline # ''HALT'' @ [newline]"

lemma sample_text_parses: "parse_program (Some sample_text) = Inr (program_of sample_program)"
  by code_simp

theorem sim_file_correct_witness:
  "\<exists>s. sim_file x86_env (Some sample_text) = Some (Inr s) \<and> s_halted s \<and> int_regs (s_rf s) ! 2 = 8 \<and>
     s_mem s ! 3 = 8"
proof -
  obtain b where b: "isa_run x86_env (program_of sample_program) 3 isa_init = Some b"
    "int_regs (ar_rf b) ! 2 = 8" "ar_mem b ! 3 = 8" "isa_stopped (program_of sample_program) b"
    "ar_pc b < length (program_of sample_program)"
    using sample_program_run by auto
  have r: "\<forall>i \<in> set (program_of sample_program). regs_below 32 i" by code_simp
  have ne: "program_of sample_program \<noteq> []" using b(5) by auto
  show ?thesis
    using sim_file_correct [OF sample_text_parses r ne sample_program_safe b(1,4)] b(2,3,5)
    by (auto simp: ROB_SIZE_def MAX_CYCLES_def)
qed

text \<open>C6. From the command line to the report: the file \<open>final/final_regs.txt\<close> that \<open>main\<close> leaves, read
  back line by line, gives the number and the bits of every register of the sequential machine at
  its end, and then lists its nonzero memory words in order of address.\<close>

theorem report_correct:
  assumes "3 \<le> length argv" and "newline \<notin> set (argv ! 1)"
    and "parse_program (fs (argv ! 1)) = Inr prog" and "\<forall>i \<in> set prog. regs_below 32 i" and "prog \<noteq> []"
    and "isa_safe fe prog" and "isa_run fe prog n isa_init = Some b" and "isa_stopped prog b"
    and "10 * ROB_SIZE + 11 * int n < MAX_CYCLES"
  shows "\<exists>files rep. sim_program fe fs argv = Inr (0, files) \<and>
     map_of files (argv ! 2 @ ''/final/final_regs.txt'') = Some (Some rep) \<and>
     (\<forall>i < 32. read_reg_line (getlines rep ! (4 + i)) = Some (int i, ucast (int_regs (ar_rf b) ! i)) \<and>
        read_reg_line (getlines rep ! (38 + i)) = Some (int i, ucast (float_to_bits (fp_regs (ar_rf b) ! i)))) \<and>
     drop 72 (getlines rep) = map (mem_line (ar_mem b)) (filter (\<lambda>i. ar_mem b ! i \<noteq> 0) [0..<MEM_SIZE])"
proof -
  have p: "program_of prog = prog" by (rule program_of_parsed [OF assms(3)])
  obtain s where s: "sim_main fe prog = Some (Inr s)" "s_rf s = ar_rf b" "s_mem s = ar_mem b"
    using sim_main_total [OF wf_program_parsed [OF assms(3,4)] assms(5), of fe n b] assms(6-9) p by auto
  then have "sim_file fe (fs (argv ! 1)) = Some (Inr s)" using assms(3) by (simp add: sim_file_def)
  then obtain out where "sim_program fe fs argv = Inr (0, written_files (argv ! 1) (argv ! 2) out s)"
    using sim_program_run [OF assms(1), of fe fs] by blast
  moreover note written_report [of "argv ! 1" "argv ! 2" out s]
  ultimately show ?thesis
    using report_reads_back [OF assms(2), of _ s] s(2,3) by fastforce
qed

theorem report_correct_witness:
  "\<exists>files rep. sim_program x86_env (\<lambda>p. if p = ''a.asm'' then Some sample_text else None) [''sim'', ''a.asm'', ''out''] =
       Inr (0, files) \<and>
     map_of files ''out/final/final_regs.txt'' = Some (Some rep) \<and> read_reg_line (getlines rep ! 6) = Some (2, 8)"
proof -
  obtain b where b: "isa_run x86_env (program_of sample_program) 3 isa_init = Some b"
    "int_regs (ar_rf b) ! 2 = 8" "isa_stopped (program_of sample_program) b"
    "ar_pc b < length (program_of sample_program)"
    using sample_program_run by auto
  have r: "\<forall>i \<in> set (program_of sample_program). regs_below 32 i" by code_simp
  have ne: "program_of sample_program \<noteq> []" using b(4) by auto
  let ?fs = "\<lambda>p. if p = ''a.asm'' then Some sample_text else None" and ?argv = "[''sim'', ''a.asm'', ''out'']"
  have "3 \<le> length ?argv" "newline \<notin> set (?argv ! 1)" "parse_program (?fs (?argv ! 1)) = Inr (program_of sample_program)"
    by (simp_all add: newline_def sample_text_parses)
  from report_correct [where argv = "?argv" and fs = "?fs", OF this r ne sample_program_safe b(1,3)]
  obtain files rep where f: "sim_program x86_env ?fs ?argv = Inr (0, files)"
    "map_of files (?argv ! 2 @ ''/final/final_regs.txt'') = Some (Some rep)"
    "\<forall>i < 32. read_reg_line (getlines rep ! (4 + i)) = Some (int i, ucast (int_regs (ar_rf b) ! i))"
    by (auto simp: ROB_SIZE_def MAX_CYCLES_def)
  have "read_reg_line (getlines rep ! (4 + 2)) = Some (int 2, ucast (int_regs (ar_rf b) ! 2))" using f(3) [rule_format, of 2] by simp
  then have "read_reg_line (getlines rep ! 6) = Some (2, 8)" using b(2) by simp
  then show ?thesis using f(1,2) by auto
qed

text \<open>C3. No cycle is lost: in every state the clock loop reaches, for any well-formed program, the
  next cycle halts, drains, commits an instruction or lowers the potential, a natural number that
  only a commit can raise. So the machine never deadlocks.\<close>

theorem sim_cycle_progress:
  assumes "wf_program prog" and "sim_reach fe prog s" and "\<not> s_halted s"
  shows "\<exists>s'. sim_cycle fe s = Inr s' \<and> 0 \<le> potential s \<and>
     (s_halted s' \<or> sim_drained s' \<or> cr_valid (s_last s') \<or> potential s' < potential s)"
proof -
  have "reach_ok fe (program_of prog) False s" by (rule sim_reach_ok [OF assms(2,1)]) simp
  then obtain F base where F: "cycle_ok F (program_of prog) base s" "fl_fe F = fe"
    using assms(3) by (auto simp: reach_ok_def)
  obtain s' where s': "sim_cycle (fl_fe F) s = Inr s'" using sim_cycle_step [OF F(1)] by (elim returnsE)
  have "st_entries (s_rs s u) \<noteq> []" for u using sim_reach_slots [OF assms(2,1)] assms(3) by blast
  moreover have "0 \<le> potential s" using F(1) potential_nonneg by (auto simp: cycle_ok_def)
  ultimately show ?thesis using cycle_commits [OF F(1) s'] s' F(2) by auto
qed

theorem sim_cycle_progress_witness:
  "\<exists>s s'. sim_reach x86_env sample_program s \<and> sim_cycle x86_env s = Inr s' \<and>
     (s_halted s' \<or> sim_drained s' \<or> cr_valid (s_last s') \<or> potential s' < potential s)"
proof -
  obtain s0 where s0: "sim_init sample_program = Inr s0" "\<not> s_halted s0"
    using sim_init_ok [OF sample_program_wf] by (metis cycle_ok_def)
  show ?thesis
    using sim_cycle_progress [OF sample_program_wf reach_init [OF s0(1), of x86_env] s0(2)]
      reach_init [OF s0(1), of x86_env] by blast
qed

end
